(* ===== verification/DH_Prelude.thy ===== *)
theory DH_Prelude
  imports Main "HOL-Library.Word"
begin

section \<open>Shared vocabulary of the development\<close>

text \<open>
  What the components share: the parts of Go and of its standard library that the modelled
  files use (byte strings, \<open>strconv\<close>, \<open>strings\<close>, \<open>time\<close>), the result type for functions
  that return an error, and the generic lemmas on lists, folds and finite functions that the
  component proofs rely on. A Go \<open>string\<close> is a sequence of bytes, here a \<^typ>\<open>string\<close>
  (a \<^typ>\<open>char list\<close>, one \<^typ>\<open>char\<close> per byte).
\<close>

named_theorems go_lib \<open>unfolding rules for the modelled parts of the Go standard library\<close>

subsection \<open>Results, integers, time\<close>

text \<open>A Go function returning \<open>(T, error)\<close>: \<open>Inl\<close> carries the error.\<close>

type_synonym ('e, 'a) result = "'e + 'a"

text \<open>Unix seconds, durations in nanoseconds and instants in nanoseconds since the epoch.\<close>

type_synonym duration = int
type_synonym instant = int

definition MaxInt64 :: int where "MaxInt64 = 9223372036854775807"
definition MinInt64 :: int where "MinInt64 = -9223372036854775808"

definition in_int64 :: "int \<Rightarrow> bool" where
  "in_int64 n \<longleftrightarrow> MinInt64 \<le> n \<and> n \<le> MaxInt64"

text \<open>The value an \<open>int64\<close> computation wraps to.\<close>

definition wrap64 :: "int \<Rightarrow> int" where
  "wrap64 x = (x + 9223372036854775808) mod 18446744073709551616 - 9223372036854775808"

lemma wrap64_id: "in_int64 x \<Longrightarrow> wrap64 x = x"
  by (simp add: wrap64_def in_int64_def MaxInt64_def MinInt64_def)

lemma wrap64_small: "0 \<le> x \<Longrightarrow> x \<le> MaxInt64 \<Longrightarrow> wrap64 x = x"
  by (rule wrap64_id) (simp add: in_int64_def MinInt64_def)

lemma wrap64_over:
  assumes "MaxInt64 < x" and "x < 18446744073709551616"
  shows "wrap64 x = x - 18446744073709551616"
proof -
  have "(x + 9223372036854775808) mod 18446744073709551616 = x + 9223372036854775808 - 18446744073709551616"
    using assms by (intro int_mod_pos_eq [where q = 1]) (auto simp: MaxInt64_def)
  then show ?thesis by (simp add: wrap64_def)
qed

lemma wrap64_nonneg:
  assumes "0 \<le> x" and "x < 18446744073709551616" and "0 \<le> wrap64 x"
  shows "wrap64 x = x" "x \<le> MaxInt64"
proof -
  show "x \<le> MaxInt64"
  proof (rule ccontr)
    assume "\<not> x \<le> MaxInt64"
    then show False using wrap64_over [of x] assms by simp
  qed
  then show "wrap64 x = x" using assms(1) by (intro wrap64_small)
qed

definition Second :: duration where "Second = 1000000000"
definition Minute :: duration where "Minute = 60 * Second"
definition Hour :: duration where "Hour = 60 * Minute"

text \<open>\<open>time.Time\{\}\<close> is midnight of January 1 of year 1.\<close>

definition zeroTime :: instant where "zeroTime = - 62135596800 * Second"

text \<open>\<open>Time.Sub\<close> saturates at the limits of a 64-bit duration.\<close>

definition time_sub :: "instant \<Rightarrow> instant \<Rightarrow> duration" where
  "time_sub a b = max MinInt64 (min MaxInt64 (a - b))"

lemma time_sub_nonpos: "time_sub a b \<le> 0 \<longleftrightarrow> a \<le> b"
  by (auto simp: time_sub_def MinInt64_def MaxInt64_def)

lemma time_sub_ge: "0 < d \<Longrightarrow> d \<le> MaxInt64 \<Longrightarrow> d \<le> time_sub a b \<longleftrightarrow> d \<le> a - b"
  by (auto simp: time_sub_def MinInt64_def MaxInt64_def)

lemma time_sub_exact: "in_int64 (a - b) \<Longrightarrow> time_sub a b = a - b"
  by (auto simp: time_sub_def in_int64_def)

text \<open>Go's integer division truncates towards zero.\<close>

definition go_div :: "int \<Rightarrow> int \<Rightarrow> int" where
  "go_div a b = sgn a * sgn b * (\<bar>a\<bar> div \<bar>b\<bar>)"

definition go_mod :: "int \<Rightarrow> int \<Rightarrow> int" where
  "go_mod a b = a - b * go_div a b"

lemma go_div_nonneg: "0 \<le> a \<Longrightarrow> 0 < b \<Longrightarrow> go_div a b = a div b"
  by (cases "a = 0") (simp_all add: go_div_def)

lemma go_mod_nonneg: "0 \<le> a \<Longrightarrow> 0 < b \<Longrightarrow> go_mod a b = a mod b"
  by (simp add: go_mod_def go_div_nonneg minus_mult_div_eq_mod)

lemmas time_units = Second_def Minute_def Hour_def

subsection \<open>Decimal numbers: \<open>strconv\<close>\<close>

definition digit_chr :: "nat \<Rightarrow> char" where
  "digit_chr d = char_of (48 + d)"

definition is_digit :: "char \<Rightarrow> bool" where
  "is_digit c \<longleftrightarrow> 48 \<le> (of_char c :: nat) \<and> (of_char c :: nat) \<le> 57"

definition digit_val :: "char \<Rightarrow> nat" where
  "digit_val c = of_char c - 48"

lemma of_char_digit_chr: "d < 10 \<Longrightarrow> (of_char (digit_chr d) :: nat) = 48 + d"
  by (simp add: digit_chr_def)

lemma is_digit_digit_chr [simp]: "d < 10 \<Longrightarrow> is_digit (digit_chr d)"
  by (simp add: is_digit_def of_char_digit_chr)

lemma digit_val_digit_chr [simp]: "d < 10 \<Longrightarrow> digit_val (digit_chr d) = d"
  by (simp add: digit_val_def of_char_digit_chr)

fun dec :: "nat \<Rightarrow> string" where
  "dec n = (if n < 10 then [digit_chr n] else dec (n div 10) @ [digit_chr (n mod 10)])"

declare dec.simps [simp del]

definition itoa :: "int \<Rightarrow> string" where
  "itoa n = (if n < 0 then CHR ''-'' # dec (nat (- n)) else dec (nat n))"

definition dec_val :: "string \<Rightarrow> nat" where
  "dec_val s = foldl (\<lambda>acc c. acc * 10 + digit_val c) 0 s"

lemma dec_nonempty [simp]: "dec n \<noteq> []"
  by (subst dec.simps) simp

lemma dec_digits: "c \<in> set (dec n) \<Longrightarrow> is_digit c"
proof (induction n arbitrary: c rule: dec.induct)
  case (1 n)
  then show ?case
    by (subst (asm) (2) dec.simps) (auto split: if_splits)
qed

lemma dec_val_dec [simp]: "dec_val (dec n) = n"
proof (induction n rule: dec.induct)
  case (1 n)
  show ?case
  proof (cases "n < 10")
    case True
    then show ?thesis by (subst dec.simps) (simp add: dec_val_def)
  next
    case False
    with 1 have "dec_val (dec (n div 10)) = n div 10" by simp
    with False show ?thesis by (subst dec.simps) (simp add: dec_val_def)
  qed
qed

text \<open>
  \<open>strconv.ParseInt(s, 10, bits)\<close>: an optional sign, at least one digit, nothing else, and a
  value in the signed range of the given width. Every caller treats the error cases alike.
\<close>

definition parse_magnitude :: "string \<Rightarrow> nat option" where
  "parse_magnitude s = (if s \<noteq> [] \<and> list_all is_digit s then Some (dec_val s) else None)"

definition ParseInt :: "nat \<Rightarrow> string \<Rightarrow> int option" where
  "ParseInt bits s =
     (case s of
        [] \<Rightarrow> None
      | c # r \<Rightarrow>
          (let neg = (c = CHR ''-'');
               body = (if c = CHR ''-'' \<or> c = CHR ''+'' then r else s)
           in case parse_magnitude body of
                None \<Rightarrow> None
              | Some m \<Rightarrow>
                  (if neg then (if int m \<le> 2 ^ (bits - 1) then Some (- int m) else None)
                   else (if int m < 2 ^ (bits - 1) then Some (int m) else None))))"

lemma parse_magnitude_dec [simp]: "parse_magnitude (dec n) = Some n"
  by (simp add: parse_magnitude_def list_all_iff dec_digits)

lemma dec_hd: "dec n = c # r \<Longrightarrow> c \<noteq> CHR ''-'' \<and> c \<noteq> CHR ''+''"
  using dec_digits [of c n] by (auto simp: is_digit_def)

lemma ParseInt_dec: "int n < 2 ^ (bits - 1) \<Longrightarrow> ParseInt bits (dec n) = Some (int n)"
proof (cases "dec n")
  case Nil
  then show ?thesis by simp
next
  case (Cons c r)
  assume n: "int n < 2 ^ (bits - 1)"
  have "c \<noteq> CHR ''-''" and "c \<noteq> CHR ''+''"
    using dec_hd [OF Cons] by auto
  moreover have "parse_magnitude (c # r) = Some n"
    by (metis Cons parse_magnitude_dec)
  ultimately show ?thesis
    using n by (simp add: ParseInt_def Cons)
qed

text \<open>\<open>strconv.Itoa\<close> and \<open>strconv.ParseInt\<close> are inverse on 64-bit values.\<close>

lemma ParseInt_itoa: "in_int64 n \<Longrightarrow> ParseInt 64 (itoa n) = Some n"
proof (cases "n < 0")
  case True
  assume "in_int64 n"
  with True show ?thesis
    by (simp add: itoa_def in_int64_def MinInt64_def MaxInt64_def ParseInt_def)
next
  case False
  assume "in_int64 n"
  with False have "int (nat n) < 2 ^ (64 - 1)"
    by (simp add: in_int64_def MaxInt64_def)
  with False show ?thesis
    using ParseInt_dec [of "nat n" 64] by (simp add: itoa_def)
qed

lemma ParseInt_range: "ParseInt bits s = Some n \<Longrightarrow> - (2 ^ (bits - 1)) \<le> n \<and> n < 2 ^ (bits - 1)"
proof -
  assume "ParseInt bits s = Some n"
  moreover have "- (2 ^ (bits - 1)) \<le> (int m)" and "- int m < 2 ^ (bits - 1)" for m
    by (rule order_trans [of _ 0], simp, simp) (rule le_less_trans [of _ 0], simp, simp)
  ultimately show ?thesis
    by (auto simp: ParseInt_def Let_def split: list.splits option.splits if_splits)
qed

subsection \<open>Strings: the package \<open>strings\<close>\<close>

definition HasPrefix :: "'a list \<Rightarrow> 'a list \<Rightarrow> bool" where
  [go_lib]: "HasPrefix s p \<longleftrightarrow> take (length p) s = p"

definition HasSuffix :: "'a list \<Rightarrow> 'a list \<Rightarrow> bool" where
  [go_lib]: "HasSuffix s p \<longleftrightarrow> length p \<le> length s \<and> drop (length s - length p) s = p"

text \<open>\<open>strings.IndexByte\<close>, with \<open>None\<close> for \<open>-1\<close>.\<close>

fun IndexByte :: "'a list \<Rightarrow> 'a \<Rightarrow> nat option" where
  "IndexByte [] c = None"
| "IndexByte (x # xs) c = (if x = c then Some 0 else map_option Suc (IndexByte xs c))"

fun Contains :: "'a list \<Rightarrow> 'a list \<Rightarrow> bool" where
  "Contains [] p = (p = [])"
| "Contains (x # xs) p = (HasPrefix (x # xs) p \<or> Contains xs p)"

definition ContainsAny :: "'a list \<Rightarrow> 'a list \<Rightarrow> bool" where
  [go_lib]: "ContainsAny s cs \<longleftrightarrow> (\<exists>c \<in> set s. c \<in> set cs)"

lemma IndexByte_Some:
  "IndexByte s c = Some i \<Longrightarrow> i < length s \<and> s ! i = c \<and> c \<notin> set (take i s)"
proof (induction s arbitrary: i)
  case Nil
  then show ?case by simp
next
  case (Cons x xs)
  then show ?case
    by (cases i) (auto split: if_splits)
qed

lemma IndexByte_append [simp]: "c \<notin> set s \<Longrightarrow> IndexByte (s @ c # t) c = Some (length s)"
  by (induction s) auto

lemma IndexByte_None_iff: "IndexByte s c = None \<longleftrightarrow> c \<notin> set s"
  by (induction s) auto

lemma HasPrefix_append [simp]: "HasPrefix (p @ s) p"
  by (simp add: HasPrefix_def)

text \<open>
  \<open>strings.TrimSpace\<close>: the encodings of the code points for which \<open>unicode.IsSpace\<close> holds,
  stripped from both ends.
\<close>

definition space_codes :: "string list" where
  "space_codes =
     map (\<lambda>n. [char_of n]) [9, 10, 11, 12, 13, 32 :: nat] @
     map (map char_of)
       ([[194, 133], [194, 160], [225, 154, 128]] @
        map (\<lambda>n. [226, 128, n]) [128, 129, 130, 131, 132, 133, 134, 135, 136, 137, 138, 168, 169, 175] @
        [[226, 129, 159], [227, 128, 128 :: nat]])"

fun trim_with :: "nat \<Rightarrow> string list \<Rightarrow> string \<Rightarrow> string" where
  "trim_with 0 ps s = s"
| "trim_with (Suc n) ps s =
     (case find (\<lambda>p. HasPrefix s p) ps of
        None \<Rightarrow> s
      | Some p \<Rightarrow> trim_with n ps (drop (length p) s))"

definition TrimLeftSpace :: "string \<Rightarrow> string" where
  "TrimLeftSpace s = trim_with (length s) space_codes s"

definition TrimSpace :: "string \<Rightarrow> string" where
  "TrimSpace s =
     (let t = TrimLeftSpace s in rev (trim_with (length t) (map rev space_codes) (rev t)))"

definition is_space_lead :: "char \<Rightarrow> bool" where
  "is_space_lead c \<longleftrightarrow> c \<in> hd ` set space_codes"

definition is_space_last :: "char \<Rightarrow> bool" where
  "is_space_last c \<longleftrightarrow> c \<in> last ` set space_codes"

lemma space_codes_nonempty: "p \<in> set space_codes \<Longrightarrow> p \<noteq> []"
  by (auto simp: space_codes_def)

lemma trim_with_id:
  assumes "\<And>p. p \<in> set ps \<Longrightarrow> \<not> HasPrefix s p"
  shows "trim_with n ps s = s"
proof (cases n)
  case 0
  then show ?thesis by simp
next
  case (Suc m)
  from assms have "find (\<lambda>p. HasPrefix s p) ps = None"
    by (simp add: find_None_iff)
  with Suc show ?thesis by simp
qed

lemma TrimSpace_id:
  assumes "s \<noteq> []" and "\<not> is_space_lead (hd s)" and "\<not> is_space_last (last s)"
  shows "TrimSpace s = s"
proof -
  have lead: "\<not> HasPrefix s p" if "p \<in> set space_codes" for p
  proof
    assume "HasPrefix s p"
    with that space_codes_nonempty have "hd s = hd p"
      by (metis HasPrefix_def assms(1) hd_take length_greater_0_conv)
    with that assms(2) show False by (auto simp: is_space_lead_def)
  qed
  have last: "\<not> HasPrefix (rev s) p" if "p \<in> set (map rev space_codes)" for p
  proof
    assume pre: "HasPrefix (rev s) p"
    from that obtain q where q: "q \<in> set space_codes" "p = rev q" by auto
    with pre space_codes_nonempty have "hd (rev s) = hd (rev q)"
      by (metis HasPrefix_def assms(1) hd_take length_greater_0_conv rev_is_Nil_conv)
    with q assms(1) have "last s = last q"
      by (metis hd_rev)
    with q assms(3) show False by (auto simp: is_space_last_def)
  qed
  from lead have "TrimLeftSpace s = s"
    by (simp add: TrimLeftSpace_def trim_with_id)
  moreover from last have "trim_with (length s) (map rev space_codes) (rev s) = rev s"
    by (rule trim_with_id)
  ultimately show ?thesis by (simp add: TrimSpace_def)
qed

lemma is_digit_not_space: "is_digit c \<Longrightarrow> \<not> is_space_lead c \<and> \<not> is_space_last c"
  by (auto simp: is_digit_def is_space_lead_def is_space_last_def space_codes_def)

lemma TrimSpace_digits:
  assumes "s \<noteq> []" and "list_all is_digit s"
  shows "TrimSpace s = s"
proof -
  from assms have "is_digit (hd s)" and "is_digit (last s)"
    by (auto simp: list_all_iff)
  with assms(1) show ?thesis
    by (simp add: TrimSpace_id is_digit_not_space)
qed

lemma TrimSpace_dec [simp]: "TrimSpace (dec n) = dec n"
  by (rule TrimSpace_digits) (simp_all add: list_all_iff dec_digits)

text \<open>ASCII lower-casing of one byte.\<close>

definition lower :: "char \<Rightarrow> char" where
  "lower c = (if 65 \<le> (of_char c :: nat) \<and> (of_char c :: nat) \<le> 90 then char_of (of_char c + 32 :: nat) else c)"

definition ToLowerASCII :: "string \<Rightarrow> string" where
  "ToLowerASCII s = map lower s"

definition TrimPrefix :: "'a list \<Rightarrow> 'a list \<Rightarrow> 'a list" where
  [go_lib]: "TrimPrefix s p = (if HasPrefix s p then drop (length p) s else s)"

lemma lower_lower [simp]: "lower (lower c) = lower c"
  by (simp add: lower_def)

lemma lower_digit [simp]: "is_digit c \<Longrightarrow> lower c = c"
  by (simp add: lower_def is_digit_def)

lemma ToLowerASCII_append [simp]: "ToLowerASCII (s @ t) = ToLowerASCII s @ ToLowerASCII t"
  by (simp add: ToLowerASCII_def)

lemma ToLowerASCII_digits: "list_all is_digit s \<Longrightarrow> ToLowerASCII s = s"
  by (simp add: ToLowerASCII_def list_all_iff map_idI)

text \<open>\<open>strings.Join\<close> with a separator of one byte.\<close>

fun Join :: "'a list list \<Rightarrow> 'a \<Rightarrow> 'a list" where
  "Join [] sep = []"
| "Join [p] sep = p"
| "Join (p # q # ps) sep = p @ sep # Join (q # ps) sep"

lemma split_at_sep: "sep \<notin> set p \<Longrightarrow> sep \<notin> set q \<Longrightarrow> p @ sep # r = q @ sep # t \<Longrightarrow> p = q \<and> r = t"
proof (induction p arbitrary: q)
  case Nil
  then show ?case by (cases q) auto
next
  case (Cons x p)
  then show ?case by (cases q) auto
qed

lemma Join_inject:
  assumes "Join ps sep = Join qs sep" and "length ps = length qs"
    and "\<forall>p \<in> set ps. sep \<notin> set p" and "\<forall>q \<in> set qs. sep \<notin> set q"
  shows "ps = qs"
  using assms
proof (induction ps sep arbitrary: qs rule: Join.induct)
  case (1 sep)
  then show ?case by simp
next
  case (2 p sep)
  then show ?case by (cases qs) auto
next
  case (3 p p' ps sep)
  then obtain q t where "qs = q # t" "length t = Suc (length ps)" by (cases qs) auto
  then obtain q' rs where qs: "qs = q # q' # rs" by (cases t) auto
  have "p @ sep # Join (p' # ps) sep = q @ sep # Join (q' # rs) sep"
    using "3.prems"(1) qs by simp
  from split_at_sep [OF _ _ this] have "p = q" and "Join (p' # ps) sep = Join (q' # rs) sep"
    using "3.prems"(3,4) qs by simp_all
  moreover have "p' # ps = q' # rs"
    using "3.IH" [OF calculation(2)] "3.prems"(2-4) qs by simp
  ultimately show ?case using qs by simp
qed

lemma itoa_chars: "c \<in> set (itoa n) \<Longrightarrow> is_digit c \<or> c = CHR ''-''"
  using dec_digits by (auto simp: itoa_def split: if_splits)

lemma dec_inject: "dec m = dec n \<longleftrightarrow> m = n"
  by (metis dec_val_dec)

lemma itoa_inject: "0 \<le> m \<Longrightarrow> 0 \<le> n \<Longrightarrow> itoa m = itoa n \<longleftrightarrow> m = n"
  by (auto simp: itoa_def dec_inject)

subsection \<open>Hexadecimal: \<open>encoding/hex\<close>\<close>

definition hex_chr :: "nat \<Rightarrow> char" where
  "hex_chr d = (if d < 10 then char_of (48 + d) else char_of (87 + d))"

definition hex_val :: "char \<Rightarrow> nat option" where
  "hex_val c =
     (let n = (of_char c :: nat) in
      if 48 \<le> n \<and> n \<le> 57 then Some (n - 48)
      else if 97 \<le> n \<and> n \<le> 102 then Some (n - 87)
      else if 65 \<le> n \<and> n \<le> 70 then Some (n - 55)
      else None)"

definition EncodeToString :: "string \<Rightarrow> string" where
  "EncodeToString bs = concat (map (\<lambda>b. [hex_chr (of_char b div 16), hex_chr (of_char b mod 16)]) bs)"

fun DecodeString :: "string \<Rightarrow> string option" where
  "DecodeString [] = Some []"
| "DecodeString [c] = None"
| "DecodeString (c # d # r) =
     (case (hex_val c, hex_val d, DecodeString r) of
        (Some h, Some l, Some bs) \<Rightarrow> Some (char_of (16 * h + l) # bs)
      | _ \<Rightarrow> None)"

lemma hex_val_chr: "d < 16 \<Longrightarrow> hex_val (hex_chr d) = Some d"
  by (auto simp: hex_val_def hex_chr_def Let_def)

lemma DecodeString_Encode [simp]: "DecodeString (EncodeToString bs) = Some bs"
proof (induction bs)
  case Nil
  then show ?case by (simp add: EncodeToString_def)
next
  case (Cons b bs)
  have "(of_char b :: nat) < 256" by simp
  then have "(of_char b :: nat) div 16 < 16" by linarith
  then have "hex_val (hex_chr (of_char b div 16)) = Some (of_char b div 16)"
    and "hex_val (hex_chr (of_char b mod 16)) = Some (of_char b mod 16)"
    by (rule hex_val_chr) (rule hex_val_chr, simp)
  with Cons show ?case by (simp add: EncodeToString_def)
qed

lemma length_EncodeToString [simp]: "length (EncodeToString bs) = 2 * length bs"
  by (induction bs) (simp_all add: EncodeToString_def)

subsection \<open>Timestamps as the database stores them\<close>

text \<open>
  \<open>t.UTC().Format(time.RFC3339Nano)\<close>: up to the second the text has a fixed width and sorts like the
  instant (years 0 to 9999); the fraction follows without trailing zeros, and then \<open>Z\<close>.
  \<open>stamp_less\<close> is the comparison of two such texts.
\<close>

definition unix :: "instant \<Rightarrow> int" where "unix t = t div Second"

fun strip_zeros :: "nat \<Rightarrow> nat \<Rightarrow> nat \<times> nat" where
  "strip_zeros n 0 = (n, 0)"
| "strip_zeros n (Suc w) = (if n mod 10 = 0 then strip_zeros (n div 10) w else (n, Suc w))"

definition pad_left :: "nat \<Rightarrow> string \<Rightarrow> string" where
  "pad_left w s = replicate (w - length s) (CHR ''0'') @ s"

definition fraction :: "instant \<Rightarrow> string" where
  "fraction t =
     (let n = nat (t mod Second); (m, w) = strip_zeros n 9 in
      if n = 0 then ''Z'' else CHR ''.'' # pad_left w (dec m) @ ''Z'')"

fun bytes_less :: "string \<Rightarrow> string \<Rightarrow> bool" where
  "bytes_less [] [] = False"
| "bytes_less [] (y # ys) = True"
| "bytes_less (x # xs) [] = False"
| "bytes_less (x # xs) (y # ys) =
     (if x = y then bytes_less xs ys else (of_char x :: nat) < of_char y)"

definition stamp_less :: "instant \<Rightarrow> instant \<Rightarrow> bool" where
  "stamp_less a b \<longleftrightarrow> unix a < unix b \<or> (unix a = unix b \<and> bytes_less (fraction a) (fraction b))"

lemma bytes_less_irrefl: "\<not> bytes_less s s"
  by (induction s) auto

lemma bytes_less_total: "bytes_less s t \<or> s = t \<or> bytes_less t s"
proof (induction s t rule: bytes_less.induct)
  case (4 x xs y ys)
  have "x = y \<or> (of_char x :: nat) < of_char y \<or> (of_char y :: nat) < of_char x"
    using of_char_eq_iff [where 'a = nat, of x y] by linarith
  with 4 show ?case by auto
qed auto

lemma bytes_less_asym: "bytes_less s t \<Longrightarrow> \<not> bytes_less t s"
  by (induction s t rule: bytes_less.induct) (auto split: if_splits)

lemma bytes_less_trans: "bytes_less s t \<Longrightarrow> bytes_less t u \<Longrightarrow> bytes_less s u"
proof (induction s t arbitrary: u rule: bytes_less.induct)
  case (4 x xs y ys)
  then obtain z zs where u: "u = z # zs" by (cases u) auto
  show ?case
  proof (cases "x = y \<and> y = z")
    case True
    with 4 u show ?thesis by simp
  next
    case False
    with 4 u show ?thesis
      using of_char_eq_iff [where 'a = nat, of x z] by (auto split: if_splits)
  qed
next
  case (2 y ys)
  then show ?case by (cases u) auto
qed auto

text \<open>The order of stored times is a total order of the texts.\<close>

lemma stamp_less_order:
  "stamp_less a b \<Longrightarrow> \<not> stamp_less c b \<Longrightarrow> stamp_less a c"
  "stamp_less a b \<Longrightarrow> \<not> stamp_less b a"
proof -
  show "stamp_less a b \<Longrightarrow> \<not> stamp_less c b \<Longrightarrow> stamp_less a c"
    using bytes_less_trans [of "fraction a" "fraction b" "fraction c"] bytes_less_total [of "fraction b" "fraction c"]
    by (auto simp: stamp_less_def)
  show "stamp_less a b \<Longrightarrow> \<not> stamp_less b a"
    using bytes_less_asym by (auto simp: stamp_less_def)
qed

lemma stamp_less_second: "unix a < unix b \<Longrightarrow> stamp_less a b \<and> \<not> stamp_less b a"
  by (auto simp: stamp_less_def)

end
