(* ===== verification/AccountGov.thy ===== *)
theory AccountGov
  imports DH_Prelude
begin

section \<open>The account governor: priority leases and the learned connection ceiling\<close>

text \<open>
  Models \<open>internal/accountgov/accountgov.go\<close>. One \<open>governor\<close> record is one \<open>Governor\<close>; each
  critical section of \<open>g.mu\<close> is one function on it, so an interleaving of goroutines is a
  sequence of these functions. \<open>gov_step\<close> composes them the way concurrent callers do:
  a caller of \<open>Acquire\<close> takes the fast path or parks, a parked caller wakes when its \<open>ready\<close>
  channel is closed or gives up when its context ends, a holder releases. The second half
  is the AIMD \<open>ConnCeiling\<close>.

  Go maps read with a zero default are total functions (\<open>inUse\<close>, \<open>waiting\<close>, \<open>served\<close>,
  \<open>denials\<close>); \<open>caps\<close>, whose membership is tested, is a partial map. A waiter is identified by
  its \<open>seq\<close>, which the code draws from a counter under the lock, and its closed \<open>ready\<close>
  channel is a flag on the parked caller. Counters are \<^typ>\<open>int\<close> except the \<open>uint64\<close> denial
  counters.
\<close>

subsection \<open>Priorities\<close>

type_synonym priority = int

definition PriorityPlayback :: priority where "PriorityPlayback = 0"
definition PriorityRecovery :: priority where "PriorityRecovery = 1"
definition PriorityGrab :: priority where "PriorityGrab = 2"
definition PriorityRepair :: priority where "PriorityRepair = 3"
definition PriorityAudit :: priority where "PriorityAudit = 4"
definition PriorityPrewarm :: priority where "PriorityPrewarm = 5"

lemmas priority_defs = PriorityPlayback_def PriorityRecovery_def PriorityGrab_def
  PriorityRepair_def PriorityAudit_def PriorityPrewarm_def

definition Priority_String :: "priority \<Rightarrow> string" where
  "Priority_String p =
     (if p = PriorityPlayback then ''playback''
      else if p = PriorityRecovery then ''recovery''
      else if p = PriorityGrab then ''grab''
      else if p = PriorityRepair then ''repair''
      else if p = PriorityAudit then ''audit''
      else if p = PriorityPrewarm then ''prewarm''
      else ''priority('' @ itoa p @ '')'')"

subsection \<open>State\<close>

record waiter =
  w_priority :: priority
  w_session :: string
  w_seq :: int

text \<open>\<open>denialCounts\<close>: seven priorities by two reasons of \<open>uint64\<close>.\<close>

type_synonym denialCounts = "64 word list list"

definition denialPriorities :: nat where "denialPriorities = 7"
definition denialReasons :: nat where "denialReasons = 2"

definition zeroDenials :: denialCounts where
  "zeroDenials = replicate denialPriorities (replicate denialReasons 0)"

record DenialSnapshot =
  ds_priority :: string
  ds_reason :: string
  ds_count :: "64 word"

record governor =
  gov_name :: string
  caps :: "string \<rightharpoonup> int"
  inUse :: "string \<Rightarrow> int"
  waiting :: "string \<Rightarrow> waiter list"
  served :: "string \<Rightarrow> string \<Rightarrow> int"
  denials :: "string \<Rightarrow> denialCounts"
  gov_seq :: int

definition New_Governor :: "string \<Rightarrow> governor" where
  "New_Governor name = \<lparr>gov_name = name, caps = Map.empty, inUse = (\<lambda>_. 0), waiting = (\<lambda>_. []),
     served = (\<lambda>_ _. 0), denials = (\<lambda>_. zeroDenials), gov_seq = 0\<rparr>"

definition Governor_Name :: "governor \<Rightarrow> string" where
  "Governor_Name g = gov_name g"

subsection \<open>Configuration and observers\<close>

definition SetCapacity :: "governor \<Rightarrow> string \<Rightarrow> int \<Rightarrow> governor" where
  "SetCapacity g op capacity =
     (if capacity \<le> 0 then g\<lparr>caps := (caps g)(op := None)\<rparr>
      else g\<lparr>caps := (caps g)(op \<mapsto> capacity)\<rparr>)"

definition Capacity :: "governor \<Rightarrow> string \<Rightarrow> int" where
  "Capacity g op = (case caps g op of None \<Rightarrow> 0 | Some c \<Rightarrow> c)"

definition InUse :: "governor \<Rightarrow> string \<Rightarrow> int" where
  "InUse g op = inUse g op"

definition Waiting :: "governor \<Rightarrow> string \<Rightarrow> nat" where
  "Waiting g op = length (waiting g op)"

definition markServedLocked :: "governor \<Rightarrow> string \<Rightarrow> string \<Rightarrow> governor" where
  "markServedLocked g op session =
     g\<lparr>served := (served g)(op := (served g op)(session := served g op session + 1))\<rparr>"

subsection \<open>Acquire\<close>

text \<open>
  The critical section of \<open>Acquire\<close>: either a lease at once, for a class without a configured
  capacity (which takes no unit) or with a free unit, or a new waiter at the end of the queue.
\<close>

datatype acquire_result = Leased | Parked waiter

definition Acquire :: "governor \<Rightarrow> string \<Rightarrow> priority \<Rightarrow> string \<Rightarrow> acquire_result \<times> governor" where
  "Acquire g op priority session =
     (let capacity = Capacity g op in
      if capacity \<le> 0 then (Leased, g)
      else if inUse g op < capacity then
        (Leased, markServedLocked (g\<lparr>inUse := (inUse g)(op := inUse g op + 1)\<rparr>) op session)
      else
        (let s = gov_seq g + 1;
             w = \<lparr>w_priority = priority, w_session = session, w_seq = s\<rparr>
         in (Parked w, g\<lparr>gov_seq := s, waiting := (waiting g)(op := waiting g op @ [w])\<rparr>)))"

subsection \<open>Release\<close>

definition betterWaiter :: "waiter \<Rightarrow> waiter \<Rightarrow> (string \<Rightarrow> int) \<Rightarrow> bool" where
  "betterWaiter candidate current srv =
     (if w_priority candidate \<noteq> w_priority current then w_priority candidate < w_priority current
      else if srv (w_session candidate) \<noteq> srv (w_session current)
        then srv (w_session candidate) < srv (w_session current)
      else w_seq candidate < w_seq current)"

text \<open>The scan \<open>for i := 1; i < len(queue); i++\<close> that keeps the index of the best waiter.\<close>

function bestIndex :: "waiter list \<Rightarrow> (string \<Rightarrow> int) \<Rightarrow> nat \<Rightarrow> nat \<Rightarrow> nat" where
  "bestIndex queue srv i best =
     (if i < length queue
      then bestIndex queue srv (Suc i) (if betterWaiter (queue ! i) (queue ! best) srv then i else best)
      else best)"
  by pat_completeness auto
termination
  by (relation "measure (\<lambda>(queue, srv, i, best). length queue - i)") auto

declare bestIndex.simps [simp del]

definition remove_at :: "nat \<Rightarrow> 'a list \<Rightarrow> 'a list" where
  "remove_at i xs = take i xs @ drop (Suc i) xs"

text \<open>
  \<open>release\<close> returns the new state and the waiter whose \<open>ready\<close> channel it closes, if any. The
  unit passes to that waiter, so \<open>inUse\<close> does not change.
\<close>

definition release :: "governor \<Rightarrow> string \<Rightarrow> waiter option \<times> governor" where
  "release g op =
     (case caps g op of
        None \<Rightarrow> (None, g)
      | Some _ \<Rightarrow>
          (let queue = waiting g op in
           if queue = [] then
             (None, if inUse g op > 0 then g\<lparr>inUse := (inUse g)(op := inUse g op - 1)\<rparr> else g)
           else
             (let best = bestIndex queue (served g op) 1 0;
                  w = queue ! best
              in (Some w,
                  markServedLocked (g\<lparr>waiting := (waiting g)(op := remove_at best queue)\<rparr>)
                    op (w_session w)))))"

subsection \<open>Cancellation and denial counters\<close>

datatype ctx_error = Canceled | DeadlineExceeded

definition denialPriorityIndex :: "priority \<Rightarrow> nat" where
  "denialPriorityIndex p =
     (if p < PriorityPlayback \<or> p > PriorityPrewarm then denialPriorities - 1 else nat p)"

definition denialPriorityName :: "nat \<Rightarrow> string" where
  "denialPriorityName index =
     (if index = denialPriorities - 1 then ''unknown'' else Priority_String (int index))"

definition denialReasonIndex :: "ctx_error \<Rightarrow> nat" where
  "denialReasonIndex err = (if err = DeadlineExceeded then 1 else 0)"

definition bumpDenial :: "denialCounts \<Rightarrow> nat \<Rightarrow> nat \<Rightarrow> denialCounts" where
  "bumpDenial counts p r = counts[p := (counts ! p)[r := counts ! p ! r + 1]]"

text \<open>
  The first critical section of \<open>cancelWaiter\<close>: it counts the denial and removes the waiter from
  the queue. The boolean is \<open>False\<close> when the waiter is not in the queue any more; the code then
  finds \<open>ready\<close> closed and calls \<open>release\<close>, a critical section of its own.
\<close>

definition cancelWaiter :: "governor \<Rightarrow> string \<Rightarrow> waiter \<Rightarrow> ctx_error \<Rightarrow> bool \<times> governor" where
  "cancelWaiter g op w err =
     (let counts = bumpDenial (denials g op) (denialPriorityIndex (w_priority w)) (denialReasonIndex err);
          g1 = g\<lparr>denials := (denials g)(op := counts)\<rparr>
      in case IndexByte (map w_seq (waiting g1 op)) (w_seq w) of
           Some i \<Rightarrow> (True, g1\<lparr>waiting := (waiting g1)(op := remove_at i (waiting g1 op))\<rparr>)
         | None \<Rightarrow> (False, g1))"

definition Denials :: "governor \<Rightarrow> string \<Rightarrow> DenialSnapshot list" where
  "Denials g op =
     (let counts = denials g op in
      concat (map (\<lambda>p. concat (map (\<lambda>r.
        if counts ! p ! r = 0 then []
        else [\<lparr>ds_priority = denialPriorityName p, ds_reason = [''canceled'', ''deadline''] ! r,
               ds_count = counts ! p ! r\<rparr>])
        [0..<denialReasons])) [0..<denialPriorities]))"

subsection \<open>The waiter order\<close>

text \<open>
  \<open>betterWaiter\<close> is a strict order, total on waiters with different sequence numbers; the scan
  of \<open>release\<close> therefore finds the one waiter that is better than every other.
\<close>

lemma betterWaiter_trans: "betterWaiter a b srv \<Longrightarrow> betterWaiter b c srv \<Longrightarrow> betterWaiter a c srv"
  by (auto simp: betterWaiter_def split: if_splits)

lemma betterWaiter_total: "w_seq a \<noteq> w_seq b \<Longrightarrow> \<not> betterWaiter a b srv \<Longrightarrow> betterWaiter b a srv"
  by (auto simp: betterWaiter_def split: if_splits)

lemma betterWaiter_iff:
  "betterWaiter a b srv \<longleftrightarrow> w_priority a < w_priority b \<or>
     w_priority a = w_priority b \<and> srv (w_session a) < srv (w_session b) \<or>
     w_priority a = w_priority b \<and> srv (w_session a) = srv (w_session b) \<and> w_seq a < w_seq b"
  by (auto simp: betterWaiter_def)

lemma betterWaiter_irrefl: "\<not> betterWaiter a a srv"
  by (simp add: betterWaiter_def)

lemma bestIndex_best:
  assumes "distinct (map w_seq queue)" and "best < i" and "i \<le> length queue"
    and "\<forall>j < i. j \<noteq> best \<longrightarrow> betterWaiter (queue ! best) (queue ! j) srv"
  shows "bestIndex queue srv i best < length queue \<and>
    (\<forall>j < length queue. j \<noteq> bestIndex queue srv i best \<longrightarrow>
       betterWaiter (queue ! bestIndex queue srv i best) (queue ! j) srv)"
  using assms
proof (induction queue srv i best rule: bestIndex.induct)
  case (1 queue srv i best)
  show ?case
  proof (cases "i < length queue")
    case False
    then have "bestIndex queue srv i best = best" by (subst bestIndex.simps) simp
    with False "1.prems" show ?thesis by simp
  next
    case True
    define best' where "best' = (if betterWaiter (queue ! i) (queue ! best) srv then i else best)"
    have seqs: "w_seq (queue ! i) \<noteq> w_seq (queue ! best)"
      using "1.prems"(1,2) True by (auto simp: distinct_conv_nth)
    have "\<forall>j < Suc i. j \<noteq> best' \<longrightarrow> betterWaiter (queue ! best') (queue ! j) srv"
    proof (cases "betterWaiter (queue ! i) (queue ! best) srv")
      case True
      then have "betterWaiter (queue ! i) (queue ! j) srv" if "j < i" for j
        using "1.prems"(4) that by (cases "j = best") (auto intro: betterWaiter_trans)
      with True show ?thesis by (auto simp: best'_def less_Suc_eq)
    next
      case False
      then have "betterWaiter (queue ! best) (queue ! i) srv"
        using betterWaiter_total seqs by blast
      with False "1.prems"(4) show ?thesis by (auto simp: best'_def less_Suc_eq)
    qed
    moreover have "best' < Suc i"
      using "1.prems"(2) by (auto simp: best'_def)
    ultimately have "bestIndex queue srv (Suc i) best' < length queue \<and>
        (\<forall>j < length queue. j \<noteq> bestIndex queue srv (Suc i) best' \<longrightarrow>
           betterWaiter (queue ! bestIndex queue srv (Suc i) best') (queue ! j) srv)"
      using "1.IH" [OF True] "1.prems"(1) True by (simp add: best'_def)
    then show ?thesis
      using True by (simp add: bestIndex.simps [of queue srv i best] best'_def)
  qed
qed

lemma bestIndex_from_start:
  assumes "distinct (map w_seq queue)" and "queue \<noteq> []"
  shows "bestIndex queue srv 1 0 < length queue"
    and "\<And>j. j < length queue \<Longrightarrow> j \<noteq> bestIndex queue srv 1 0 \<Longrightarrow>
       betterWaiter (queue ! bestIndex queue srv 1 0) (queue ! j) srv"
  using bestIndex_best [OF assms(1), of 0 1 srv] assms(2)
  by (auto simp: Suc_le_eq)

lemma remove_at_filter:
  assumes "i < length xs" and "distinct (map f xs)"
  shows "remove_at i xs = filter (\<lambda>x. f x \<noteq> f (xs ! i)) xs"
proof -
  let ?P = "\<lambda>x. f x \<noteq> f (xs ! i)"
  have split: "xs = take i xs @ xs ! i # drop (Suc i) xs"
    using assms(1) by (rule id_take_nth_drop)
  have "distinct (map f (take i xs @ xs ! i # drop (Suc i) xs))"
    using assms(2) split by simp
  then have "f (xs ! i) \<notin> f ` (set (take i xs) \<union> set (drop (Suc i) xs))"
    by auto
  then have "\<forall>x \<in> set (take i xs) \<union> set (drop (Suc i) xs). ?P x"
    by (metis imageI)
  then have "filter ?P (take i xs @ xs ! i # drop (Suc i) xs) = take i xs @ drop (Suc i) xs"
    by (simp add: filter_id_conv)
  with split show ?thesis by (simp add: remove_at_def)
qed


lemma length_remove_at: "i < length xs \<Longrightarrow> length (remove_at i xs) = length xs - 1"
  by (simp add: remove_at_def)

subsection \<open>Concurrent callers\<close>

text \<open>
  The callers of one governor. \<open>held op\<close> counts the leases granted and not yet released (and
  the units a cancelled caller still has to give back), \<open>parked op\<close> the callers blocked in the
  \<open>select\<close> of \<open>Acquire\<close>, in order of arrival, \<open>ready\<close> the sequence numbers whose \<open>ready\<close>
  channel is closed. A blocked caller whose channel is closed and whose context has ended may
  take either branch of the \<open>select\<close>.
\<close>

record gov_sys =
  gov :: governor
  held :: "string \<Rightarrow> nat"
  parked :: "string \<Rightarrow> waiter list"
  ready :: "int set"

definition configured :: "string \<Rightarrow> (string \<times> int) list \<Rightarrow> governor" where
  "configured name cfg = foldl (\<lambda>g (op, c). SetCapacity g op c) (New_Governor name) cfg"

definition start_sys :: "string \<Rightarrow> (string \<times> int) list \<Rightarrow> gov_sys" where
  "start_sys name cfg =
     \<lparr>gov = configured name cfg, held = (\<lambda>_. 0), parked = (\<lambda>_. []), ready = {}\<rparr>"

definition take_lease :: "gov_sys \<Rightarrow> string \<Rightarrow> gov_sys" where
  "take_lease s op = s\<lparr>held := (held s)(op := held s op + 1)\<rparr>"

definition leave :: "gov_sys \<Rightarrow> string \<Rightarrow> waiter \<Rightarrow> gov_sys" where
  "leave s op w = s\<lparr>parked := (parked s)(op := filter (\<lambda>x. w_seq x \<noteq> w_seq w) (parked s op))\<rparr>"

inductive gov_step :: "gov_sys \<Rightarrow> gov_sys \<Rightarrow> bool" where
  lease: "Acquire (gov s) op p sess = (Leased, g) \<Longrightarrow> gov_step s (take_lease (s\<lparr>gov := g\<rparr>) op)"
| park: "Acquire (gov s) op p sess = (Parked w, g) \<Longrightarrow>
     gov_step s (s\<lparr>gov := g, parked := (parked s)(op := parked s op @ [w])\<rparr>)"
| wake: "w \<in> set (parked s op) \<Longrightarrow> w_seq w \<in> ready s \<Longrightarrow> gov_step s (take_lease (leave s op w) op)"
| cancel_queued: "w \<in> set (parked s op) \<Longrightarrow> cancelWaiter (gov s) op w err = (True, g) \<Longrightarrow>
     gov_step s (leave (s\<lparr>gov := g\<rparr>) op w)"
| cancel_granted: "w \<in> set (parked s op) \<Longrightarrow> cancelWaiter (gov s) op w err = (False, g) \<Longrightarrow>
     w_seq w \<in> ready s \<Longrightarrow> gov_step s (take_lease (leave (s\<lparr>gov := g\<rparr>) op w) op)"
| cancel_default: "w \<in> set (parked s op) \<Longrightarrow> cancelWaiter (gov s) op w err = (False, g) \<Longrightarrow>
     w_seq w \<notin> ready s \<Longrightarrow> gov_step s (leave (s\<lparr>gov := g\<rparr>) op w)"
| give_back: "held s op > 0 \<Longrightarrow> release (gov s) op = (r, g) \<Longrightarrow>
     gov_step s (s\<lparr>gov := g, held := (held s)(op := held s op - 1),
       ready := ready s \<union> w_seq ` set_option r\<rparr>)"

inductive gov_reachable :: "string \<Rightarrow> (string \<times> int) list \<Rightarrow> gov_sys \<Rightarrow> bool" for name cfg where
  gov_start: "gov_reachable name cfg (start_sys name cfg)"
| gov_next: "gov_reachable name cfg s \<Longrightarrow> gov_step s t \<Longrightarrow> gov_reachable name cfg t"

text \<open>
  The invariant of one operation class. The queue of the governor is exactly the parked
  callers whose channel is still open, in the same order; the units in use are the leases held
  plus the grants not yet picked up; nothing waits while a unit is free.
\<close>

definition granted :: "gov_sys \<Rightarrow> string \<Rightarrow> waiter list" where
  "granted s op = filter (\<lambda>w. w_seq w \<in> ready s) (parked s op)"

definition op_inv :: "gov_sys \<Rightarrow> string \<Rightarrow> bool" where
  "op_inv s op \<longleftrightarrow>
     waiting (gov s) op = filter (\<lambda>w. w_seq w \<notin> ready s) (parked s op) \<and>
     sorted_wrt (<) (map w_seq (parked s op)) \<and>
     (\<forall>w \<in> set (parked s op). w_seq w \<le> gov_seq (gov s)) \<and>
     (case caps (gov s) op of
        None \<Rightarrow> parked s op = []
      | Some c \<Rightarrow>
          0 < c \<and> inUse (gov s) op \<le> c \<and>
          inUse (gov s) op = int (held s op) + int (length (granted s op)) \<and>
          (waiting (gov s) op \<noteq> [] \<longrightarrow> inUse (gov s) op = c))"

definition gov_inv :: "gov_sys \<Rightarrow> bool" where
  "gov_inv s \<longleftrightarrow> (\<forall>op. op_inv s op) \<and> (\<forall>q \<in> ready s. q \<le> gov_seq (gov s)) \<and>
     (\<forall>op1 op2 w1 w2. w1 \<in> set (parked s op1) \<longrightarrow> w2 \<in> set (parked s op2) \<longrightarrow>
        w_seq w1 = w_seq w2 \<longrightarrow> op1 = op2)"

lemma op_inv_frame:
  assumes "op_inv s op"
    and "waiting (gov t) op = waiting (gov s) op" and "parked t op = parked s op"
    and "caps (gov t) = caps (gov s)" and "inUse (gov t) op = inUse (gov s) op"
    and "held t op = held s op" and "gov_seq (gov s) \<le> gov_seq (gov t)"
    and "\<And>w. w \<in> set (parked s op) \<Longrightarrow> w_seq w \<in> ready t \<longleftrightarrow> w_seq w \<in> ready s"
  shows "op_inv t op"
proof -
  have "filter (\<lambda>w. w_seq w \<notin> ready t) (parked s op) = filter (\<lambda>w. w_seq w \<notin> ready s) (parked s op)"
    and "filter (\<lambda>w. w_seq w \<in> ready t) (parked s op) = filter (\<lambda>w. w_seq w \<in> ready s) (parked s op)"
    using assms(8) by (auto intro: filter_cong)
  with assms(1-7) show ?thesis
    by (fastforce simp: op_inv_def granted_def split: option.splits)
qed

lemma caps_SetCapacity: "caps (SetCapacity g op c) = (caps g)(op := (if c \<le> 0 then None else Some c))"
  by (simp add: SetCapacity_def)

definition idle_gov :: "governor \<Rightarrow> bool" where
  "idle_gov g \<longleftrightarrow> (\<forall>op. waiting g op = [] \<and> inUse g op = 0) \<and> (\<forall>op c. caps g op = Some c \<longrightarrow> 0 < c)"

lemma idle_SetCapacity: "idle_gov g \<Longrightarrow> idle_gov (SetCapacity g op c)"
  by (auto simp: idle_gov_def SetCapacity_def)

lemma idle_configured: "idle_gov (configured name cfg)"
proof -
  have "idle_gov g \<Longrightarrow> idle_gov (foldl (\<lambda>g (op, c). SetCapacity g op c) g cfg)" for g
    by (induction cfg arbitrary: g) (auto simp: idle_SetCapacity split: prod.splits)
  moreover have "idle_gov (New_Governor name)"
    by (simp add: idle_gov_def New_Governor_def)
  ultimately show ?thesis by (simp add: configured_def)
qed

lemma gov_inv_start: "gov_inv (start_sys name cfg)"
  using idle_configured [of name cfg]
  by (auto simp: gov_inv_def op_inv_def start_sys_def granted_def idle_gov_def less_imp_le split: option.splits)

text \<open>What the critical sections change, for a class with capacity \<open>c\<close>.\<close>

lemma Acquire_unbounded: "caps g op = None \<Longrightarrow> Acquire g op p sess = (Leased, g)"
  by (simp add: Acquire_def Capacity_def)

lemma Acquire_Leased_bounded:
  assumes "Acquire g op p sess = (Leased, g')" and "caps g op = Some c" and "0 < c"
  shows "inUse g op < c \<and> inUse g' = (inUse g)(op := inUse g op + 1) \<and> waiting g' = waiting g \<and>
    caps g' = caps g \<and> gov_seq g' = gov_seq g"
  using assms by (auto simp: Acquire_def Capacity_def Let_def markServedLocked_def split: if_splits)

lemma Acquire_Parked:
  assumes "Acquire g op p sess = (Parked w, g')"
  shows "(\<exists>c. caps g op = Some c \<and> 0 < c \<and> c \<le> inUse g op) \<and> inUse g' = inUse g \<and> caps g' = caps g \<and>
    w_seq w = gov_seq g + 1 \<and> gov_seq g' = gov_seq g + 1 \<and>
    waiting g' = (waiting g)(op := waiting g op @ [w])"
  using assms
  by (auto simp: Acquire_def Capacity_def Let_def split: if_splits option.splits)

lemma cancelWaiter_frame:
  assumes "cancelWaiter g op w err = (found, g')"
  shows "inUse g' = inUse g \<and> caps g' = caps g \<and> gov_seq g' = gov_seq g \<and>
    (\<forall>op'. op' \<noteq> op \<longrightarrow> waiting g' op' = waiting g op')"
  using assms by (auto simp: cancelWaiter_def Let_def split: option.splits)

lemma cancelWaiter_queue:
  assumes "cancelWaiter g op w err = (found, g')" and "distinct (map w_seq (waiting g op))"
  shows "found = (w_seq w \<in> w_seq ` set (waiting g op))"
    and "waiting g' op = filter (\<lambda>x. w_seq x \<noteq> w_seq w) (waiting g op)"
proof -
  have "found = (w_seq w \<in> w_seq ` set (waiting g op)) \<and>
    waiting g' op = filter (\<lambda>x. w_seq x \<noteq> w_seq w) (waiting g op)"
  proof (cases "IndexByte (map w_seq (waiting g op)) (w_seq w)")
    case None
    then have "w_seq w \<notin> w_seq ` set (waiting g op)"
      by (simp add: IndexByte_None_iff)
    moreover from this have "filter (\<lambda>x. w_seq x \<noteq> w_seq w) (waiting g op) = waiting g op"
      by (metis (mono_tags, lifting) filter_id_conv imageI)
    ultimately show ?thesis
      using assms(1) None by (auto simp: cancelWaiter_def Let_def)
  next
    case (Some i)
    then have i: "i < length (waiting g op)" "w_seq (waiting g op ! i) = w_seq w"
      using IndexByte_Some [OF Some] by auto
    then have "w_seq w \<in> w_seq ` set (waiting g op)"
      by (metis imageI nth_mem)
    moreover have "remove_at i (waiting g op) = filter (\<lambda>x. w_seq x \<noteq> w_seq w) (waiting g op)"
      using remove_at_filter [OF i(1) assms(2)] i(2) by simp
    ultimately show ?thesis
      using assms(1) Some by (auto simp: cancelWaiter_def Let_def)
  qed
  then show "found = (w_seq w \<in> w_seq ` set (waiting g op))"
    and "waiting g' op = filter (\<lambda>x. w_seq x \<noteq> w_seq w) (waiting g op)" by auto
qed

lemma release_frame:
  assumes "release g op = (r, g')"
  shows "caps g' = caps g \<and> gov_seq g' = gov_seq g \<and>
    (\<forall>op'. op' \<noteq> op \<longrightarrow> waiting g' op' = waiting g op' \<and> inUse g' op' = inUse g op')"
  using assms
  by (auto simp: release_def Let_def markServedLocked_def split: option.splits if_splits)

lemma release_empty:
  assumes "release g op = (r, g')" and "caps g op = Some c" and "waiting g op = []" and "0 < inUse g op"
  shows "r = None \<and> waiting g' op = [] \<and> inUse g' op = inUse g op - 1"
  using assms by (auto simp: release_def Let_def split: if_splits)

lemma release_grants:
  assumes "release g op = (r, g')" and "caps g op = Some c" and "waiting g op \<noteq> []"
    and "distinct (map w_seq (waiting g op))"
  obtains w where "r = Some w" and "w \<in> set (waiting g op)" and "inUse g' op = inUse g op"
    and "waiting g' op = filter (\<lambda>x. w_seq x \<noteq> w_seq w) (waiting g op)"
    and "\<And>x. x \<in> set (waiting g op) \<Longrightarrow> x \<noteq> w \<Longrightarrow> betterWaiter w x (served g op)"
proof -
  let ?q = "waiting g op" and ?b = "bestIndex (waiting g op) (served g op) 1 0"
  have b: "?b < length ?q"
    using bestIndex_from_start(1) assms(3,4) by blast
  have "r = Some (?q ! ?b)" and "inUse g' op = inUse g op"
    and "waiting g' op = remove_at ?b ?q"
    using assms(1-3) by (auto simp: release_def Let_def markServedLocked_def)
  moreover have "remove_at ?b ?q = filter (\<lambda>x. w_seq x \<noteq> w_seq (?q ! ?b)) ?q"
    by (rule remove_at_filter [OF b assms(4)])
  moreover have "betterWaiter (?q ! ?b) x (served g op)" if "x \<in> set ?q" "x \<noteq> ?q ! ?b" for x
    using bestIndex_from_start(2) [OF assms(4,3)] that by (metis in_set_conv_nth)
  ultimately show ?thesis
    using that b nth_mem by metis
qed


text \<open>Invariant facts in the form the step proofs use.\<close>

lemma op_invD:
  assumes "op_inv s op"
  shows "waiting (gov s) op = filter (\<lambda>w. w_seq w \<notin> ready s) (parked s op)"
    and "sorted_wrt (<) (map w_seq (parked s op))"
    and "distinct (map w_seq (parked s op))"
    and "distinct (map w_seq (waiting (gov s) op))"
    and "\<And>w. w \<in> set (parked s op) \<Longrightarrow> w_seq w \<le> gov_seq (gov s)"
    and "\<And>w. w \<in> set (parked s op) \<Longrightarrow> \<exists>c. caps (gov s) op = Some c"
proof -
  show "distinct (map w_seq (parked s op))"
    using assms strict_sorted_iff by (auto simp: op_inv_def)
  then show "distinct (map w_seq (waiting (gov s) op))"
    using assms by (auto simp: op_inv_def distinct_map_filter)
qed (use assms in \<open>auto simp: op_inv_def split: option.splits\<close>)

lemma op_inv_bounded:
  assumes "op_inv s op" and "caps (gov s) op = Some c"
  shows "0 < c" and "inUse (gov s) op \<le> c"
    and "inUse (gov s) op = int (held s op) + int (length (granted s op))"
    and "waiting (gov s) op \<noteq> [] \<Longrightarrow> inUse (gov s) op = c"
  using assms by (auto simp: op_inv_def)

lemma gov_invD:
  assumes "gov_inv s"
  shows "op_inv s op" and "q \<in> ready s \<Longrightarrow> q \<le> gov_seq (gov s)"
    and "w1 \<in> set (parked s op1) \<Longrightarrow> w2 \<in> set (parked s op2) \<Longrightarrow> w_seq w1 = w_seq w2 \<Longrightarrow> op1 = op2"
  using assms by (auto simp: gov_inv_def)

lemma length_filter_split:
  assumes "distinct (map f xs)" and "w \<in> set xs" and "P w"
  shows "length (filter P xs) = Suc (length (filter P (filter (\<lambda>x. f x \<noteq> f w) xs)))"
  using assms
proof (induction xs)
  case Nil
  then show ?case by simp
next
  case (Cons a xs)
  show ?case
  proof (cases "a = w")
    case True
    with Cons.prems have "filter (\<lambda>x. f x \<noteq> f w) xs = xs"
      by (auto simp: filter_id_conv image_iff)
    with True Cons.prems show ?thesis by simp
  next
    case False
    with Cons.prems have "f a \<noteq> f w" "w \<in> set xs" by (auto simp: image_iff)
    with Cons show ?thesis by simp
  qed
qed

text \<open>A step touches one class; the others keep their invariant.\<close>

lemma gov_inv_change:
  assumes inv: "gov_inv s" and op: "op_inv t op"
    and fr: "\<And>o'. o' \<noteq> op \<Longrightarrow> waiting (gov t) o' = waiting (gov s) o' \<and> parked t o' = parked s o' \<and>
        inUse (gov t) o' = inUse (gov s) o' \<and> held t o' = held s o'"
    and caps: "caps (gov t) = caps (gov s)" and seq: "gov_seq (gov s) \<le> gov_seq (gov t)"
    and ready: "ready s \<subseteq> ready t" "ready t \<subseteq> ready s \<union> w_seq ` set (parked s op)"
    and new: "\<And>w. w \<in> set (parked t op) \<Longrightarrow> w \<in> set (parked s op) \<or> gov_seq (gov s) < w_seq w"
  shows "gov_inv t"
proof -
  have other: "op_inv t o'" if "o' \<noteq> op" for o'
  proof (rule op_inv_frame [OF gov_invD(1) [OF inv, of o']])
    fix w assume "w \<in> set (parked s o')"
    then show "w_seq w \<in> ready t \<longleftrightarrow> w_seq w \<in> ready s"
      using ready that gov_invD(3) [OF inv] by blast
  qed (use fr [OF that] caps seq in auto)
  have bound: "q \<le> gov_seq (gov t)" if "q \<in> ready t" for q
    using that ready(2) seq gov_invD(2) [OF inv] op_invD(5) [OF gov_invD(1) [OF inv, of op]]
    by fastforce
  have old: "w_seq w \<le> gov_seq (gov s)" if "w \<in> set (parked t o')" "o' \<noteq> op" for w o'
    using that fr op_invD(5) [OF gov_invD(1) [OF inv, of o']] by auto
  have "op1 = op2" if "w1 \<in> set (parked t op1)" "w2 \<in> set (parked t op2)" "w_seq w1 = w_seq w2"
    for op1 op2 w1 w2
    using that new old fr gov_invD(3) [OF inv]
    by (metis not_le)
  with other op bound show ?thesis
    unfolding gov_inv_def by metis
qed

lemma gov_inv_lease:
  assumes inv: "gov_inv s" and a: "Acquire (gov s) op p sess = (Leased, g)"
  shows "gov_inv (take_lease (s\<lparr>gov := g\<rparr>) op)"
proof (rule gov_inv_change [OF inv, where op = op])
  note o = gov_invD(1) [OF inv, of op]
  show "op_inv (take_lease (s\<lparr>gov := g\<rparr>) op) op"
  proof (cases "caps (gov s) op")
    case None
    with a have "g = gov s" by (simp add: Acquire_unbounded)
    with o None show ?thesis by (simp add: op_inv_def take_lease_def granted_def)
  next
    case (Some c)
    with o Acquire_Leased_bounded [OF a Some] show ?thesis
      by (auto simp: op_inv_def take_lease_def granted_def)
  qed
  have "caps g = caps (gov s) \<and> gov_seq g = gov_seq (gov s) \<and> waiting g = waiting (gov s) \<and>
      (\<forall>o'. o' \<noteq> op \<longrightarrow> inUse g o' = inUse (gov s) o')"
    using a by (auto simp: Acquire_def Let_def markServedLocked_def split: if_splits)
  then show "caps (gov (take_lease (s\<lparr>gov := g\<rparr>) op)) = caps (gov s)"
    and "gov_seq (gov s) \<le> gov_seq (gov (take_lease (s\<lparr>gov := g\<rparr>) op))"
    and "\<And>o'. o' \<noteq> op \<Longrightarrow> waiting (gov (take_lease (s\<lparr>gov := g\<rparr>) op)) o' = waiting (gov s) o' \<and>
        parked (take_lease (s\<lparr>gov := g\<rparr>) op) o' = parked s o' \<and>
        inUse (gov (take_lease (s\<lparr>gov := g\<rparr>) op)) o' = inUse (gov s) o' \<and>
        held (take_lease (s\<lparr>gov := g\<rparr>) op) o' = held s o'"
    by (auto simp: take_lease_def)
qed (auto simp: take_lease_def)

lemma gov_inv_park:
  assumes inv: "gov_inv s" and a: "Acquire (gov s) op p sess = (Parked w, g)"
  shows "gov_inv (s\<lparr>gov := g, parked := (parked s)(op := parked s op @ [w])\<rparr>)" (is "gov_inv ?t")
proof (rule gov_inv_change [OF inv, where op = op])
  note o = gov_invD(1) [OF inv, of op] and eff = Acquire_Parked [OF a]
  then obtain c where c: "caps (gov s) op = Some c" "0 < c" "c \<le> inUse (gov s) op" by auto
  have fresh: "w_seq w \<notin> ready s"
    using gov_invD(2) [OF inv, of "w_seq w"] eff by force
  have "sorted_wrt (<) (map w_seq (parked s op @ [w]))"
    using op_invD(2) [OF o] op_invD(5) [OF o] eff by (auto simp: sorted_wrt_append)
  moreover have "waiting g op = filter (\<lambda>x. w_seq x \<notin> ready s) (parked s op @ [w])"
    using op_invD(1) [OF o] fresh eff by simp
  moreover have "\<forall>x \<in> set (parked s op @ [w]). w_seq x \<le> gov_seq g"
    using op_invD(5) [OF o] eff by fastforce
  ultimately show "op_inv ?t op"
    using op_inv_bounded [OF o c(1)] c fresh eff by (auto simp: op_inv_def granted_def)
qed (use Acquire_Parked [OF a] in auto)

lemma take_lease_simps [simp]:
  "gov (take_lease s op) = gov s" "parked (take_lease s op) = parked s"
  "ready (take_lease s op) = ready s" "held (take_lease s op) = (held s)(op := Suc (held s op))"
  by (simp_all add: take_lease_def)

lemma leave_simps [simp]:
  "gov (leave s op w) = gov s" "held (leave s op w) = held s" "ready (leave s op w) = ready s"
  "parked (leave s op w) = (parked s)(op := filter (\<lambda>x. w_seq x \<noteq> w_seq w) (parked s op))"
  by (simp_all add: leave_def)

text \<open>
  A granted caller that leaves carries its unit away as a lease: the grants shrink by one and
  the leases grow by one, whatever else the step did to the queue.
\<close>

lemma op_inv_leave:
  assumes o: "op_inv s op" and w: "w \<in> set (parked s op)"
    and g: "caps g = caps (gov s)" "inUse g = inUse (gov s)" "gov_seq g = gov_seq (gov s)"
      "waiting g op = filter (\<lambda>x. w_seq x \<noteq> w_seq w) (waiting (gov s) op)"
  shows "w_seq w \<notin> ready s \<Longrightarrow> op_inv (leave (s\<lparr>gov := g\<rparr>) op w) op"
    and "w_seq w \<in> ready s \<Longrightarrow> op_inv (take_lease (leave (s\<lparr>gov := g\<rparr>) op w) op) op"
proof -
  let ?ps = "filter (\<lambda>x. w_seq x \<noteq> w_seq w) (parked s op)"
  obtain c where c: "caps (gov s) op = Some c"
    using op_invD(6) [OF o w] by auto
  note b = op_inv_bounded [OF o c]
  have q: "waiting g op = filter (\<lambda>x. w_seq x \<notin> ready s) ?ps"
    using g(4) op_invD(1) [OF o] by (simp add: conj_commute)
  have sorted: "sorted_wrt (<) (map w_seq ?ps)"
    using op_invD(2) [OF o] by (simp add: sorted_wrt_filter sorted_wrt_map)
  have bound: "\<forall>x \<in> set ?ps. w_seq x \<le> gov_seq g"
    using op_invD(5) [OF o] g(3) by auto
  have busy: "waiting g op \<noteq> [] \<Longrightarrow> inUse g op = c"
    using b(4) g(2,4) by force
  note base = c b q sorted bound busy g(1,2,3)
  show "op_inv (leave (s\<lparr>gov := g\<rparr>) op w) op" if "w_seq w \<notin> ready s"
  proof -
    have "filter (\<lambda>x. w_seq x \<in> ready s) ?ps = granted s op"
      using that by (auto simp: granted_def intro!: filter_cong)
    with base show ?thesis by (simp add: op_inv_def granted_def)
  qed
  show "op_inv (take_lease (leave (s\<lparr>gov := g\<rparr>) op w) op) op" if "w_seq w \<in> ready s"
  proof -
    have "length (granted s op) = Suc (length (filter (\<lambda>x. w_seq x \<in> ready s) ?ps))"
      unfolding granted_def
      using length_filter_split [OF op_invD(3) [OF o] w, of "\<lambda>x. w_seq x \<in> ready s"] that by blast
    with base show ?thesis by (simp add: op_inv_def granted_def)
  qed
qed

lemma gov_inv_cancel:
  assumes inv: "gov_inv s" and w: "w \<in> set (parked s op)"
    and c: "cancelWaiter (gov s) op w err = (found, g)"
  shows "found = (w_seq w \<notin> ready s)"
    and "found \<Longrightarrow> gov_inv (leave (s\<lparr>gov := g\<rparr>) op w)"
    and "\<not> found \<Longrightarrow> gov_inv (take_lease (leave (s\<lparr>gov := g\<rparr>) op w) op)"
proof -
  note o = gov_invD(1) [OF inv, of op]
  note q = cancelWaiter_queue [OF c op_invD(4) [OF o]] and fr = cancelWaiter_frame [OF c]
  have "inj_on w_seq (set (parked s op))"
    using op_invD(3) [OF o] by (simp add: distinct_map)
  then show f: "found = (w_seq w \<notin> ready s)"
    using q(1) w op_invD(1) [OF o] by (auto dest: inj_onD)
  note at_op = op_inv_leave [OF o w _ _ _ q(2)]
  show "gov_inv (leave (s\<lparr>gov := g\<rparr>) op w)" if "found"
    by (rule gov_inv_change [OF inv at_op(1)]) (use f fr that in auto)
  show "gov_inv (take_lease (leave (s\<lparr>gov := g\<rparr>) op w) op)" if "\<not> found"
    by (rule gov_inv_change [OF inv at_op(2)]) (use f fr that in auto)
qed

lemma gov_inv_wake:
  assumes inv: "gov_inv s" and w: "w \<in> set (parked s op)" and r: "w_seq w \<in> ready s"
  shows "gov_inv (take_lease (leave s op w) op)"
proof -
  note o = gov_invD(1) [OF inv, of op]
  have "waiting (gov s) op = filter (\<lambda>x. w_seq x \<noteq> w_seq w) (waiting (gov s) op)"
    using op_invD(1) [OF o] r by (auto intro!: filter_cong)
  then have "op_inv (take_lease (leave (s\<lparr>gov := gov s\<rparr>) op w) op) op"
    using op_inv_leave(2) [OF o w _ _ _ _ r, of "gov s"] by simp
  then have "op_inv (take_lease (leave s op w) op) op" by simp
  then show ?thesis
    by (rule gov_inv_change [OF inv]) auto
qed

lemma op_inv_release:
  assumes o: "op_inv s op" and h: "0 < held s op" and r: "release (gov s) op = (r, g)"
  shows "op_inv (s\<lparr>gov := g, held := (held s)(op := held s op - 1),
       ready := ready s \<union> w_seq ` set_option r\<rparr>) op" (is "op_inv ?t op")
    and "w_seq ` set_option r \<subseteq> w_seq ` set (parked s op)"
proof -
  note fr = release_frame [OF r]
  have "op_inv ?t op \<and> w_seq ` set_option r \<subseteq> w_seq ` set (parked s op)"
  proof (cases "caps (gov s) op")
    case None
    with r have "r = None" "g = gov s" by (auto simp: release_def)
    with o None show ?thesis by (simp add: op_inv_def granted_def)
  next
    case (Some c)
    note b = op_inv_bounded [OF o Some]
    show ?thesis
    proof (cases "waiting (gov s) op = []")
      case True
      from b(3) h have "0 < inUse (gov s) op" by simp
      from release_empty [OF r Some True this] show ?thesis
        using o Some fr b h True by (auto simp: op_inv_def granted_def)
    next
      case False
      obtain w where w: "r = Some w" "w \<in> set (waiting (gov s) op)" "inUse g op = inUse (gov s) op"
        "waiting g op = filter (\<lambda>x. w_seq x \<noteq> w_seq w) (waiting (gov s) op)"
        using release_grants [OF r Some False op_invD(4) [OF o]] by metis
      from w(2) have wp: "w \<in> set (parked s op)" "w_seq w \<notin> ready s"
        using op_invD(1) [OF o] by auto
      let ?R = "insert (w_seq w) (ready s)"
      have "length (filter (\<lambda>x. w_seq x \<in> ?R) (parked s op)) =
          Suc (length (filter (\<lambda>x. w_seq x \<in> ?R) (filter (\<lambda>x. w_seq x \<noteq> w_seq w) (parked s op))))"
        by (rule length_filter_split [OF op_invD(3) [OF o] wp(1)]) simp
      also have "filter (\<lambda>x. w_seq x \<in> ?R) (filter (\<lambda>x. w_seq x \<noteq> w_seq w) (parked s op)) = granted s op"
        using wp(2) by (auto simp: granted_def intro!: filter_cong)
      finally have len: "length (granted ?t op) = Suc (length (granted s op))"
        by (simp add: granted_def w(1))
      have "waiting g op = filter (\<lambda>x. w_seq x \<notin> ?R) (parked s op)"
        using w(4) op_invD(1) [OF o] by (auto intro!: filter_cong)
      then show ?thesis
        using o Some fr b h w len False wp by (auto simp: op_inv_def)
    qed
  qed
  then show "op_inv ?t op" and "w_seq ` set_option r \<subseteq> w_seq ` set (parked s op)" by auto
qed

lemma gov_inv_release:
  assumes inv: "gov_inv s" and h: "0 < held s op" and r: "release (gov s) op = (r, g)"
  shows "gov_inv (s\<lparr>gov := g, held := (held s)(op := held s op - 1),
       ready := ready s \<union> w_seq ` set_option r\<rparr>)"
  using release_frame [OF r] op_inv_release(2) [OF gov_invD(1) [OF inv] h r]
  by (intro gov_inv_change [OF inv op_inv_release(1) [OF gov_invD(1) [OF inv] h r]]) auto

lemma gov_step_inv: "gov_step s t \<Longrightarrow> gov_inv s \<Longrightarrow> gov_inv t"
proof (induction rule: gov_step.induct)
  case (cancel_default w s op err g)
  then show ?case using gov_inv_cancel(1) by blast
next
  case (give_back s op r g)
  then show ?case by (intro gov_inv_release)
qed (auto intro: gov_inv_lease gov_inv_park gov_inv_wake gov_inv_cancel)

lemma gov_step_caps: "gov_step s t \<Longrightarrow> caps (gov t) = caps (gov s)"
  by (induction rule: gov_step.induct)
    (auto simp: Acquire_def Let_def markServedLocked_def dest: cancelWaiter_frame release_frame
      split: if_splits)

lemma gov_reachable_inv: "gov_reachable name cfg s \<Longrightarrow> gov_inv s"
  by (induction rule: gov_reachable.induct) (auto intro: gov_inv_start gov_step_inv)

subsection \<open>Properties of the governor\<close>

text \<open>
  A run the examples below use: one unit, taken by a prewarm; then an audit and a playback
  caller park behind it.
\<close>

definition demo_leased :: gov_sys where
  "demo_leased = take_lease ((start_sys ''acct'' [(''op'', 1)])
     \<lparr>gov := snd (Acquire (configured ''acct'' [(''op'', 1)]) ''op'' PriorityPrewarm ''s1'')\<rparr>) ''op''"

definition demo_audit :: waiter where
  "demo_audit = \<lparr>w_priority = PriorityAudit, w_session = ''s1'', w_seq = 1\<rparr>"

definition demo_play :: waiter where
  "demo_play = \<lparr>w_priority = PriorityPlayback, w_session = ''s2'', w_seq = 2\<rparr>"

definition demo_one :: gov_sys where
  "demo_one = demo_leased\<lparr>gov := snd (Acquire (gov demo_leased) ''op'' PriorityAudit ''s1''),
     parked := (parked demo_leased)(''op'' := parked demo_leased ''op'' @ [demo_audit])\<rparr>"

definition demo_two :: gov_sys where
  "demo_two = demo_one\<lparr>gov := snd (Acquire (gov demo_one) ''op'' PriorityPlayback ''s2''),
     parked := (parked demo_one)(''op'' := parked demo_one ''op'' @ [demo_play])\<rparr>"

lemmas demo_defs = demo_leased_def demo_audit_def demo_play_def demo_one_def demo_two_def
  start_sys_def configured_def New_Governor_def SetCapacity_def Acquire_def Capacity_def
  markServedLocked_def take_lease_def Let_def

lemma demo_leased_reachable: "gov_reachable ''acct'' [(''op'', 1)] demo_leased"
  unfolding demo_leased_def
  by (rule gov_next [OF gov_start], rule lease [where p = PriorityPrewarm and sess = "''s1''"])
    (simp add: demo_defs)

lemma demo_one_reachable: "gov_reachable ''acct'' [(''op'', 1)] demo_one"
  unfolding demo_one_def
  by (rule gov_next [OF demo_leased_reachable], rule park [where p = PriorityAudit and sess = "''s1''"])
    (simp add: demo_defs)

lemma demo_two_reachable: "gov_reachable ''acct'' [(''op'', 1)] demo_two"
  unfolding demo_two_def
  by (rule gov_next [OF demo_one_reachable], rule park [where p = PriorityPlayback and sess = "''s2''"])
    (simp add: demo_defs)

lemma demo_two_release: "fst (release (gov demo_two) ''op'') = Some demo_play"
  by (simp add: demo_defs release_def bestIndex.simps betterWaiter_def priority_defs)

text \<open>C1: in every state that concurrent callers can reach from a governor configured at
  startup, the leases outstanding for a bounded class never exceed its capacity, and the
  \<open>inUse\<close> counter is exactly the leases held plus the grants a woken caller has not yet picked
  up.\<close>

theorem governor_never_oversubscribed:
  assumes "gov_reachable name cfg s" and "0 < Capacity (gov s) op"
  shows "int (held s op) \<le> Capacity (gov s) op \<and>
    InUse (gov s) op = int (held s op) + int (length (granted s op)) \<and>
    InUse (gov s) op \<le> Capacity (gov s) op"
proof -
  have o: "op_inv s op"
    using gov_reachable_inv [OF assms(1)] by (rule gov_invD)
  obtain c where "caps (gov s) op = Some c"
    using assms(2) by (auto simp: Capacity_def split: option.splits)
  with op_inv_bounded [OF o this] show ?thesis
    by (simp add: Capacity_def InUse_def)
qed

text \<open>C2: the governor is work-conserving and leaks nothing: while any caller of a class is
  queued, every unit of the class is in use, and when no caller holds or awaits a lease of a
  bounded class, none of its units is in use.\<close>

theorem governor_work_conserving:
  assumes "gov_reachable name cfg s"
  shows "(0 < Waiting (gov s) op \<longrightarrow> InUse (gov s) op = Capacity (gov s) op) \<and>
    (0 < Capacity (gov s) op \<and> held s op = 0 \<and> parked s op = [] \<longrightarrow>
       InUse (gov s) op = 0 \<and> Waiting (gov s) op = 0)"
proof -
  have o: "op_inv s op"
    using gov_reachable_inv [OF assms(1)] by (rule gov_invD)
  then show ?thesis
    by (auto simp: Waiting_def InUse_def Capacity_def op_inv_def granted_def split: option.splits)
qed

text \<open>C3: a release hands its unit to the best waiter of the class: no queued waiter has a
  higher priority, none of the same priority belongs to a session served less often, and among
  those still tied it arrived first. It leaves the queue, the others keep their order, and its
  session is charged one grant.\<close>

theorem release_admits_best_waiter:
  assumes "gov_reachable name cfg s" and "release (gov s) op = (Some w, g)"
  shows "w \<in> set (waiting (gov s) op) \<and>
    (\<forall>x \<in> set (waiting (gov s) op). x \<noteq> w \<longrightarrow>
       w_priority w < w_priority x \<or>
       w_priority w = w_priority x \<and> served (gov s) op (w_session w) < served (gov s) op (w_session x) \<or>
       w_priority w = w_priority x \<and> served (gov s) op (w_session w) = served (gov s) op (w_session x) \<and> w_seq w < w_seq x) \<and>
    waiting g op = filter (\<lambda>x. x \<noteq> w) (waiting (gov s) op) \<and>
    served g op (w_session w) = served (gov s) op (w_session w) + 1"
proof -
  have o: "op_inv s op"
    using gov_reachable_inv [OF assms(1)] by (rule gov_invD)
  obtain c where c: "caps (gov s) op = Some c" "waiting (gov s) op \<noteq> []"
    using assms(2) by (auto simp: release_def Let_def split: option.splits if_splits)
  obtain w' where w': "Some w = Some w'" "w' \<in> set (waiting (gov s) op)"
    "waiting g op = filter (\<lambda>x. w_seq x \<noteq> w_seq w') (waiting (gov s) op)"
    "\<And>x. x \<in> set (waiting (gov s) op) \<Longrightarrow> x \<noteq> w' \<Longrightarrow> betterWaiter w' x (served (gov s) op)"
    using release_grants [OF assms(2) c op_invD(4) [OF o]] by metis
  have "inj_on w_seq (set (waiting (gov s) op))"
    using op_invD(4) [OF o] by (simp add: distinct_map)
  then have "filter (\<lambda>x. w_seq x \<noteq> w_seq w') (waiting (gov s) op) = filter (\<lambda>x. x \<noteq> w') (waiting (gov s) op)"
    using w'(2) by (auto intro!: filter_cong dest: inj_onD)
  moreover have "served g op (w_session w) = served (gov s) op (w_session w) + 1"
    using assms(2) c by (auto simp: release_def Let_def markServedLocked_def)
  moreover note w'(4) [THEN betterWaiter_iff [THEN iffD1]]
  ultimately show ?thesis using w'(1-3) by auto
qed

text \<open>C4: a caller whose context ends while it waits gives its place or its unit back:
  \<open>cancelWaiter\<close> finds it in the queue exactly when its \<open>ready\<close> channel is still open, so the
  \<open>default\<close> branch of the final \<open>select\<close>, which would lose a granted unit, is never taken.\<close>

theorem cancelled_grant_is_never_lost:
  assumes "gov_reachable name cfg s" and "w \<in> set (parked s op)"
    and "cancelWaiter (gov s) op w err = (found, g)"
  shows "(found \<longleftrightarrow> w_seq w \<notin> ready s) \<and> w_seq w \<notin> w_seq ` set (waiting g op)"
proof -
  note inv = gov_reachable_inv [OF assms(1)]
  have "waiting g op = filter (\<lambda>x. w_seq x \<noteq> w_seq w) (waiting (gov s) op)"
    using cancelWaiter_queue(2) [OF assms(3) op_invD(4) [OF gov_invD(1) [OF inv]]] .
  then show ?thesis
    using gov_inv_cancel(1) [OF inv assms(2,3)] by auto
qed

theorem governor_never_oversubscribed_witness:
  "0 < Capacity (gov demo_two) ''op'' \<and> int (held demo_two ''op'') \<le> Capacity (gov demo_two) ''op'' \<and>
   held demo_two ''op'' = 1"
  using governor_never_oversubscribed [OF demo_two_reachable, of "''op''"]
  by (simp add: demo_defs)

theorem governor_work_conserving_witness:
  "Waiting (gov demo_two) ''op'' = 2 \<and> InUse (gov demo_two) ''op'' = Capacity (gov demo_two) ''op''"
  using governor_work_conserving [OF demo_two_reachable, of "''op''"]
  by (simp add: demo_defs Waiting_def)

theorem release_admits_best_waiter_witness:
  "\<exists>g. release (gov demo_two) ''op'' = (Some demo_play, g) \<and> demo_audit \<in> set (waiting (gov demo_two) ''op'') \<and>
     w_priority demo_play < w_priority demo_audit \<and> waiting g ''op'' = [demo_audit]"
proof -
  obtain g where g: "release (gov demo_two) ''op'' = (Some demo_play, g)"
    using demo_two_release by (metis prod.collapse)
  have q: "waiting (gov demo_two) ''op'' = [demo_audit, demo_play]"
    by (simp add: demo_defs)
  have ne: "demo_audit \<noteq> demo_play"
    by (simp add: demo_defs)
  show ?thesis
    using release_admits_best_waiter [OF demo_two_reachable g] g ne unfolding q
    by (auto simp: demo_audit_def demo_play_def priority_defs)
qed

theorem cancelled_grant_is_never_lost_witness:
  "\<exists>found g. cancelWaiter (gov demo_one) ''op'' demo_audit DeadlineExceeded = (found, g) \<and> found \<and>
     waiting g ''op'' = []"
proof -
  obtain found g where c: "cancelWaiter (gov demo_one) ''op'' demo_audit DeadlineExceeded = (found, g)"
    by (metis prod.collapse)
  have p: "demo_audit \<in> set (parked demo_one ''op'')" and "ready demo_one = {}"
    by (simp_all add: demo_defs)
  with cancelled_grant_is_never_lost [OF demo_one_reachable p c] c show ?thesis
    by (auto simp: demo_defs cancelWaiter_def remove_at_def)
qed

subsection \<open>The learned connection ceiling\<close>

text \<open>
  \<open>ConnCeiling\<close>, with the value of its injectable clock as an argument of each operation that
  reads it.
\<close>

record ConnCeiling =
  cc_configured :: int
  cc_current :: int
  cc_minCeiling :: int
  cc_growEvery :: duration
  cc_lastChange :: instant

definition NewConnCeiling :: "int \<Rightarrow> ConnCeiling" where
  "NewConnCeiling bound =
     (let bound = (if bound < 1 then 1 else bound) in
      \<lparr>cc_configured = bound, cc_current = bound, cc_minCeiling = 1,
       cc_growEvery = 30 * Second, cc_lastChange = zeroTime\<rparr>)"

definition SetGrowInterval :: "ConnCeiling \<Rightarrow> duration \<Rightarrow> ConnCeiling" where
  "SetGrowInterval c d = (if d > 0 then c\<lparr>cc_growEvery := d\<rparr> else c)"

definition Configured :: "ConnCeiling \<Rightarrow> int" where
  "Configured c = cc_configured c"

definition maybeGrowLocked :: "instant \<Rightarrow> ConnCeiling \<Rightarrow> ConnCeiling" where
  "maybeGrowLocked now c =
     (if cc_current c \<ge> cc_configured c then c
      else if cc_lastChange c = zeroTime then c\<lparr>cc_lastChange := now\<rparr>
      else if time_sub now (cc_lastChange c) \<ge> cc_growEvery c
        then c\<lparr>cc_current := cc_current c + 1, cc_lastChange := now\<rparr>
      else c)"

definition Current :: "instant \<Rightarrow> ConnCeiling \<Rightarrow> int \<times> ConnCeiling" where
  "Current now c = (let c' = maybeGrowLocked now c in (cc_current c', c'))"

definition OnRejected :: "instant \<Rightarrow> ConnCeiling \<Rightarrow> ConnCeiling" where
  "OnRejected now c =
     (let half = go_div (cc_current c) 2;
          next_ceiling = (if half < cc_minCeiling c then cc_minCeiling c else half)
      in c\<lparr>cc_current := next_ceiling, cc_lastChange := now\<rparr>)"

datatype ceiling_event = Probe instant | Rejected instant

fun ceiling_step :: "ConnCeiling \<Rightarrow> ceiling_event \<Rightarrow> ConnCeiling" where
  "ceiling_step c (Probe now) = snd (Current now c)"
| "ceiling_step c (Rejected now) = OnRejected now c"

definition ceiling_inv :: "ConnCeiling \<Rightarrow> bool" where
  "ceiling_inv c \<longleftrightarrow> 1 \<le> cc_current c \<and> cc_current c \<le> cc_configured c \<and> cc_minCeiling c = 1"

lemma OnRejected_half: "ceiling_inv c \<Longrightarrow> cc_current (OnRejected now c) = max 1 (cc_current c div 2)"
  by (auto simp: OnRejected_def ceiling_inv_def Let_def go_div_nonneg)

lemma ceiling_step_inv: "ceiling_inv c \<Longrightarrow> ceiling_inv (ceiling_step c e)"
  by (cases e)
    (auto simp: ceiling_inv_def Current_def maybeGrowLocked_def OnRejected_def go_div_nonneg Let_def)

lemma ceiling_run_inv: "ceiling_inv c \<Longrightarrow> ceiling_inv (foldl ceiling_step c es)"
  by (induction es arbitrary: c) (auto intro: ceiling_step_inv)

lemma ceiling_step_configured: "cc_configured (ceiling_step c e) = cc_configured c"
  by (cases e) (auto simp: Current_def maybeGrowLocked_def OnRejected_def Let_def)

lemma ceiling_run_configured: "cc_configured (foldl ceiling_step c es) = cc_configured c"
  by (induction es arbitrary: c) (auto simp: ceiling_step_configured)

lemma ceiling_inv_New: "ceiling_inv (NewConnCeiling n)"
  by (simp add: ceiling_inv_def NewConnCeiling_def Let_def)

text \<open>Whatever the order of probes and rejections, the effective ceiling stays between one
  connection and the operator's bound, a rejection halves it (never below one), and a probe
  raises it by at most one.\<close>

theorem ceiling_stays_in_bounds:
  "let c = foldl ceiling_step (NewConnCeiling n) es in
     1 \<le> cc_current c \<and> cc_current c \<le> max 1 n \<and>
     cc_current (OnRejected now c) = max 1 (cc_current c div 2) \<and>
     fst (Current now c) \<in> {cc_current c, cc_current c + 1}"
proof -
  let ?c = "foldl ceiling_step (NewConnCeiling n) es"
  have inv: "ceiling_inv ?c"
    by (rule ceiling_run_inv [OF ceiling_inv_New])
  moreover have "cc_configured ?c = max 1 n"
    by (simp add: ceiling_run_configured) (simp add: NewConnCeiling_def Let_def)
  moreover have "fst (Current now ?c) \<in> {cc_current ?c, cc_current ?c + 1}"
    by (auto simp: Current_def maybeGrowLocked_def Let_def)
  ultimately show ?thesis
    using OnRejected_half [OF inv] by (simp add: ceiling_inv_def Let_def)
qed

text \<open>The probes of a caller that asks once per grow interval.\<close>

fun spaced_probes :: "nat \<Rightarrow> duration \<Rightarrow> instant \<Rightarrow> ceiling_event list" where
  "spaced_probes 0 d t = []"
| "spaced_probes (Suc k) d t = Probe (t + d) # spaced_probes k d (t + d)"

lemma spaced_probes_grow:
  assumes "0 < cc_growEvery c" and "cc_growEvery c \<le> MaxInt64" and "zeroTime < cc_lastChange c"
    and "int k \<le> cc_configured c - cc_current c"
  shows "cc_current (foldl ceiling_step c (spaced_probes k (cc_growEvery c) (cc_lastChange c))) =
    cc_current c + int k"
  using assms
proof (induction k arbitrary: c)
  case 0
  then show ?case by simp
next
  case (Suc k)
  let ?c = "c\<lparr>cc_current := cc_current c + 1, cc_lastChange := cc_lastChange c + cc_growEvery c\<rparr>"
  have "maybeGrowLocked (cc_lastChange c + cc_growEvery c) c = ?c"
    using Suc.prems time_sub_ge [of "cc_growEvery c" "cc_lastChange c + cc_growEvery c" "cc_lastChange c"]
    by (auto simp: maybeGrowLocked_def)
  then have step: "ceiling_step c (Probe (cc_lastChange c + cc_growEvery c)) = ?c"
    by (simp add: Current_def Let_def)
  have "cc_current (foldl ceiling_step ?c (spaced_probes k (cc_growEvery ?c) (cc_lastChange ?c))) =
      cc_current ?c + int k"
    using Suc.prems by (intro Suc.IH) auto
  with step show ?case by simp
qed

text \<open>C5: after a rejection the ceiling recovers: with no further rejection, one probe per grow
  interval restores the configured bound after as many intervals as connections were given
  up.\<close>

theorem ceiling_recovers:
  assumes "zeroTime < t" and "c = OnRejected t (foldl ceiling_step (NewConnCeiling n) es)"
  shows "cc_current (foldl ceiling_step c
      (spaced_probes (nat (max 1 n - cc_current c)) (30 * Second) t)) = max 1 n"
proof -
  let ?c0 = "foldl ceiling_step (NewConnCeiling n) es"
  have grow: "cc_growEvery (ceiling_step d e) = cc_growEvery d" for d e
    by (cases e) (auto simp: Current_def maybeGrowLocked_def OnRejected_def Let_def)
  have "cc_growEvery (foldl ceiling_step d es) = cc_growEvery d" for d
    by (induction es arbitrary: d) (auto simp: grow)
  then have g: "cc_growEvery c = 30 * Second"
    by (simp add: assms(2) OnRejected_def Let_def) (simp add: NewConnCeiling_def Let_def)
  have l: "cc_lastChange c = t"
    by (simp add: assms(2) OnRejected_def Let_def)
  have inv: "ceiling_inv c"
    using ceiling_step_inv [of ?c0 "Rejected t"] ceiling_run_inv [OF ceiling_inv_New] assms(2)
    by (simp del: foldl.simps)
  have "cc_configured c = max 1 n"
    by (simp add: assms(2) OnRejected_def Let_def ceiling_run_configured)
      (simp add: NewConnCeiling_def Let_def)
  with inv have k: "int (nat (max 1 n - cc_current c)) \<le> cc_configured c - cc_current c"
    and le: "cc_current c \<le> max 1 n"
    by (auto simp: ceiling_inv_def)
  have "0 < cc_growEvery c" and "cc_growEvery c \<le> MaxInt64" and "zeroTime < cc_lastChange c"
    using g l assms(1) by (auto simp: time_units MaxInt64_def)
  from spaced_probes_grow [OF this k] show ?thesis
    using le by (simp add: g l)
qed

theorem ceiling_recovers_witness:
  "cc_current (OnRejected 5 (NewConnCeiling 8)) = 4 \<and>
   cc_current (foldl ceiling_step (OnRejected 5 (NewConnCeiling 8)) (spaced_probes 4 (30 * Second) 5)) = 8"
proof -
  have z: "zeroTime < (5 :: instant)"
    by (simp add: zeroTime_def time_units)
  have c: "cc_current (OnRejected 5 (NewConnCeiling 8)) = 4"
    by (simp add: OnRejected_def NewConnCeiling_def go_div_def Let_def)
  show ?thesis
    using ceiling_recovers [OF z, of "OnRejected 5 (NewConnCeiling 8)" 8 "[]"] c by simp
qed

end
