(* ===== verification/GF16.thy ===== *)
theory GF16
  imports DH_Prelude
begin

unbundle bit_operations_syntax

section \<open>The field of PAR2: GF(2^16) by log tables\<close>

text \<open>
  Models the arithmetic half of \<open>internal/archive/gf16.go\<close>: the tables that \<open>gf16Init\<close> builds,
  \<open>gf16Mul\<close>, \<open>gf16Inv\<close>, \<open>gf16Pow\<close>, \<open>gcdU32\<close> and \<open>PAR2InputConstants\<close>. The tables are the
  result of the same loop, on \<open>uint16\<close> arrays with a \<open>uint32\<close> cursor. The theory shows that the
  table multiplication is the carry-less product modulo \<open>0x1100B\<close> and that it makes the
  16-bit words a field; the locale \<open>gf_field\<close> states what the solver relies on.
\<close>

type_synonym u8 = "8 word"
type_synonym u16 = "16 word"
type_synonym u32 = "32 word"

definition gf16Poly :: u32 where "gf16Poly = 0x1100B"
definition gf16Limit :: nat where "gf16Limit = 65535"

subsection \<open>The tables\<close>

definition gf16_next :: "u32 \<Rightarrow> u32" where
  "gf16_next x = (let y = push_bit 1 x in if y AND 0x10000 \<noteq> 0 then y XOR gf16Poly else y)"

fun gf16InitLoop :: "nat \<Rightarrow> nat \<Rightarrow> u32 \<Rightarrow> u16 list \<times> u16 list \<Rightarrow> u16 list \<times> u16 list" where
  "gf16InitLoop 0 i x (alog, lg) = (alog, lg)"
| "gf16InitLoop (Suc n) i x (alog, lg) =
     gf16InitLoop n (Suc i) (gf16_next x)
       (alog[i := ucast x], lg[unat (ucast x :: u16) := of_nat i])"

definition gf16Init :: "u16 list \<times> u16 list" where
  "gf16Init = gf16InitLoop gf16Limit 0 1 (replicate gf16Limit 0, replicate 65536 0)"

definition gf16ALog :: "u16 list" where "gf16ALog = fst gf16Init"
definition gf16Log :: "u16 list" where "gf16Log = snd gf16Init"

subsection \<open>Arithmetic\<close>

definition gf16Mul :: "u16 \<Rightarrow> u16 \<Rightarrow> u16" where
  "gf16Mul a b =
     (if a = 0 \<or> b = 0 then 0
      else
        (let s = unat (gf16Log ! unat a) + unat (gf16Log ! unat b);
             s = (if s \<ge> gf16Limit then s - gf16Limit else s)
         in gf16ALog ! s))"

definition gf16Inv :: "u16 \<Rightarrow> u16 option" where
  "gf16Inv a =
     (if a = 0 then None
      else
        (let l = unat (gf16Log ! unat a)
         in if l = 0 then Some 1 else Some (gf16ALog ! (gf16Limit - l))))"

definition gf16Pow :: "u16 \<Rightarrow> u32 \<Rightarrow> u16" where
  "gf16Pow a e =
     (if e = 0 then 1
      else if a = 0 then 0
      else gf16ALog ! ((unat (gf16Log ! unat a) * unat e) mod gf16Limit))"

fun gcdU32 :: "nat \<Rightarrow> nat \<Rightarrow> nat" where
  "gcdU32 a b = (if b \<noteq> 0 then gcdU32 b (a mod b) else a)"

declare gcdU32.simps [simp del]

definition MaxPAR2TotalBlocks :: int where "MaxPAR2TotalBlocks = 32768"

definition par2ConstValues :: "u16 list" where
  "par2ConstValues = map (\<lambda>l. gf16ALog ! l) (filter (\<lambda>l. gcdU32 gf16Limit l = 1) [1..<gf16Limit])"

definition PAR2InputConstants :: "int \<Rightarrow> u16 list option" where
  "PAR2InputConstants count =
     (if count \<le> 0 \<or> count > MaxPAR2TotalBlocks then None
      else if nat count > length par2ConstValues then None
      else Some (take (nat count) par2ConstValues))"

subsection \<open>Reference: carry-less multiplication modulo the generator polynomial\<close>

text \<open>
  \<open>xt\<close> multiplies a residue by the polynomial \<open>x\<close>; \<open>clmul\<close> is the schoolbook shift-and-add
  product. Neither uses a table.
\<close>

definition xt :: "u16 \<Rightarrow> u16" where
  "xt a = push_bit 1 a XOR (if bit a 15 then 0x100B else 0)"

fun clmul :: "nat \<Rightarrow> u16 \<Rightarrow> u16 \<Rightarrow> u16" where
  "clmul 0 a b = 0"
| "clmul (Suc n) a b = (if odd b then a else 0) XOR clmul n (xt a) (drop_bit 1 b)"

lemma xt_xor: "xt (a XOR b) = xt a XOR xt b"
  unfolding xt_def by (rule bit_word_eqI) (auto simp: bit_simps)

lemma xt_0 [simp]: "xt 0 = 0"
  by (simp add: xt_def)

lemma xt_pow_xor: "(xt ^^ n) (a XOR b) = (xt ^^ n) a XOR (xt ^^ n) b"
  by (induction n arbitrary: a b) (simp_all add: xt_xor funpow_swap1)

lemma xt_pow_0 [simp]: "(xt ^^ n) 0 = 0"
  by (induction n) simp_all

lemma bit_shl: "bit (push_bit m a) n \<longleftrightarrow> m \<le> n \<and> n < 16 \<and> bit a (n - m)" for a :: u16
  by (auto simp only: bit_push_bit_iff possible_bit_word) auto

lemma bit_xt: "bit (xt a) n \<longleftrightarrow> (0 < n \<and> n < 16 \<and> bit a (n - 1)) \<noteq> (bit a 15 \<and> bit (0x100B :: u16) n)"
  unfolding xt_def by (cases "bit a 15") (auto simp only: bit_xor_iff bit_shl bit_0_eq, auto)

lemma xt_eq_0D: "xt a = 0 \<Longrightarrow> a = 0"
proof -
  assume z: "xt a = 0"
  from z have n15: "\<not> bit a 15"
    using bit_xt [of a 0] by simp
  with z have "\<not> bit a n" if "n < 15" for n
    using bit_xt [of a "Suc n"] that by simp
  with n15 have "\<not> bit a n" if "n < 16" for n
    using that less_Suc_eq [of n 15] by auto
  then show "a = 0"
    by (intro bit_word_eqI) simp
qed

lemma xor_eq_0_iff: "a XOR b = 0 \<longleftrightarrow> a = b" for a b :: "'a::len word"
  by (metis bit.xor_left_self bit.xor_self xor.right_neutral)

lemma xt_inj: "xt a = xt b \<Longrightarrow> a = b"
proof -
  assume "xt a = xt b"
  then have "xt (a XOR b) = 0" by (simp add: xt_xor)
  then have "a XOR b = 0" by (rule xt_eq_0D)
  then show "a = b" by (simp only: xor_eq_0_iff)
qed

lemma xt_pow_inj: "(xt ^^ n) a = (xt ^^ n) b \<Longrightarrow> a = b"
  by (induction n) (auto dest: xt_inj)

text \<open>Multiplying by \<open>x ^ k\<close> is applying \<open>xt\<close> \<open>k\<close> times.\<close>

lemma xt_one_pow: "n < 16 \<Longrightarrow> (xt ^^ n) 1 = push_bit n 1"
proof (induction n)
  case 0
  then show ?case by simp
next
  case (Suc n)
  have "\<not> bit (push_bit n 1 :: u16) 15"
    using Suc.prems by (auto simp only: bit_shl bit_1_iff)
  then have "xt (push_bit n 1) = push_bit 1 (push_bit n 1 :: u16)"
    unfolding xt_def by (simp only: if_False xor.right_neutral)
  with Suc show ?case by (simp only: funpow.simps comp_apply push_bit_push_bit) simp
qed

lemma drop_bit_split: "b = (if odd b then 1 else 0) XOR push_bit 1 (drop_bit 1 b)" for b :: u16
proof (rule bit_word_eqI)
  fix n
  assume n: "n < LENGTH(16)"
  have hi: "bit (push_bit 1 (drop_bit 1 b)) n \<longleftrightarrow> 0 < n \<and> bit b n"
    using n by (cases n) (auto simp only: bit_shl bit_drop_bit_eq comp_apply, auto)
  have lo: "bit (if odd b then 1 else 0 :: u16) n \<longleftrightarrow> n = 0 \<and> odd b"
    by (simp add: bit_1_iff)
  show "bit b n = bit ((if odd b then 1 else 0) XOR push_bit 1 (drop_bit 1 b)) n"
    unfolding bit_xor_iff hi lo by (cases n) (auto simp: bit_0)
qed

lemma clmul_power: "drop_bit n b = 0 \<Longrightarrow> clmul n ((xt ^^ k) 1) b = (xt ^^ k) b"
proof (induction n arbitrary: k b)
  case 0
  then show ?case by simp
next
  case (Suc n)
  have d: "drop_bit n (drop_bit 1 b) = 0"
    using Suc.prems by (simp only: drop_bit_drop_bit) simp
  have "\<not> bit (drop_bit 1 b) 15"
    by (auto simp only: bit_drop_bit_eq comp_apply) (use bit_imp_le_length in fastforce)
  then have s: "push_bit 1 (drop_bit 1 b) = xt (drop_bit 1 b)"
    unfolding xt_def by (simp only: if_False xor.right_neutral)
  have "clmul (Suc n) ((xt ^^ k) 1) b =
      (xt ^^ k) (if odd b then 1 else 0) XOR clmul n ((xt ^^ Suc k) 1) (drop_bit 1 b)"
    by (cases "odd b") simp_all
  also have "clmul n ((xt ^^ Suc k) 1) (drop_bit 1 b) = (xt ^^ Suc k) (drop_bit 1 b)"
    by (rule Suc.IH [OF d])
  also have "(xt ^^ Suc k) (drop_bit 1 b) = (xt ^^ k) (push_bit 1 (drop_bit 1 b))"
    by (simp only: s funpow_Suc_right comp_apply)
  finally show ?case
    using drop_bit_split [of b] by (metis xt_pow_xor)
qed

lemma clmul_power16: "clmul 16 ((xt ^^ k) 1) b = (xt ^^ k) b"
  by (rule clmul_power) (rule bit_word_eqI, auto simp: bit_simps)

subsection \<open>The order of the generator\<close>

text \<open>
  \<open>x\<close> has order 65535 modulo the polynomial. The powers are computed by repeated squaring with
  the carry-less product; 65535 = 3 * 5 * 17 * 257.
\<close>

definition al :: "nat \<Rightarrow> u16" where
  "al k = (xt ^^ k) 1"

lemma al_add: "al (m + n) = clmul 16 (al m) (al n)"
  by (simp add: al_def clmul_power16 funpow_add)

lemma clmul_al: "clmul 16 (al k) b = (xt ^^ k) b"
  by (simp add: al_def clmul_power16)

lemma al_0 [simp]: "al 0 = 1"
  by (simp add: al_def)

lemma clmul_16:
  "clmul 16 a b = clmul (Suc (Suc (Suc (Suc (Suc (Suc (Suc (Suc (Suc (Suc (Suc (Suc (Suc (Suc (Suc (Suc 0)))))))))))))))) a b"
  by (simp only: numeral_eq_Suc pred_numeral_simps BitM.simps)

lemma al_Suc: "al (Suc n) = xt (al n)"
  by (simp add: al_def)

definition clsq :: "u16 \<Rightarrow> u16" where
  "clsq a = clmul 16 a a"

lemma al_pow2: "al (2 ^ k * n) = (clsq ^^ k) (al n)"
proof (induction k)
  case 0
  then show ?case by simp
next
  case (Suc k)
  have "al (2 ^ Suc k * n) = al (2 ^ k * n + 2 ^ k * n)"
    by (simp add: mult_2 distrib_right)
  with Suc show ?case
    by (simp only: al_add clsq_def funpow.simps comp_apply)
qed

lemma al_Fermat: "al ((2 ^ k + 1) * n) = clmul 16 ((clsq ^^ k) (al n)) (al n)"
  by (simp only: distrib_right mult_1 al_add al_pow2)

lemma funpow_4: "(f ^^ 4) x = f (f (f (f x)))"
  by (simp add: numeral_eq_Suc)

lemma funpow_8: "(f ^^ 8) x = f (f (f (f (f (f (f (f x)))))))"
  by (simp add: numeral_eq_Suc)

lemmas al_eval = clsq_def clmul_16 xt_def funpow_4 funpow_8

lemma al_small: "al 3 = 8" "al 5 = 32" "al 15 = 0x8000"
  by (simp_all add: al_def xt_one_pow del: funpow.simps)

lemma al_51: "al 51 = 16830"
  using al_Fermat [of 4 3] by (simp add: al_small al_eval)

lemma al_85: "al 85 = 5433"
  using al_Fermat [of 4 5] by (simp add: al_small al_eval)

lemma al_255: "al 255 = 36242"
  using al_Fermat [of 4 15] by (simp add: al_small al_eval)

lemma al_3855: "al 3855 = 19832"
  using al_Fermat [of 8 15] by (simp add: al_small al_eval)

lemma al_13107: "al 13107 = 7400"
  using al_Fermat [of 8 51] by (simp add: al_51 al_eval)

lemma al_21845: "al 21845 = 350"
  using al_Fermat [of 8 85] by (simp add: al_85 al_eval)

lemma al_65535: "al 65535 = 1"
  using al_Fermat [of 8 255] by (simp add: al_255 al_eval)

lemma al_shift: "al d = 1 \<Longrightarrow> al (n + d) = al n"
  using funpow_add [of n d xt] by (simp add: al_def)

lemma al_mod: "al d = 1 \<Longrightarrow> al (n mod d) = al n"
proof -
  assume d: "al d = 1"
  have "al (n mod d + k * d) = al (n mod d)" for k
    by (induction k) (simp_all add: al_shift [OF d] add.left_commute [of d] add.assoc [symmetric] add.commute [of d])
  from this [of "n div d"] show ?thesis by simp
qed

lemma al_gcd: "al m = 1 \<Longrightarrow> al n = 1 \<Longrightarrow> al (gcd m n) = 1"
proof (induction m n rule: gcd_nat_induct)
  case (base m)
  then show ?case by simp
next
  case (step m n)
  then have "al (m mod n) = 1" by (simp add: al_mod)
  with step show ?case by (simp add: gcd_red_nat [of m n] gcd.commute)
qed

lemma al_dvd: "al d = 1 \<Longrightarrow> d dvd n \<Longrightarrow> al n = 1"
  using al_mod [of d n] by (metis al_0 mod_eq_0_iff_dvd)

lemma small_divisors:
  "h dvd 3 \<Longrightarrow> h = 1 \<or> h = (3 :: nat)" "h dvd 5 \<Longrightarrow> h = 1 \<or> h = (5 :: nat)"
  "h dvd 17 \<Longrightarrow> h = 1 \<or> h = (17 :: nat)" "h dvd 257 \<Longrightarrow> h = 1 \<or> h = (257 :: nat)"
proof -
  have all: "\<forall>h \<in> {2..<3 :: nat}. \<not> h dvd 3" "\<forall>h \<in> {2..<5 :: nat}. \<not> h dvd 5"
    "\<forall>h \<in> {2..<17 :: nat}. \<not> h dvd 17" "\<forall>h \<in> {2..<257 :: nat}. \<not> h dvd 257"
    by code_simp+
  have "h = 1 \<or> h = q" if "h dvd q" "\<forall>h \<in> {2..<q}. \<not> h dvd q" "0 < q" for q :: nat
  proof -
    from that have "h \<le> q" "h \<noteq> 0" by (auto dest: dvd_imp_le)
    moreover from that have "h \<notin> {2..<q}" by blast
    ultimately show ?thesis by auto
  qed
  then show "h dvd 3 \<Longrightarrow> h = 1 \<or> h = (3 :: nat)" "h dvd 5 \<Longrightarrow> h = 1 \<or> h = (5 :: nat)"
    "h dvd 17 \<Longrightarrow> h = 1 \<or> h = (17 :: nat)" "h dvd 257 \<Longrightarrow> h = 1 \<or> h = (257 :: nat)"
    using all by auto
qed

lemma proper_divisor_65535:
  assumes "g dvd 65535" and "g \<noteq> (65535 :: nat)"
  shows "g dvd 21845 \<or> g dvd 13107 \<or> g dvd 3855 \<or> g dvd 255"
proof -
  obtain k where k: "65535 = g * k" using assms(1) by (rule dvdE)
  have "k \<noteq> 1" using k assms(2) by auto
  have "\<not> coprime k 65535"
  proof
    assume "coprime k 65535"
    then have "coprime k k" using k by (metis coprime_mult_right_iff)
    with \<open>k \<noteq> 1\<close> show False by simp
  qed
  moreover have "(65535 :: nat) = 3 * (5 * (17 * 257))" by simp
  ultimately obtain q where q: "q \<in> {3, 5, 17, 257 :: nat}" "\<not> coprime k q"
    by (metis coprime_mult_right_iff insertCI)
  from q have "gcd k q = q"
    using small_divisors [of "gcd k q"] by (auto simp: coprime_iff_gcd_eq_1)
  then have "q dvd k" by (metis gcd_dvd1)
  then obtain m where "k = q * m" by auto
  with k have "65535 = q * (g * m)" by (simp add: ac_simps)
  with q(1) have "21845 = g * m \<or> 13107 = g * m \<or> 3855 = g * m \<or> 255 = g * m" by auto
  then show ?thesis by (metis dvd_triv_left)
qed

lemma al_order: "0 < d \<Longrightarrow> d < 65535 \<Longrightarrow> al d \<noteq> 1"
proof
  assume d: "0 < d" "d < 65535" "al d = 1"
  then have g: "al (gcd d 65535) = 1"
    by (simp add: al_gcd al_65535)
  have "gcd d 65535 \<le> d" using d by (intro gcd_le1_nat) simp
  with d have "gcd d 65535 \<noteq> 65535" by linarith
  from proper_divisor_65535 [OF gcd_dvd2 this]
  have "al 21845 = 1 \<or> al 13107 = 1 \<or> al 3855 = 1 \<or> al 255 = 1"
    using al_dvd [OF g] by blast
  then show False by (simp add: al_21845 al_13107 al_3855 al_255)
qed

lemma al_inj: "i < 65535 \<Longrightarrow> j < 65535 \<Longrightarrow> al i = al j \<Longrightarrow> i = j"
proof (induction i j rule: linorder_wlog)
  case (le i j)
  have "al j = (xt ^^ i) (al (j - i))"
    using le funpow_add [of i "j - i" xt] by (simp add: al_def)
  with le have "(xt ^^ i) 1 = (xt ^^ i) (al (j - i))" by (simp add: al_def)
  then have "al (j - i) = 1" using xt_pow_inj by metis
  moreover have "j - i < 65535" using le by linarith
  ultimately have "\<not> 0 < j - i" using al_order by blast
  with le show ?case by simp
qed auto

lemma al_nonzero: "al k \<noteq> 0"
  using xt_pow_inj [of k 1 0] by (auto simp: al_def)

lemma al_surj: "a \<noteq> 0 \<Longrightarrow> \<exists>k < 65535. a = al k"
proof -
  assume a: "a \<noteq> 0"
  have "inj_on al {..<65535}" by (auto intro: inj_onI al_inj)
  then have "card (al ` {..<65535}) = 65535" by (simp add: card_image)
  moreover have "card (UNIV - {0 :: u16}) = 65535"
    by (simp add: card_Diff_singleton card_word)
  moreover have "al ` {..<65535} \<subseteq> UNIV - {0}" using al_nonzero by auto
  ultimately have "al ` {..<65535} = UNIV - {0}" by (intro card_subset_eq) auto
  with a show ?thesis by auto
qed

subsection \<open>What the tables hold\<close>

lemma bit_u16: "bit (y :: u16) n \<Longrightarrow> n < 16"
  using bit_imp_le_length [of y n] by simp

lemma bit_gf16Poly: "bit gf16Poly n \<longleftrightarrow> n = 16 \<or> bit (0x100B :: u16) n"
proof -
  have e: "gf16Poly = ucast (0x100B :: u16) OR 2 ^ 16"
    by (simp add: gf16Poly_def)
  show ?thesis
    unfolding e bit_or_iff bit_ucast_iff bit_exp_iff possible_bit_word by (auto dest: bit_u16)
qed

lemma gf16_next_ucast: "gf16_next (ucast (y :: u16)) = ucast (xt y)"
proof -
  let ?x = "ucast y :: u32"
  have shl: "bit (push_bit 1 ?x) n \<longleftrightarrow> 0 < n \<and> n < 32 \<and> bit y (n - 1)" for n
    by (auto simp only: bit_push_bit_iff possible_bit_word bit_ucast_iff) auto
  have "(0x10000 :: u32) = 2 ^ 16" by simp
  then have top: "push_bit 1 ?x AND 0x10000 \<noteq> 0 \<longleftrightarrow> bit y 15"
    by (simp only: and_exp_eq_0_iff_not_bit shl not_not) simp
  show ?thesis
  proof (rule bit_word_eqI)
    fix n
    assume n: "n < LENGTH(32)"
    have "bit (gf16_next ?x) n \<longleftrightarrow> bit (push_bit 1 ?x) n \<noteq> (bit y 15 \<and> bit gf16Poly n)"
      unfolding gf16_next_def Let_def top by (cases "bit y 15") (auto simp only: bit_xor_iff if_True if_False)
    also have "\<dots> \<longleftrightarrow> n < 16 \<and> bit (xt y) n"
      unfolding shl bit_gf16Poly bit_xt using n bit_u16 [of y "n - 1"] bit_u16 [of "0x100B" n]
      by (cases "n = 16") auto
    finally show "bit (gf16_next ?x) n = bit (ucast (xt y) :: u32) n"
      using n bit_u16 [of "xt y" n] by (auto simp: bit_ucast_iff)
  qed
qed

lemma ucast_u16_u32: "ucast (ucast (y :: u16) :: u32) = y"
  by (rule bit_word_eqI) (simp add: bit_ucast_iff)

lemma gf16InitLoop_alog:
  assumes "length alog = gf16Limit" and "i + n \<le> gf16Limit"
  shows "fst (gf16InitLoop n i (ucast (al i)) (alog, lg)) ! k =
    (if i \<le> k \<and> k < i + n then al k else alog ! k)"
  using assms
proof (induction n arbitrary: i alog lg)
  case 0
  then show ?case by auto
next
  case (Suc n)
  have "fst (gf16InitLoop (Suc n) i (ucast (al i)) (alog, lg)) ! k =
      fst (gf16InitLoop n (Suc i) (ucast (al (Suc i)))
        (alog[i := al i], lg[unat (al i) := of_nat i])) ! k"
    by (simp add: gf16_next_ucast al_Suc ucast_u16_u32)
  also have "\<dots> = (if Suc i \<le> k \<and> k < Suc i + n then al k else alog[i := al i] ! k)"
    using Suc.prems by (intro Suc.IH) auto
  finally show ?case
    using Suc.prems by (auto simp: nth_list_update)
qed

lemma gf16InitLoop_log:
  assumes "length lg = 65536" and "i + n \<le> gf16Limit" and "k < i + n"
    and "k < i \<Longrightarrow> lg ! unat (al k) = of_nat k"
  shows "snd (gf16InitLoop n i (ucast (al i)) (alog, lg)) ! unat (al k) = of_nat k"
  using assms
proof (induction n arbitrary: i alog lg)
  case 0
  then show ?case by simp
next
  case (Suc n)
  have range: "unat (al j) < 65536" for j
    using unsigned_less [of "al j"] by simp
  have "snd (gf16InitLoop (Suc n) i (ucast (al i)) (alog, lg)) =
      snd (gf16InitLoop n (Suc i) (ucast (al (Suc i)))
        (alog[i := al i], lg[unat (al i) := of_nat i]))"
    by (simp add: gf16_next_ucast al_Suc ucast_u16_u32)
  moreover have "lg[unat (al i) := of_nat i] ! unat (al k) = of_nat k" if "k < Suc i"
  proof (cases "k = i")
    case True
    with Suc.prems(1) range show ?thesis by simp
  next
    case False
    with that Suc.prems(2) have "al k \<noteq> al i"
      using al_inj [of k i] by (auto simp: gf16Limit_def)
    then have "unat (al i) \<noteq> unat (al k)" by (metis word_unat_eq_iff)
    with False that Suc.prems(4) show ?thesis by simp
  qed
  ultimately show ?case
    using Suc.prems by (auto intro!: Suc.IH)
qed

lemma gf16ALog_nth: "k < 65535 \<Longrightarrow> gf16ALog ! k = al k"
  using gf16InitLoop_alog [of "replicate gf16Limit 0" 0 gf16Limit "replicate 65536 0" k]
  by (simp add: gf16ALog_def gf16Init_def gf16Limit_def)

lemma gf16Log_al: "k < 65535 \<Longrightarrow> unat (gf16Log ! unat (al k)) = k"
proof -
  assume k: "k < 65535"
  then have "gf16Log ! unat (al k) = of_nat k"
    using gf16InitLoop_log [of "replicate 65536 0" 0 gf16Limit k "replicate gf16Limit 0"]
    by (simp add: gf16Log_def gf16Init_def gf16Limit_def)
  with k show ?thesis by (simp add: unat_of_nat)
qed

subsection \<open>The table arithmetic is multiplication by powers of \<open>x\<close>\<close>

lemma gf16Mul_al: "k < 65535 \<Longrightarrow> gf16Mul (al k) b = (xt ^^ k) b"
proof (cases "b = 0")
  case True
  then show ?thesis by (simp add: gf16Mul_def)
next
  case False
  assume k: "k < 65535"
  obtain j where j: "j < 65535" "b = al j"
    using al_surj [OF False] by auto
  define s where "s = (if k + j \<ge> 65535 then k + j - 65535 else k + j)"
  have "s < 65535" using k j by (auto simp: s_def)
  have "gf16Mul (al k) b = gf16ALog ! s"
    using k j by (simp add: gf16Mul_def al_nonzero gf16Log_al s_def gf16Limit_def Let_def)
  also have "\<dots> = al s" using \<open>s < 65535\<close> by (rule gf16ALog_nth)
  also have "al s = al (k + j)"
    using al_shift [OF al_65535 [simplified], of "k + j - 65535"]
    by (cases "65535 \<le> k + j") (simp_all add: s_def)
  also have "al (k + j) = (xt ^^ k) b"
    by (simp add: al_def j(2) funpow_add)
  finally show ?thesis .
qed

subsection \<open>Field laws\<close>

lemma gf16Mul_clmul: "gf16Mul a b = clmul 16 a b"
proof (cases "a = 0")
  case True
  have "clmul n 0 b = 0" for n
    by (induction n arbitrary: b) simp_all
  with True show ?thesis by (simp add: gf16Mul_def)
next
  case False
  then obtain k where "k < 65535" "a = al k" using al_surj by blast
  then show ?thesis by (simp add: gf16Mul_al clmul_al)
qed

lemma gf16Mul_xor_right: "gf16Mul a (b XOR c) = gf16Mul a b XOR gf16Mul a c"
proof (cases "a = 0")
  case True
  then show ?thesis by (simp add: gf16Mul_def)
next
  case False
  then obtain k where "k < 65535" "a = al k" using al_surj by blast
  then show ?thesis by (simp add: gf16Mul_al xt_pow_xor)
qed

lemma gf16Mul_comm: "gf16Mul a b = gf16Mul b a"
  by (auto simp: gf16Mul_def add.commute)

lemma gf16Mul_assoc: "gf16Mul (gf16Mul a b) c = gf16Mul a (gf16Mul b c)"
proof (cases "a = 0 \<or> c = 0")
  case True
  then show ?thesis by (auto simp: gf16Mul_def)
next
  case False
  then obtain i j where i: "i < 65535" "a = al i" and j: "j < 65535" "c = al j"
    using al_surj [of a] al_surj [of c] by blast
  have "gf16Mul (gf16Mul a b) c = (xt ^^ j) ((xt ^^ i) b)"
    using i j gf16Mul_comm [of "gf16Mul a b" c] by (simp add: gf16Mul_al)
  also have "\<dots> = (xt ^^ i) ((xt ^^ j) b)"
    by (metis add.commute comp_apply funpow_add)
  finally show ?thesis
    using i j gf16Mul_comm [of b c] by (simp add: gf16Mul_al)
qed

lemma gf16Mul_0 [simp]: "gf16Mul 0 a = 0" "gf16Mul a 0 = 0"
  by (simp_all add: gf16Mul_def)

lemma gf16Mul_1 [simp]: "gf16Mul 1 a = a"
  using gf16Mul_al [of 0 a] by simp

lemma gf16Inv_correct: "gf16Inv a = Some b \<Longrightarrow> gf16Mul b a = 1"
proof -
  assume inv: "gf16Inv a = Some b"
  then have "a \<noteq> 0" by (auto simp: gf16Inv_def split: if_splits)
  then obtain k where k: "k < 65535" "a = al k" using al_surj by blast
  show ?thesis
  proof (cases "k = 0")
    case True
    then have "unat (gf16Log ! unat a) = 0" using gf16Log_al [of 0] k by simp
    with inv k True show ?thesis by (auto simp: gf16Inv_def Let_def split: if_splits)
  next
    case False
    with k have "65535 - k < 65535" by simp
    then have "b = al (65535 - k)"
      using inv k False by (auto simp: gf16Inv_def gf16Log_al Let_def gf16Limit_def gf16ALog_nth split: if_splits)
    then have "gf16Mul b a = (xt ^^ (65535 - k)) (al k)"
      using gf16Mul_al [OF \<open>65535 - k < 65535\<close>] k by simp
    also have "\<dots> = al 65535"
      using k funpow_add [of "65535 - k" k xt] by (simp add: al_def)
    finally show ?thesis using al_65535 by simp
  qed
qed

lemma gf16Inv_total: "a \<noteq> 0 \<Longrightarrow> \<exists>b. gf16Inv a = Some b"
  by (auto simp: gf16Inv_def Let_def)

lemma gf16Inv_unique: "gf16Mul b a = 1 \<Longrightarrow> gf16Inv a = Some b"
proof -
  assume b: "gf16Mul b a = 1"
  then have "a \<noteq> 0" by auto
  then obtain c where c: "gf16Inv a = Some c" using gf16Inv_total by blast
  have "gf16Mul b (gf16Mul a c) = b"
    using gf16Inv_correct [OF c] by (simp add: gf16Mul_comm [of a c] gf16Mul_comm [of b 1])
  moreover have "gf16Mul b (gf16Mul a c) = c"
    using b gf16Mul_assoc [of b a c] by simp
  ultimately show ?thesis using c by simp
qed

text \<open>C9: the table-driven product is the carry-less product modulo the PAR2 generator
  polynomial \<open>0x1100B\<close>, for all 2^32 pairs of operands, and with it and the exclusive or the
  16-bit words are a commutative ring in which every non-zero word has an inverse.\<close>

theorem gf16Mul_is_carryless_field_product:
  "gf16Mul a b = clmul 16 a b \<and> gf16Mul a b = gf16Mul b a \<and>
   gf16Mul (gf16Mul a b) c = gf16Mul a (gf16Mul b c) \<and> gf16Mul 1 a = a \<and>
   gf16Mul a (b XOR c) = gf16Mul a b XOR gf16Mul a c \<and>
   (\<exists>d. a = 0 \<or> gf16Mul d a = 1)"
  using gf16Mul_clmul gf16Mul_comm gf16Mul_assoc gf16Mul_xor_right gf16Inv_correct gf16Inv_total
  by (metis gf16Mul_1)

text \<open>C10: \<open>gf16Inv\<close> refuses exactly zero and otherwise returns the inverse, and \<open>gf16Pow\<close> is
  iterated multiplication for every 32-bit exponent, so the reduction of the discrete log
  modulo 65535 never changes a coefficient.\<close>

theorem gf16Inv_Pow_correct:
  "(gf16Inv a = None \<longleftrightarrow> a = 0) \<and>
   (\<forall>b. gf16Inv a = Some b \<longrightarrow> gf16Mul a b = 1) \<and>
   gf16Pow a e = ((gf16Mul a) ^^ unat e) 1"
proof -
  have "gf16Pow a e = ((gf16Mul a) ^^ unat e) 1"
  proof (cases "a = 0 \<or> e = 0")
    case True
    then show ?thesis
      by (cases "unat e") (auto simp: gf16Pow_def unat_eq_0)
  next
    case False
    then obtain k where k: "k < 65535" "a = al k" using al_surj by blast
    have "((gf16Mul a) ^^ n) 1 = al (k * n)" for n
    proof (induction n)
      case 0
      then show ?case by simp
    next
      case (Suc n)
      have "al (k * Suc n) = (xt ^^ k) (al (k * n))"
        using funpow_add [of k "k * n" xt] by (simp add: al_def)
      with Suc k show ?case by (simp add: gf16Mul_al)
    qed
    moreover have "al ((k * unat e) mod 65535) = al (k * unat e)"
      using al_mod [OF al_65535 [simplified]] by simp
    ultimately show ?thesis
      using False k by (simp add: gf16Pow_def gf16Log_al gf16ALog_nth gf16Limit_def)
  qed
  moreover have "gf16Inv a = None \<longleftrightarrow> a = 0"
    by (auto simp: gf16Inv_def Let_def)
  ultimately show ?thesis
    using gf16Inv_correct gf16Mul_comm by metis
qed

theorem gf16Inv_Pow_correct_witness:
  "\<exists>b. gf16Inv 2 = Some b \<and> gf16Mul 2 b = 1"
proof -
  have "gf16Inv 2 \<noteq> None" and "\<forall>b. gf16Inv 2 = Some b \<longrightarrow> gf16Mul 2 b = 1"
    using gf16Inv_Pow_correct [of 2 0] by simp_all
  then show ?thesis by auto
qed

subsection \<open>What the solver relies on\<close>

text \<open>
  The interface of the field to the Reed-Solomon solver: a product that is a commutative
  monoid, distributes over the exclusive or that adds, and has the inverses the elimination
  asks for. The sum of a family is the exclusive or over a finite set.
\<close>

interpretation xs: comm_monoid_set "(XOR) :: u16 \<Rightarrow> u16 \<Rightarrow> u16" 0
  by standard (simp_all add: ac_simps)

locale gf_field =
  fixes mul :: "u16 \<Rightarrow> u16 \<Rightarrow> u16" and inv :: "u16 \<Rightarrow> u16 option"
  assumes mul_assoc: "mul (mul a b) c = mul a (mul b c)"
    and mul_comm: "mul a b = mul b a"
    and mul_one: "mul 1 a = a"
    and mul_xor: "mul a (b XOR c) = mul a b XOR mul a c"
    and inv_mul: "inv a = Some b \<Longrightarrow> mul b a = 1"
    and inv_total: "a \<noteq> 0 \<Longrightarrow> inv a \<noteq> None"
begin

lemma mul_zero: "mul a 0 = 0" "mul 0 a = 0"
proof -
  show "mul a 0 = 0"
    using mul_xor [of a 0 0] by simp
  then show "mul 0 a = 0" by (simp add: mul_comm)
qed

lemma xor_mul: "mul (a XOR b) c = mul a c XOR mul b c"
  by (simp add: mul_comm [of _ c] mul_xor)

lemma mul_sum: "mul a (xs.F f A) = xs.F (\<lambda>i. mul a (f i)) A"
proof (cases "finite A")
  case True
  then show ?thesis by (induction A) (simp_all add: mul_xor mul_zero)
next
  case False
  then show ?thesis by (simp add: mul_zero)
qed

text \<open>
  \<open>comb\<close> is one entry of a row vector times a matrix, both given by their entries. Row
  operations on the vector act on the product in the same way.
\<close>

definition comb :: "nat \<Rightarrow> (nat \<Rightarrow> u16) \<Rightarrow> (nat \<Rightarrow> u16) \<Rightarrow> u16" where
  "comb n v m = xs.F (\<lambda>k. mul (v k) (m k)) {..<n}"

lemma comb_scale: "comb n (\<lambda>k. mul (v k) s) m = mul (comb n v m) s"
  by (simp add: comb_def mul_comm [of _ s] mul_sum mul_assoc)

lemma comb_addmul: "comb n (\<lambda>k. v k XOR mul (w k) f) m = comb n v m XOR mul (comb n w m) f"
proof -
  have "comb n (\<lambda>k. v k XOR mul (w k) f) m = comb n v m XOR comb n (\<lambda>k. mul (w k) f) m"
    by (simp add: comb_def xor_mul xs.distrib)
  then show ?thesis by (simp add: comb_scale)
qed

lemma comb_unit: "r < n \<Longrightarrow> comb n (\<lambda>k. if k = r then 1 else 0) m = m r"
  by (simp add: comb_def mul_zero mul_one if_distrib [where f = "\<lambda>x. mul x _"] xs.delta' cong: if_cong)

lemma comb_cong: "(\<And>k. k < n \<Longrightarrow> v k = w k) \<Longrightarrow> (\<And>k. k < n \<Longrightarrow> m k = m' k) \<Longrightarrow> comb n v m = comb n w m'"
  by (auto simp: comb_def intro!: xs.cong)

lemma sum_mul: "mul (xs.F f A) y = xs.F (\<lambda>i. mul (f i) y) A"
  by (simp add: mul_comm [of _ y] mul_sum)

text \<open>A left inverse recovers a vector from its image.\<close>

lemma comb_solve:
  assumes "\<And>j. j < n \<Longrightarrow> comb n v (\<lambda>k. m k j) = (if j = c then 1 else 0)" and "c < n"
  shows "comb n v (\<lambda>k. comb n (m k) x) = x c"
proof -
  have "comb n v (\<lambda>k. comb n (m k) x) = xs.F (\<lambda>k. xs.F (\<lambda>j. mul (v k) (mul (m k j) (x j))) {..<n}) {..<n}"
    by (simp add: comb_def mul_sum)
  also have "\<dots> = xs.F (\<lambda>j. xs.F (\<lambda>k. mul (v k) (mul (m k j) (x j))) {..<n}) {..<n}"
    by (rule xs.swap)
  also have "\<dots> = xs.F (\<lambda>j. mul (comb n v (\<lambda>k. m k j)) (x j)) {..<n}"
    by (simp add: comb_def sum_mul mul_assoc)
  also have "\<dots> = comb n (\<lambda>j. if j = c then 1 else 0) x"
    using assms(1) unfolding comb_def by (intro xs.cong) auto
  also have "\<dots> = x c" by (rule comb_unit [OF assms(2)])
  finally show ?thesis .
qed

end

interpretation gf: gf_field gf16Mul gf16Inv
proof
  show "gf16Inv a \<noteq> None" if "a \<noteq> 0" for a
    using gf16Inv_total [OF that] by auto
qed (simp_all add: gf16Mul_assoc gf16Mul_xor_right gf16Inv_correct, rule gf16Mul_comm)

end
