(* ===== verification/PAR2Solver.thy ===== *)
theory PAR2Solver
  imports GF16
begin

unbundle bit_operations_syntax

section \<open>The PAR2 Reed-Solomon solver\<close>

text \<open>
  Models the solver half of \<open>internal/archive/gf16.go\<close>: \<open>mulXorInto\<close>, \<open>PAR2Solver\<close> with
  \<open>NewPAR2Solver\<close>, \<open>AddRecoverySlice\<close>, \<open>AddKnownBlock\<close>, \<open>Solve\<close>, and \<open>invertGF16Matrix\<close>. A
  \<open>[]byte\<close> is a list of 8-bit words, the sets kept as \<open>map[T]struct\{\}\<close> are sets, and every
  error return is a constructor of \<open>par2_error\<close>. The scratch buffer \<open>pad\<close> is overwritten
  before each use and has no counterpart.

  Main result: fed with every surviving block and one recovery slice per unknown, a solve that
  succeeds returns the original bytes of the unknown blocks.
\<close>

type_synonym bytes = "u8 list"
type_synonym matrix = "u16 list list"

datatype par2_error =
    UnusableSliceSize int | UnusableBlockCount int | NoUnknownBlocks
  | CountMismatch nat nat | TooManyUnknown nat | MoreUnknownThanInput | WorkingSetTooLarge
  | UnknownOutOfRange int | DuplicateUnknown int | DuplicateExponent u32 | NoConstants int
  | AlreadySolved | ExponentNotDeclared u32 | WrongSliceLength nat int | ExponentSuppliedTwice u32
  | KnownOutOfRange int | DeclaredUnknown int | BlockSuppliedTwice int | BlockTooLong int nat
  | MissingSlices nat nat | MissingKnown nat int
  | EmptyMatrix | MatrixNotSquare | LinearlyDependent | SingularMatrix

subsection \<open>Scaled addition of slices\<close>

text \<open>Little-endian 16-bit words of a byte sequence.\<close>

definition le16 :: "u8 \<Rightarrow> u8 \<Rightarrow> u16" where
  "le16 lo hi = ucast lo OR push_bit 8 (ucast hi)"

fun mulXorWords :: "bytes \<Rightarrow> bytes \<Rightarrow> nat \<Rightarrow> bytes" where
  "mulXorWords (d0 # d1 # ds) (s0 # s1 # ss) logFactor =
     (let word = le16 s0 s1 in
      if word = 0 then d0 # d1 # mulXorWords ds ss logFactor
      else
        (let s = unat (gf16Log ! unat word) + logFactor;
             s = (if s \<ge> gf16Limit then s - gf16Limit else s);
             product = gf16ALog ! s
         in (d0 XOR ucast product) # (d1 XOR ucast (drop_bit 8 product)) # mulXorWords ds ss logFactor))"
| "mulXorWords ds ss logFactor = ds"

definition mulXorInto :: "bytes \<Rightarrow> bytes \<Rightarrow> u16 \<Rightarrow> bytes" where
  "mulXorInto dst src factor =
     (if factor = 0 then dst
      else
        (let n = min (length dst) (length src);
             n = n - n mod 2
         in if factor = 1 then map2 (XOR) (take n dst) (take n src) @ drop n dst
            else mulXorWords dst src (unat (gf16Log ! unat factor))))"

subsection \<open>Matrix inversion\<close>

definition identity_matrix :: "nat \<Rightarrow> matrix" where
  "identity_matrix dim = map (\<lambda>r. (replicate dim 0)[r := 1]) [0..<dim]"

definition swap_rows :: "nat \<Rightarrow> nat \<Rightarrow> matrix \<Rightarrow> matrix" where
  "swap_rows i j m = m[i := m ! j, j := m ! i]"

definition scale_row :: "u16 list \<Rightarrow> u16 \<Rightarrow> u16 list" where
  "scale_row row scale = map (\<lambda>x. gf16Mul x scale) row"

definition addmul_row :: "u16 list \<Rightarrow> u16 list \<Rightarrow> u16 \<Rightarrow> u16 list" where
  "addmul_row row prow factor = map2 (\<lambda>x p. x XOR gf16Mul p factor) row prow"

text \<open>The inner loop over the rows: every row but the pivot's is cleared in the pivot column.\<close>

definition eliminate :: "nat \<Rightarrow> matrix \<Rightarrow> matrix \<Rightarrow> matrix \<times> matrix" where
  "eliminate col work invm =
     (let upd = (\<lambda>m. map (\<lambda>r.
        let factor = work ! r ! col in
        if r = col \<or> factor = 0 then m ! r else addmul_row (m ! r) (m ! col) factor) [0..<length m])
      in (upd work, upd invm))"

definition gauss_column :: "nat \<Rightarrow> nat \<Rightarrow> matrix \<times> matrix \<Rightarrow> (par2_error, matrix \<times> matrix) result" where
  "gauss_column dim col = (\<lambda>(work, invm).
     case find (\<lambda>r. work ! r ! col \<noteq> 0) [col..<dim] of
       None \<Rightarrow> Inl LinearlyDependent
     | Some pivot \<Rightarrow>
         (let work = (if pivot \<noteq> col then swap_rows pivot col work else work);
              invm = (if pivot \<noteq> col then swap_rows pivot col invm else invm)
          in case gf16Inv (work ! col ! col) of
               None \<Rightarrow> Inl SingularMatrix
             | Some scale \<Rightarrow>
                 Inr (eliminate col (work[col := scale_row (work ! col) scale])
                        (invm[col := scale_row (invm ! col) scale]))))"

fun gauss_columns :: "nat \<Rightarrow> nat list \<Rightarrow> matrix \<times> matrix \<Rightarrow> (par2_error, matrix \<times> matrix) result" where
  "gauss_columns dim [] wi = Inr wi"
| "gauss_columns dim (col # cols) wi =
     (case gauss_column dim col wi of
        Inl e \<Rightarrow> Inl e
      | Inr wi' \<Rightarrow> gauss_columns dim cols wi')"

definition invertGF16Matrix :: "matrix \<Rightarrow> (par2_error, matrix) result" where
  "invertGF16Matrix m =
     (let dim = length m in
      if dim = 0 then Inl EmptyMatrix
      else if \<not> list_all (\<lambda>row. length row = dim) m then Inl MatrixNotSquare
      else
        (case gauss_columns dim [0..<dim] (m, identity_matrix dim) of
           Inl e \<Rightarrow> Inl e
         | Inr (work, invm) \<Rightarrow> Inr invm))"

subsection \<open>The solver\<close>

record PAR2Solver =
  sliceSize :: int
  total :: int
  unknown :: "int list"
  exponents :: "u32 list"
  coeff :: matrix
  rhs :: "bytes list"
  unknownSet :: "int set"
  haveSlice :: "bool list"
  slicesSeen :: nat
  known :: "int set"
  solved :: bool

definition MaxPAR2SliceBytes :: int where "MaxPAR2SliceBytes = 67108864"
definition MaxPAR2UnknownBlocks :: nat where "MaxPAR2UnknownBlocks = 256"
definition maxPAR2SolverBytes :: int where "maxPAR2SolverBytes = 268435456"

fun checkUnknown :: "int \<Rightarrow> int list \<Rightarrow> int set \<Rightarrow> (par2_error, int set) result" where
  "checkUnknown tot [] seen = Inr seen"
| "checkUnknown tot (index # rest) seen =
     (if index < 0 \<or> index \<ge> tot then Inl (UnknownOutOfRange index)
      else if index \<in> seen then Inl (DuplicateUnknown index)
      else checkUnknown tot rest (insert index seen))"

fun checkExponents :: "u32 list \<Rightarrow> u32 set \<Rightarrow> (par2_error, unit) result" where
  "checkExponents [] seen = Inr ()"
| "checkExponents (e # rest) seen =
     (if e \<in> seen then Inl (DuplicateExponent e) else checkExponents rest (insert e seen))"

definition NewPAR2Solver :: "int \<Rightarrow> int \<Rightarrow> int list \<Rightarrow> u32 list \<Rightarrow> (par2_error, PAR2Solver) result" where
  "NewPAR2Solver sz tot unk exps =
     (if sz \<le> 0 \<or> go_mod sz 4 \<noteq> 0 \<or> sz > MaxPAR2SliceBytes then Inl (UnusableSliceSize sz)
      else if tot \<le> 0 \<or> tot > MaxPAR2TotalBlocks then Inl (UnusableBlockCount tot)
      else if unk = [] then Inl NoUnknownBlocks
      else if length unk \<noteq> length exps then Inl (CountMismatch (length unk) (length exps))
      else if length unk > MaxPAR2UnknownBlocks then Inl (TooManyUnknown (length unk))
      else if int (length unk) > tot then Inl MoreUnknownThanInput
      else if int (length unk) * sz > maxPAR2SolverBytes then Inl WorkingSetTooLarge
      else
        case checkUnknown tot unk {} of
          Inl e \<Rightarrow> Inl e
        | Inr uset \<Rightarrow>
            (case checkExponents exps {} of
               Inl e \<Rightarrow> Inl e
             | Inr _ \<Rightarrow>
                 (case PAR2InputConstants tot of
                    None \<Rightarrow> Inl (NoConstants tot)
                  | Some constants \<Rightarrow>
                      Inr \<lparr>sliceSize = sz, total = tot, unknown = unk, exponents = exps,
                           coeff = map (\<lambda>e. map (\<lambda>u. gf16Pow (constants ! nat u) e) unk) exps,
                           rhs = replicate (length unk) (replicate (nat sz) 0),
                           unknownSet = uset, haveSlice = replicate (length unk) False,
                           slicesSeen = 0, known = {}, solved = False\<rparr>)))"

definition AddRecoverySlice :: "PAR2Solver \<Rightarrow> u32 \<Rightarrow> bytes \<Rightarrow> (par2_error, PAR2Solver) result" where
  "AddRecoverySlice s exponent data =
     (if solved s then Inl AlreadySolved
      else case IndexByte (exponents s) exponent of
        None \<Rightarrow> Inl (ExponentNotDeclared exponent)
      | Some row \<Rightarrow>
          if int (length data) \<noteq> sliceSize s then Inl (WrongSliceLength (length data) (sliceSize s))
          else if haveSlice s ! row then Inl (ExponentSuppliedTwice exponent)
          else Inr (s\<lparr>rhs := (rhs s)[row := data], haveSlice := (haveSlice s)[row := True],
                      slicesSeen := slicesSeen s + 1\<rparr>))"

definition padBlock :: "int \<Rightarrow> bytes \<Rightarrow> bytes" where
  "padBlock sz data =
     (if int (length data) < sz then data @ replicate (nat sz - length data) 0 else data)"

definition AddKnownBlock :: "PAR2Solver \<Rightarrow> int \<Rightarrow> bytes \<Rightarrow> (par2_error, PAR2Solver) result" where
  "AddKnownBlock s index data =
     (if solved s then Inl AlreadySolved
      else if index < 0 \<or> index \<ge> total s then Inl (KnownOutOfRange index)
      else if index \<in> unknownSet s then Inl (DeclaredUnknown index)
      else if index \<in> known s then Inl (BlockSuppliedTwice index)
      else if int (length data) > sliceSize s then Inl (BlockTooLong index (length data))
      else case PAR2InputConstants (total s) of
        None \<Rightarrow> Inl (NoConstants (total s))
      | Some constants \<Rightarrow>
          Inr (s\<lparr>rhs := map2 (\<lambda>row e. mulXorInto row (padBlock (sliceSize s) data)
                                (gf16Pow (constants ! nat index) e)) (rhs s) (exponents s),
                 known := insert index (known s)\<rparr>))"

definition solveBlock :: "int \<Rightarrow> bytes list \<Rightarrow> u16 list \<Rightarrow> bytes" where
  "solveBlock sz rows factors =
     foldl (\<lambda>block r. mulXorInto block (rows ! r) (factors ! r)) (replicate (nat sz) 0) [0..<length rows]"

definition Solve :: "PAR2Solver \<Rightarrow> (par2_error, bytes list \<times> PAR2Solver) result" where
  "Solve s =
     (if solved s then Inl AlreadySolved
      else
        (let dim = length (unknown s) in
         if slicesSeen s \<noteq> dim then Inl (MissingSlices (slicesSeen s) dim)
         else case invertGF16Matrix (coeff s) of
           Inl e \<Rightarrow> Inl e
         | Inr invm \<Rightarrow>
             if int (card (known s)) \<noteq> total s - int dim
             then Inl (MissingKnown (card (known s)) (total s - int dim))
             else Inr (map (\<lambda>c. solveBlock (sliceSize s) (rhs s) (invm ! c)) [0..<dim],
                       s\<lparr>solved := True\<rparr>)))"

subsection \<open>Words of a slice\<close>

definition word_at :: "bytes \<Rightarrow> nat \<Rightarrow> u16" where
  "word_at b k = le16 (b ! (2 * k)) (b ! (2 * k + 1))"

lemma bit_le16: "bit (le16 lo hi) n \<longleftrightarrow> (n < 8 \<and> bit lo n) \<or> (8 \<le> n \<and> n < 16 \<and> bit hi (n - 8))"
proof -
  have "bit lo n \<Longrightarrow> n < 8" and "bit hi (n - 8) \<Longrightarrow> n - 8 < 8"
    using bit_imp_le_length [of lo n] bit_imp_le_length [of hi "n - 8"] by simp_all
  then show ?thesis
    unfolding le16_def bit_or_iff bit_shl bit_ucast_iff by auto
qed

lemma le16_xor: "le16 (a XOR c) (b XOR d) = le16 a b XOR le16 c d"
  by (rule bit_word_eqI) (auto simp only: bit_le16 bit_xor_iff)

lemma le16_split: "le16 (ucast p) (ucast (drop_bit 8 p)) = p"
proof (rule bit_word_eqI)
  fix n
  assume "n < LENGTH(16)"
  then show "bit (le16 (ucast p) (ucast (drop_bit 8 p))) n = bit p n"
    by (auto simp: bit_le16 bit_ucast_iff bit_drop_bit_eq)
qed

lemma le16_inject: "le16 a b = le16 c d \<Longrightarrow> a = c \<and> b = d"
proof -
  assume e: "le16 a b = le16 c d"
  have "bit a n = bit c n" if "n < 8" for n
    using arg_cong [OF e, of "\<lambda>w. bit w n"] that by (simp add: bit_le16)
  moreover have "bit b n = bit d n" if "n < 8" for n
    using arg_cong [OF e, of "\<lambda>w. bit w (n + 8)"] that by (simp add: bit_le16)
  ultimately show ?thesis by (auto intro!: bit_word_eqI)
qed

lemma length_mulXorWords [simp]: "length (mulXorWords dst src lf) = length dst"
  by (induction dst src lf rule: mulXorWords.induct) (simp_all add: Let_def)

lemma mulXorWords_word:
  assumes "factor \<noteq> 0" and "2 * k + 1 < length dst" and "2 * k + 1 < length src"
  shows "word_at (mulXorWords dst src (unat (gf16Log ! unat factor))) k =
    word_at dst k XOR gf16Mul factor (word_at src k)"
  using assms(2,3)
proof (induction dst src "unat (gf16Log ! unat factor)" arbitrary: k rule: mulXorWords.induct)
  case (1 d0 d1 ds s0 s1 ss)
  show ?case
  proof (cases k)
    case (Suc j)
    have "word_at (x # y # zs) (Suc j) = word_at zs j" for x y and zs :: bytes
      by (simp add: word_at_def)
    with "1.hyps" "1.prems" Suc show ?thesis by (simp add: Let_def)
  next
    case 0
    let ?w = "le16 s0 s1"
    have head: "word_at (x # y # zs) 0 = le16 x y" for x y and zs :: bytes
      by (simp add: word_at_def)
    have prod: "gf16ALog ! (let s = unat (gf16Log ! unat ?w) + unat (gf16Log ! unat factor)
        in if s \<ge> gf16Limit then s - gf16Limit else s) = gf16Mul factor ?w" if "?w \<noteq> 0"
      using that assms(1) by (simp add: gf16Mul_def Let_def add.commute)
    show ?thesis
    proof (cases "?w = 0")
      case True
      with 0 head show ?thesis by (simp add: Let_def)
    next
      case False
      let ?p = "gf16Mul factor ?w"
      have "mulXorWords (d0 # d1 # ds) (s0 # s1 # ss) (unat (gf16Log ! unat factor)) =
          (d0 XOR ucast ?p) # (d1 XOR ucast (drop_bit 8 ?p)) #
            mulXorWords ds ss (unat (gf16Log ! unat factor))"
        using False prod by (simp add: Let_def)
      with 0 head show ?thesis by (simp only: le16_xor le16_split)
    qed
  qed
qed auto

lemma length_mulXorInto [simp]: "length (mulXorInto dst src factor) = length dst"
  by (simp add: mulXorInto_def Let_def)

text \<open>\<open>mulXorInto\<close> adds \<open>factor\<close> times the source to the destination, word by word.\<close>

lemma mulXorInto_word:
  assumes "2 * k + 1 < length dst" and "2 * k + 1 < length src"
  shows "word_at (mulXorInto dst src factor) k = word_at dst k XOR gf16Mul factor (word_at src k)"
proof -
  define n where "n = min (length dst) (length src) - min (length dst) (length src) mod 2"
  have n: "2 * k + 1 < n" using assms by (auto simp: n_def min_def) presburger+
  show ?thesis
  proof (cases "factor = 0 \<or> factor = 1")
    case False
    then show ?thesis
      using mulXorWords_word [of factor k dst src] assms by (simp add: mulXorInto_def Let_def)
  next
    case True
    then show ?thesis
    proof
      assume "factor = 0"
      then show ?thesis by (simp add: mulXorInto_def)
    next
      assume f: "factor = 1"
      have "mulXorInto dst src factor ! i = dst ! i XOR src ! i" if "i < n" for i
        using that f by (simp add: mulXorInto_def Let_def nth_append n_def)
      with f n show ?thesis by (simp add: word_at_def le16_xor)
    qed
  qed
qed

lemma bytes_eq_by_words:
  assumes "length a = length b" and "even (length b)"
    and "\<And>k. 2 * k + 1 < length b \<Longrightarrow> word_at a k = word_at b k"
  shows "a = b"
proof (rule nth_equalityI [OF assms(1)])
  fix i
  assume i: "i < length a"
  have "2 * (i div 2) + 1 < length b"
    using i assms(1,2) by presburger
  with assms(3) have "a ! (2 * (i div 2)) = b ! (2 * (i div 2)) \<and> a ! (2 * (i div 2) + 1) = b ! (2 * (i div 2) + 1)"
    by (metis le16_inject word_at_def)
  moreover have "i = 2 * (i div 2) \<or> i = 2 * (i div 2) + 1" by presburger
  ultimately show "a ! i = b ! i" by metis
qed

subsection \<open>The inversion computes a left inverse\<close>

definition square :: "nat \<Rightarrow> matrix \<Rightarrow> bool" where
  "square dim m \<longleftrightarrow> length m = dim \<and> (\<forall>r < dim. length (m ! r) = dim)"

definition column :: "matrix \<Rightarrow> nat \<Rightarrow> nat \<Rightarrow> u16" where
  "column m j k = m ! k ! j"

text \<open>
  The invariant of the elimination: \<open>inv * m = work\<close>, and the columns already processed are
  unit columns.
\<close>

definition gj_inv :: "nat \<Rightarrow> matrix \<Rightarrow> nat \<Rightarrow> matrix \<times> matrix \<Rightarrow> bool" where
  "gj_inv dim m col = (\<lambda>(work, invm).
     square dim work \<and> square dim invm \<and>
     (\<forall>r < dim. \<forall>j < dim. gf.comb dim ((!) (invm ! r)) (column m j) = work ! r ! j) \<and>
     (\<forall>r < dim. \<forall>c < col. work ! r ! c = (if r = c then 1 else 0)))"

lemma square_scale: "square dim m \<Longrightarrow> i < dim \<Longrightarrow> square dim (m[i := scale_row (m ! i) s])"
  by (auto simp: square_def scale_row_def nth_list_update)

lemma square_swap: "square dim m \<Longrightarrow> i < dim \<Longrightarrow> j < dim \<Longrightarrow> square dim (swap_rows i j m)"
  by (auto simp: square_def swap_rows_def nth_list_update)

lemma nth_swap_rows:
  "i < length m \<Longrightarrow> j < length m \<Longrightarrow>
   swap_rows i j m ! r = (if r = j then m ! i else if r = i then m ! j else m ! r)"
  by (auto simp: swap_rows_def nth_list_update)

lemma comb_scale_row:
  assumes "square dim m'" "square dim invm" "r < dim"
  shows "gf.comb dim ((!) (scale_row (invm ! r) s)) c = gf16Mul (gf.comb dim ((!) (invm ! r)) c) s"
proof -
  have "gf.comb dim ((!) (scale_row (invm ! r) s)) c = gf.comb dim (\<lambda>k. gf16Mul (invm ! r ! k) s) c"
    using assms by (intro gf.comb_cong) (auto simp: scale_row_def square_def)
  then show ?thesis by (simp add: gf.comb_scale)
qed

lemma comb_addmul_row:
  assumes "length v = dim" "length w = dim"
  shows "gf.comb dim ((!) (addmul_row v w f)) c =
    gf.comb dim ((!) v) c XOR gf16Mul (gf.comb dim ((!) w) c) f"
proof -
  have "gf.comb dim ((!) (addmul_row v w f)) c = gf.comb dim (\<lambda>k. v ! k XOR gf16Mul (w ! k) f) c"
    using assms by (intro gf.comb_cong) (auto simp: addmul_row_def)
  then show ?thesis by (simp add: gf.comb_addmul)
qed

text \<open>Swapping two rows at or below the current column keeps the invariant.\<close>

lemma gj_inv_swap:
  assumes "gj_inv dim m col (work, invm)" and "col \<le> i" and "i < dim" and "col < dim"
  shows "gj_inv dim m col (swap_rows i col work, swap_rows i col invm)"
proof -
  from assms have "length work = dim" "length invm = dim" by (auto simp: gj_inv_def square_def)
  with assms show ?thesis
    by (auto simp: gj_inv_def square_swap nth_swap_rows)
qed

lemma eliminate_nth:
  assumes "square dim work" and "square dim invm" and "r < dim"
  shows "fst (eliminate col work invm) ! r =
      (if r = col \<or> work ! r ! col = 0 then work ! r else addmul_row (work ! r) (work ! col) (work ! r ! col))"
    and "snd (eliminate col work invm) ! r =
      (if r = col \<or> work ! r ! col = 0 then invm ! r else addmul_row (invm ! r) (invm ! col) (work ! r ! col))"
  using assms by (auto simp: eliminate_def Let_def square_def)

lemma eliminate_square:
  assumes "square dim work" and "square dim invm" and "col < dim"
  shows "square dim (fst (eliminate col work invm)) \<and> square dim (snd (eliminate col work invm))"
proof -
  have "length (fst (eliminate col work invm)) = dim" "length (snd (eliminate col work invm)) = dim"
    using assms by (auto simp: eliminate_def Let_def square_def)
  then show ?thesis
    using assms by (auto simp: square_def eliminate_nth [OF assms(1,2)] addmul_row_def)
qed

lemma gj_inv_eliminate:
  assumes inv: "gj_inv dim m col (work, invm)" and col: "col < dim" and one: "work ! col ! col = 1"
  shows "gj_inv dim m (Suc col) (eliminate col work invm)"
proof -
  from inv have sq: "square dim work" "square dim invm" by (auto simp: gj_inv_def)
  have len: "length (work ! r) = dim" "length (invm ! r) = dim" if "r < dim" for r
    using sq that by (auto simp: square_def)
  let ?W = "fst (eliminate col work invm)" and ?I = "snd (eliminate col work invm)"
  have prod: "gf.comb dim ((!) (invm ! r)) (column m j) = work ! r ! j" if "r < dim" "j < dim" for r j
    using inv that by (auto simp: gj_inv_def)
  have units: "work ! r ! c = (if r = c then 1 else 0)" if "r < dim" "c < col" for r c
    using inv that by (auto simp: gj_inv_def)
  have "gf.comb dim ((!) (?I ! r)) (column m j) = ?W ! r ! j" if r: "r < dim" and j: "j < dim" for r j
    using prod len col r j
    by (auto simp: eliminate_nth [OF sq r] comb_addmul_row) (simp add: addmul_row_def len)
  moreover have "?W ! r ! c = (if r = c then 1 else 0)" if r: "r < dim" and c: "c < Suc col" for r c
  proof (cases "r = col \<or> work ! r ! col = 0")
    case True
    with units r c one show ?thesis
      by (auto simp: eliminate_nth [OF sq r] less_Suc_eq)
  next
    case False
    have cd: "c < dim" using c col by simp
    have "?W ! r ! c = work ! r ! c XOR gf16Mul (work ! col ! c) (work ! r ! col)"
      using False r cd len col by (simp add: eliminate_nth [OF sq r] addmul_row_def)
    with False units [OF r] units [OF col] c one show ?thesis
      by (cases "c = col") (auto simp: less_Suc_eq)
  qed
  ultimately show ?thesis
    using eliminate_square [OF sq col] by (simp add: gj_inv_def case_prod_beta)
qed

lemma gj_inv_scale:
  assumes inv: "gj_inv dim m col (work, invm)" and col: "col < dim"
  shows "gj_inv dim m col (work[col := scale_row (work ! col) s], invm[col := scale_row (invm ! col) s])"
proof -
  from inv have sq: "square dim work" "square dim invm" by (auto simp: gj_inv_def)
  then have len: "length work = dim" "length invm = dim" "length (work ! col) = dim"
    using col by (auto simp: square_def)
  show ?thesis
    using inv col len sq
    by (auto simp: gj_inv_def square_scale nth_list_update comb_scale_row [OF sq])
      (auto simp: scale_row_def)
qed

lemma gauss_column_inv:
  assumes inv: "gj_inv dim m col wi" and col: "col < dim" and ok: "gauss_column dim col wi = Inr wi'"
  shows "gj_inv dim m (Suc col) wi'"
proof -
  obtain work invm where wi: "wi = (work, invm)" by fastforce
  obtain pivot where p: "find (\<lambda>r. work ! r ! col \<noteq> 0) [col..<dim] = Some pivot"
    using ok by (auto simp: wi gauss_column_def split: option.splits)
  then have bounds: "col \<le> pivot" "pivot < dim"
    by (auto simp: find_Some_iff)
  define W where "W = (if pivot \<noteq> col then swap_rows pivot col work else work)"
  define I where "I = (if pivot \<noteq> col then swap_rows pivot col invm else invm)"
  obtain scale where sc: "gf16Inv (W ! col ! col) = Some scale"
    and wi': "wi' = eliminate col (W[col := scale_row (W ! col) scale]) (I[col := scale_row (I ! col) scale])"
    using ok p by (auto simp: wi gauss_column_def W_def I_def Let_def split: option.splits)
  have swapped: "gj_inv dim m col (W, I)"
    using inv gj_inv_swap [OF _ bounds col] by (auto simp: wi W_def I_def)
  then have "square dim W" by (simp add: gj_inv_def)
  with sc col have "W[col := scale_row (W ! col) scale] ! col ! col = 1"
    using gf.inv_mul [OF sc] gf.mul_comm by (simp add: square_def scale_row_def)
  then show ?thesis
    unfolding wi' by (rule gj_inv_eliminate [OF gj_inv_scale [OF swapped col] col])
qed

lemma gauss_columns_inv:
  assumes "gauss_columns dim [col..<dim] wi = Inr wi'" and "gj_inv dim m col wi" and "col \<le> dim"
  shows "gj_inv dim m dim wi'"
  using assms
proof (induction "dim - col" arbitrary: col wi)
  case 0
  then show ?case by simp
next
  case (Suc n)
  then have lt: "col < dim" by simp
  then have "[col..<dim] = col # [Suc col..<dim]" by (rule upt_conv_Cons)
  with Suc.prems(1) obtain w1 where w1: "gauss_column dim col wi = Inr w1"
    "gauss_columns dim [Suc col..<dim] w1 = Inr wi'"
    by (auto split: sum.splits)
  have "gj_inv dim m (Suc col) w1"
    by (rule gauss_column_inv [OF Suc.prems(2) lt w1(1)])
  with Suc.hyps(1) [of "Suc col" w1] Suc.hyps(2) w1(2) lt show ?case by simp
qed

lemma gj_inv_start: "square dim m \<Longrightarrow> gj_inv dim m 0 (m, identity_matrix dim)"
proof -
  assume sq: "square dim m"
  have "gf.comb dim ((!) (identity_matrix dim ! r)) (column m j) = m ! r ! j" if "r < dim" for r j
  proof -
    have "gf.comb dim ((!) (identity_matrix dim ! r)) (column m j) =
        gf.comb dim (\<lambda>k. if k = r then 1 else 0) (column m j)"
      using that by (intro gf.comb_cong) (auto simp: identity_matrix_def nth_list_update)
    with that show ?thesis by (simp add: gf.comb_unit column_def)
  qed
  moreover have "square dim (identity_matrix dim)"
    by (simp add: square_def identity_matrix_def)
  ultimately show ?thesis using sq by (simp add: gj_inv_def)
qed

lemma invertGF16Matrix_left_inverse:
  assumes "invertGF16Matrix m = Inr invm"
  shows "square (length m) m \<and> square (length m) invm \<and>
    (\<forall>r < length m. \<forall>j < length m.
       gf.comb (length m) ((!) (invm ! r)) (column m j) = (if r = j then 1 else 0))"
proof -
  let ?d = "length m"
  have sq: "square ?d m"
    using assms by (auto simp: invertGF16Matrix_def square_def list_all_iff Let_def split: if_splits)
  obtain work where "gauss_columns ?d [0..<?d] (m, identity_matrix ?d) = Inr (work, invm)"
    using assms by (auto simp: invertGF16Matrix_def Let_def split: if_splits sum.splits)
  from gauss_columns_inv [OF this gj_inv_start [OF sq]] have "gj_inv ?d m ?d (work, invm)" by simp
  with sq show ?thesis by (auto simp: gj_inv_def)
qed

text \<open>C8: whenever \<open>invertGF16Matrix\<close> returns a matrix, the input is square and the result is its
  left inverse over the field: the product is the identity, entry by entry.\<close>

theorem invertGF16Matrix_correct:
  assumes "invertGF16Matrix m = Inr invm"
  shows "\<forall>r < length m. \<forall>j < length m.
    xs.F (\<lambda>k. gf16Mul (invm ! r ! k) (m ! k ! j)) {..<length m} = (if r = j then 1 else 0)"
  using invertGF16Matrix_left_inverse [OF assms] by (simp add: gf.comb_def column_def)


subsection \<open>Reconstruction\<close>

text \<open>
  The encoder the solver inverts: the recovery slice of exponent \<open>e\<close> over all input blocks,
  each zero-extended to one slice.
\<close>

definition recoverySlice :: "u16 list \<Rightarrow> int \<Rightarrow> int \<Rightarrow> (int \<Rightarrow> bytes) \<Rightarrow> u32 \<Rightarrow> bytes" where
  "recoverySlice constants sz tot blocks e =
     foldl (\<lambda>acc i. mulXorInto acc (padBlock sz (blocks i)) (gf16Pow (constants ! nat i) e))
       (replicate (nat sz) 0) [0..tot - 1]"

fun feed_slices :: "PAR2Solver \<Rightarrow> (u32 \<times> bytes) list \<Rightarrow> (par2_error, PAR2Solver) result" where
  "feed_slices s [] = Inr s"
| "feed_slices s ((e, d) # r) =
     (case AddRecoverySlice s e d of Inl err \<Rightarrow> Inl err | Inr s' \<Rightarrow> feed_slices s' r)"

fun feed_blocks :: "PAR2Solver \<Rightarrow> (int \<times> bytes) list \<Rightarrow> (par2_error, PAR2Solver) result" where
  "feed_blocks s [] = Inr s"
| "feed_blocks s ((i, d) # r) =
     (case AddKnownBlock s i d of Inl err \<Rightarrow> Inl err | Inr s' \<Rightarrow> feed_blocks s' r)"

lemma length_padBlock: "int (length d) \<le> sz \<Longrightarrow> length (padBlock sz d) = nat sz"
  by (auto simp: padBlock_def)

lemma foldl_mulXorInto_length:
  "length (foldl (\<lambda>acc i. mulXorInto acc (f i) (g i)) acc xs) = length acc"
  by (induction xs arbitrary: acc) simp_all

lemma foldl_mulXorInto_word:
  assumes "distinct xs" and "2 * k + 1 < length acc" and "\<And>x. x \<in> set xs \<Longrightarrow> length (f x) = length acc"
  shows "word_at (foldl (\<lambda>acc x. mulXorInto acc (f x) (g x)) acc xs) k =
    word_at acc k XOR xs.F (\<lambda>x. gf16Mul (g x) (word_at (f x) k)) (set xs)"
  using assms
proof (induction xs arbitrary: acc)
  case Nil
  then show ?case by simp
next
  case (Cons x xs)
  then show ?case
    by (simp add: mulXorInto_word ac_simps)
qed

lemma word_at_zero: "2 * k + 1 < n \<Longrightarrow> word_at (replicate n 0) k = 0"
  by (simp add: word_at_def le16_def)

lemma recoverySlice_word:
  assumes "2 * k + 1 < nat sz" and "\<And>i. 0 \<le> i \<Longrightarrow> i < tot \<Longrightarrow> int (length (blocks i)) \<le> sz"
  shows "word_at (recoverySlice constants sz tot blocks e) k =
    xs.F (\<lambda>i. gf16Mul (gf16Pow (constants ! nat i) e) (word_at (padBlock sz (blocks i)) k)) {0..<tot}"
proof -
  have "set [0..tot - 1] = {0..<tot}" by auto
  then show ?thesis
    unfolding recoverySlice_def using assms
    by (subst foldl_mulXorInto_word) (auto simp: length_padBlock word_at_zero)
qed

lemma length_recoverySlice: "length (recoverySlice constants sz tot blocks e) = nat sz"
  by (simp add: recoverySlice_def foldl_mulXorInto_length)

lemma solveBlock_word:
  assumes "2 * k + 1 < nat sz" and "\<And>r. r < length rows \<Longrightarrow> length (rows ! r) = nat sz"
  shows "word_at (solveBlock sz rows factors) k = gf.comb (length rows) ((!) factors) (\<lambda>r. word_at (rows ! r) k)"
proof -
  have "word_at (solveBlock sz rows factors) k =
      word_at (replicate (nat sz) 0) k XOR xs.F (\<lambda>r. gf16Mul (factors ! r) (word_at (rows ! r) k)) (set [0..<length rows])"
    unfolding solveBlock_def using assms by (intro foldl_mulXorInto_word) auto
  with assms(1) show ?thesis
    by (simp add: word_at_zero gf.comb_def atLeast0LessThan)
qed

lemma length_solveBlock: "length (solveBlock sz rows factors) = nat sz"
  by (simp add: solveBlock_def foldl_mulXorInto_length)

subsubsection \<open>Construction\<close>

lemma checkUnknown_ok:
  "checkUnknown tot unk seen = Inr us \<Longrightarrow>
   us = seen \<union> set unk \<and> distinct unk \<and> set unk \<inter> seen = {} \<and> set unk \<subseteq> {0..<tot}"
  by (induction tot unk seen rule: checkUnknown.induct) (auto split: if_splits)

lemma checkExponents_ok:
  "checkExponents exps seen = Inr u \<Longrightarrow> distinct exps \<and> set exps \<inter> seen = {}"
  by (induction exps seen rule: checkExponents.induct) (auto split: if_splits)

lemma NewPAR2Solver_ok:
  assumes "NewPAR2Solver sz tot unk exps = Inr s"
  obtains constants where "PAR2InputConstants tot = Some constants"
    and "0 < sz" "sz mod 4 = 0" "distinct unk" "set unk \<subseteq> {0..<tot}" "distinct exps" "length exps = length unk" "unk \<noteq> []"
    and "s = \<lparr>sliceSize = sz, total = tot, unknown = unk, exponents = exps,
             coeff = map (\<lambda>e. map (\<lambda>u. gf16Pow (constants ! nat u) e) unk) exps,
             rhs = replicate (length unk) (replicate (nat sz) 0), unknownSet = set unk,
             haveSlice = replicate (length unk) False, slicesSeen = 0, known = {}, solved = False\<rparr>"
proof -
  from assms obtain us u constants where
    "checkUnknown tot unk {} = Inr us" "checkExponents exps {} = Inr u"
    "PAR2InputConstants tot = Some constants" "0 < sz" "go_mod sz 4 = 0" "length exps = length unk" "unk \<noteq> []"
    "s = \<lparr>sliceSize = sz, total = tot, unknown = unk, exponents = exps,
             coeff = map (\<lambda>e. map (\<lambda>u. gf16Pow (constants ! nat u) e) unk) exps,
             rhs = replicate (length unk) (replicate (nat sz) 0), unknownSet = us,
             haveSlice = replicate (length unk) False, slicesSeen = 0, known = {}, solved = False\<rparr>"
    unfolding NewPAR2Solver_def by (auto split: if_splits sum.splits option.splits)
  with that checkUnknown_ok checkExponents_ok show ?thesis
    by (auto simp: go_mod_nonneg)
qed

subsubsection \<open>Feeding\<close>

text \<open>
  The invariant while the solver is fed: a row whose slice has arrived holds the recovery slice
  with the contribution of every block folded in so far taken out.
\<close>

definition folded :: "u16 list \<Rightarrow> int \<Rightarrow> (int \<Rightarrow> bytes) \<Rightarrow> u32 \<Rightarrow> nat \<Rightarrow> int set \<Rightarrow> u16" where
  "folded constants sz blocks e k A =
     xs.F (\<lambda>i. gf16Mul (gf16Pow (constants ! nat i) e) (word_at (padBlock sz (blocks i)) k)) A"

definition solver_inv :: "u16 list \<Rightarrow> int \<Rightarrow> int \<Rightarrow> (int \<Rightarrow> bytes) \<Rightarrow> int list \<Rightarrow> u32 list \<Rightarrow> PAR2Solver \<Rightarrow> bool" where
  "solver_inv constants sz tot blocks unk exps s \<longleftrightarrow>
     sliceSize s = sz \<and> total s = tot \<and> unknown s = unk \<and> exponents s = exps \<and>
     coeff s = map (\<lambda>e. map (\<lambda>u. gf16Pow (constants ! nat u) e) unk) exps \<and>
     unknownSet s = set unk \<and> length (rhs s) = length unk \<and> length (haveSlice s) = length unk \<and>
     (\<forall>r < length unk. length (rhs s ! r) = nat sz) \<and>
     slicesSeen s = length (filter id (haveSlice s)) \<and>
     known s \<subseteq> {0..<tot} - set unk \<and>
     (\<forall>r < length unk. haveSlice s ! r \<longrightarrow> (\<forall>k. 2 * k + 1 < nat sz \<longrightarrow>
        word_at (rhs s ! r) k =
          word_at (recoverySlice constants sz tot blocks (exps ! r)) k XOR
          folded constants sz blocks (exps ! r) k (known s)))"

lemma filter_id_update:
  assumes "i < length xs" and "\<not> xs ! i"
  shows "length (filter id (xs[i := True])) = Suc (length (filter id xs))"
  using assms
proof (induction xs arbitrary: i)
  case Nil
  then show ?case by simp
next
  case (Cons x xs)
  then show ?case by (cases i) auto
qed

lemma all_have_slice:
  assumes "length (filter id xs) = length xs" and "i < length xs"
  shows "xs ! i"
  using assms by (metis filter_id_conv id_apply length_filter_less less_irrefl nth_mem)

lemma AddRecoverySlice_inv:
  assumes inv: "solver_inv constants sz tot blocks unk exps s" and none: "known s = {}"
    and len: "length exps = length unk"
    and ok: "AddRecoverySlice s e (recoverySlice constants sz tot blocks e) = Inr s'"
  shows "solver_inv constants sz tot blocks unk exps s' \<and> known s' = {} \<and> solved s' = solved s"
proof -
  let ?d = "recoverySlice constants sz tot blocks e"
  obtain row where row: "IndexByte exps e = Some row" "\<not> haveSlice s ! row"
    and s': "s' = s\<lparr>rhs := (rhs s)[row := ?d], haveSlice := (haveSlice s)[row := True],
                    slicesSeen := slicesSeen s + 1\<rparr>"
    using ok inv by (auto simp: AddRecoverySlice_def solver_inv_def split: option.splits if_splits)
  have r: "row < length unk" "exps ! row = e"
    using IndexByte_Some [OF row(1)] len by auto
  have "length (filter id ((haveSlice s)[row := True])) = Suc (length (filter id (haveSlice s)))"
    using inv r row(2) by (intro filter_id_update) (auto simp: solver_inv_def)
  with inv r none s' show ?thesis
    by (auto simp: solver_inv_def nth_list_update length_recoverySlice folded_def)
qed

lemma AddKnownBlock_inv:
  assumes inv: "solver_inv constants sz tot blocks unk exps s"
    and const: "PAR2InputConstants tot = Some constants" and len: "length exps = length unk"
    and ok: "AddKnownBlock s i (blocks i) = Inr s'"
  shows "solver_inv constants sz tot blocks unk exps s' \<and> solved s' = solved s"
proof -
  have i: "0 \<le> i" "i < tot" "i \<notin> set unk" "i \<notin> known s" "int (length (blocks i)) \<le> sz"
    and s': "s' = s\<lparr>rhs := map2 (\<lambda>row e. mulXorInto row (padBlock sz (blocks i))
                                (gf16Pow (constants ! nat i) e)) (rhs s) exps,
                 known := insert i (known s)\<rparr>"
    using ok inv const by (auto simp: AddKnownBlock_def solver_inv_def split: if_splits option.splits)
  have fin: "finite (known s)"
    using inv by (auto simp: solver_inv_def intro: finite_subset)
  have row: "rhs s' ! r = mulXorInto (rhs s ! r) (padBlock sz (blocks i)) (gf16Pow (constants ! nat i) (exps ! r))"
    if "r < length unk" for r
    using inv len that by (auto simp: s' solver_inv_def)
  have "word_at (rhs s' ! r) k =
      word_at (recoverySlice constants sz tot blocks (exps ! r)) k XOR
      folded constants sz blocks (exps ! r) k (known s')"
    if "r < length unk" "haveSlice s ! r" "2 * k + 1 < nat sz" for r k
  proof -
    have "length (rhs s ! r) = nat sz"
      and "word_at (rhs s ! r) k = word_at (recoverySlice constants sz tot blocks (exps ! r)) k XOR
        folded constants sz blocks (exps ! r) k (known s)"
      using inv that by (auto simp: solver_inv_def)
    moreover have "folded constants sz blocks (exps ! r) k (known s') =
        gf16Mul (gf16Pow (constants ! nat i) (exps ! r)) (word_at (padBlock sz (blocks i)) k) XOR
        folded constants sz blocks (exps ! r) k (known s)"
      using fin i(4) by (simp add: s' folded_def)
    ultimately show ?thesis
      using that i(5) by (simp add: row mulXorInto_word length_padBlock ac_simps)
  qed
  with inv i len show ?thesis
    by (auto simp: solver_inv_def s')
qed

lemma feed_slices_inv:
  assumes "feed_slices s sl = Inr s'" and "solver_inv constants sz tot blocks unk exps s" and "known s = {}"
    and "length exps = length unk"
    and "\<And>e d. (e, d) \<in> set sl \<Longrightarrow> d = recoverySlice constants sz tot blocks e"
  shows "solver_inv constants sz tot blocks unk exps s' \<and> known s' = {} \<and> solved s' = solved s"
  using assms
proof (induction s sl rule: feed_slices.induct)
  case (2 s e d r)
  then obtain t where t: "AddRecoverySlice s e d = Inr t" "feed_slices t r = Inr s'"
    by (auto split: sum.splits)
  have "d = recoverySlice constants sz tot blocks e"
    using "2.prems"(5) by simp
  with AddRecoverySlice_inv [OF "2.prems"(2-4)] t
  have "solver_inv constants sz tot blocks unk exps t \<and> known t = {} \<and> solved t = solved s" by simp
  with "2.IH" [OF t] "2.prems"(4,5) show ?case by simp
qed simp

lemma feed_blocks_inv:
  assumes "feed_blocks s bl = Inr s'" and "solver_inv constants sz tot blocks unk exps s"
    and "PAR2InputConstants tot = Some constants" and "length exps = length unk"
    and "\<And>i d. (i, d) \<in> set bl \<Longrightarrow> d = blocks i"
  shows "solver_inv constants sz tot blocks unk exps s' \<and> solved s' = solved s"
  using assms
proof (induction s bl rule: feed_blocks.induct)
  case (2 s i d r)
  then obtain t where t: "AddKnownBlock s i d = Inr t" "feed_blocks t r = Inr s'"
    by (auto split: sum.splits)
  have "d = blocks i"
    using "2.prems"(5) by simp
  with AddKnownBlock_inv [OF "2.prems"(2-4)] t
  have "solver_inv constants sz tot blocks unk exps t \<and> solved t = solved s" by simp
  with "2.IH" [OF t] "2.prems"(3-5) show ?case by simp
qed simp

subsubsection \<open>Solving\<close>

text \<open>Once every survivor is folded in, a row is the combination of the unknown blocks only.\<close>

lemma rhs_is_combination:
  assumes inv: "solver_inv constants sz tot blocks unk exps s"
    and short: "\<And>i. 0 \<le> i \<Longrightarrow> i < tot \<Longrightarrow> int (length (blocks i)) \<le> sz"
    and geo: "distinct unk" "set unk \<subseteq> {0..<tot}" "length exps = length unk"
    and all: "slicesSeen s = length unk" "int (card (known s)) = tot - int (length unk)"
    and r: "r < length unk" and k: "2 * k + 1 < nat sz"
  shows "word_at (rhs s ! r) k =
    gf.comb (length unk) ((!) (coeff s ! r)) (\<lambda>j. word_at (padBlock sz (blocks (unk ! j))) k)"
proof -
  let ?g = "\<lambda>i. gf16Mul (gf16Pow (constants ! nat i) (exps ! r)) (word_at (padBlock sz (blocks i)) k)"
  have "card ({0..<tot} - set unk) = nat tot - length unk"
    using geo(1,2) by (simp add: card_Diff_subset distinct_card)
  moreover have "length unk \<le> nat tot"
    using geo(1,2) card_mono [of "{0..<tot}" "set unk"] by (simp add: distinct_card)
  ultimately have "card ({0..<tot} - set unk) = card (known s)"
    using all(2) by simp
  moreover have "known s \<subseteq> {0..<tot} - set unk"
    using inv by (simp add: solver_inv_def)
  ultimately have known: "known s = {0..<tot} - set unk"
    by (intro card_subset_eq) auto
  have split: "xs.F ?g {0..<tot} = xs.F ?g (set unk) XOR xs.F ?g ({0..<tot} - set unk)"
    using geo(2) by (subst xs.subset_diff [of "set unk"]) (simp_all add: ac_simps)
  have "haveSlice s ! r"
    using inv all(1) r by (intro all_have_slice) (auto simp: solver_inv_def)
  then have "word_at (rhs s ! r) k =
      word_at (recoverySlice constants sz tot blocks (exps ! r)) k XOR
      folded constants sz blocks (exps ! r) k (known s)"
    using inv r k unfolding solver_inv_def by blast
  also have "\<dots> = xs.F ?g {0..<tot} XOR xs.F ?g ({0..<tot} - set unk)"
    using recoverySlice_word [OF k short] by (simp add: folded_def known)
  also have "\<dots> = xs.F ?g (set unk)"
    by (simp add: split xor.assoc)
  also have "\<dots> = xs.F (\<lambda>j. ?g (unk ! j)) {..<length unk}"
  proof -
    have "(!) unk ` {..<length unk} = set unk"
      by (auto simp: set_conv_nth)
    then show ?thesis
      using xs.reindex [of "(!) unk" "{..<length unk}" ?g] geo(1)
      by (simp add: comp_def inj_on_nth)
  qed
  finally show ?thesis
    using inv r geo(3) by (simp add: gf.comb_def solver_inv_def)
qed

lemma Solve_reconstructs:
  assumes inv: "solver_inv constants sz tot blocks unk exps s"
    and short: "\<And>i. 0 \<le> i \<Longrightarrow> i < tot \<Longrightarrow> int (length (blocks i)) \<le> sz"
    and geo: "distinct unk" "set unk \<subseteq> {0..<tot}" "length exps = length unk"
    and size: "0 < sz" "sz mod 4 = 0"
    and ok: "Solve s = Inr (out, s')"
  shows "out = map (\<lambda>u. padBlock sz (blocks u)) unk"
proof -
  let ?n = "length unk"
  obtain invm where i: "invertGF16Matrix (coeff s) = Inr invm"
    and all: "slicesSeen s = ?n" "int (card (known s)) = tot - int ?n"
    and out: "out = map (\<lambda>c. solveBlock sz (rhs s) (invm ! c)) [0..<?n]"
    using ok inv by (auto simp: Solve_def solver_inv_def Let_def split: if_splits sum.splits)
  have dim: "length (coeff s) = ?n" and len: "length (rhs s) = ?n"
    and rows: "\<And>r. r < ?n \<Longrightarrow> length (rhs s ! r) = nat sz"
    using inv geo(3) by (auto simp: solver_inv_def)
  note left = invertGF16Matrix_left_inverse [OF i, unfolded dim]
  have "solveBlock sz (rhs s) (invm ! c) = padBlock sz (blocks (unk ! c))" if c: "c < ?n" for c
  proof (rule bytes_eq_by_words)
    have "length (padBlock sz (blocks (unk ! c))) = nat sz"
      using c geo(2) short by (intro length_padBlock) (auto dest: nth_mem)
    then show "length (solveBlock sz (rhs s) (invm ! c)) = length (padBlock sz (blocks (unk ! c)))"
      and "even (length (padBlock sz (blocks (unk ! c))))"
      using size by (simp_all add: length_solveBlock even_nat_iff) presburger
    fix k
    assume "2 * k + 1 < length (padBlock sz (blocks (unk ! c)))"
    with \<open>length (padBlock sz (blocks (unk ! c))) = nat sz\<close> have k: "2 * k + 1 < nat sz" by simp
    let ?x = "\<lambda>j. word_at (padBlock sz (blocks (unk ! j))) k"
    have "word_at (solveBlock sz (rhs s) (invm ! c)) k = gf.comb ?n ((!) (invm ! c)) (\<lambda>r. word_at (rhs s ! r) k)"
      using solveBlock_word [OF k, of "rhs s" "invm ! c"] rows len by simp
    also have "\<dots> = gf.comb ?n ((!) (invm ! c)) (\<lambda>r. gf.comb ?n ((!) (coeff s ! r)) ?x)"
      using rhs_is_combination [OF inv short geo all _ k] by (intro gf.comb_cong) auto
    also have "\<dots> = ?x c"
      using left c by (intro gf.comb_solve) (auto simp: column_def [abs_def])
    finally show "word_at (solveBlock sz (rhs s) (invm ! c)) k = ?x c" .
  qed
  then show ?thesis
    unfolding out by (intro nth_equalityI) auto
qed

text \<open>C6: the solver never returns wrong bytes. Constructed for a recovery set, fed with recovery
  slices computed from the original blocks and then with surviving blocks (each set in any
  order), a \<open>Solve\<close> that succeeds returns exactly the original unknown blocks, zero-extended to
  one slice, in the order the unknowns were declared.\<close>

theorem par2_solver_reconstructs:
  assumes "NewPAR2Solver sz tot unk exps = Inr s0"
    and "PAR2InputConstants tot = Some constants"
    and "\<forall>i. 0 \<le> i \<and> i < tot \<longrightarrow> int (length (blocks i)) \<le> sz"
    and "feed_slices s0 (map (\<lambda>e. (e, recoverySlice constants sz tot blocks e)) es) = Inr s1"
    and "feed_blocks s1 (map (\<lambda>i. (i, blocks i)) survivors) = Inr s2"
    and "Solve s2 = Inr (out, s3)"
  shows "out = map (\<lambda>u. padBlock sz (blocks u)) unk"
proof -
  obtain constants' where c: "PAR2InputConstants tot = Some constants'"
    and geo: "0 < sz" "sz mod 4 = 0" "distinct unk" "set unk \<subseteq> {0..<tot}" "length exps = length unk"
    and s0: "s0 = \<lparr>sliceSize = sz, total = tot, unknown = unk, exponents = exps,
             coeff = map (\<lambda>e. map (\<lambda>u. gf16Pow (constants' ! nat u) e) unk) exps,
             rhs = replicate (length unk) (replicate (nat sz) 0), unknownSet = set unk,
             haveSlice = replicate (length unk) False, slicesSeen = 0, known = {}, solved = False\<rparr>"
    by (rule NewPAR2Solver_ok [OF assms(1)])
  from c assms(2) have "constants' = constants" by simp
  with s0 geo(5) have i0: "solver_inv constants sz tot blocks unk exps s0" and k0: "known s0 = {}"
    by (auto simp: solver_inv_def)
  have "solver_inv constants sz tot blocks unk exps s1"
    using feed_slices_inv [OF assms(4) i0 k0 geo(5)] by auto
  then have "solver_inv constants sz tot blocks unk exps s2"
    using feed_blocks_inv [OF assms(5) _ assms(2) geo(5)] by auto
  then show ?thesis
    using Solve_reconstructs [OF _ _ geo(3-5) geo(1,2) assms(6)] assms(3) by blast
qed

subsubsection \<open>Failure\<close>

lemma gauss_column_error: "gauss_column dim col wi = Inl e \<Longrightarrow> col < dim \<Longrightarrow> square dim (fst wi) \<Longrightarrow> e = LinearlyDependent"
proof -
  assume err: "gauss_column dim col wi = Inl e" and "col < dim" "square dim (fst wi)"
  obtain work invm where wi: "wi = (work, invm)" by fastforce
  show ?thesis
  proof (cases "find (\<lambda>r. work ! r ! col \<noteq> 0) [col..<dim]")
    case None
    with err show ?thesis by (simp add: wi gauss_column_def)
  next
    case (Some pivot)
    then have p: "pivot < dim" "work ! pivot ! col \<noteq> 0" by (auto simp: find_Some_iff)
    define W where "W = (if pivot \<noteq> col then swap_rows pivot col work else work)"
    have "W ! col ! col \<noteq> 0"
      using p \<open>col < dim\<close> \<open>square dim (fst wi)\<close> by (auto simp: W_def wi nth_swap_rows square_def)
    then have "gf16Inv (W ! col ! col) \<noteq> None" by (rule gf.inv_total)
    with err Some show ?thesis
      by (auto simp: wi gauss_column_def W_def Let_def split: option.splits)
  qed
qed

lemma gauss_columns_error:
  assumes "gauss_columns dim [col..<dim] wi = Inl e" and "gj_inv dim m col wi" and "col \<le> dim"
  shows "e = LinearlyDependent"
  using assms
proof (induction "dim - col" arbitrary: col wi)
  case 0
  then show ?case by simp
next
  case (Suc n)
  then have lt: "col < dim" by simp
  then have up: "[col..<dim] = col # [Suc col..<dim]" by (rule upt_conv_Cons)
  show ?case
  proof (cases "gauss_column dim col wi")
    case (Inl e')
    moreover have "square dim (fst wi)" using Suc.prems(2) by (auto simp: gj_inv_def)
    ultimately show ?thesis using Suc.prems(1) up gauss_column_error lt by auto
  next
    case (Inr w1)
    with Suc.prems(1) up have "gauss_columns dim [Suc col..<dim] w1 = Inl e" by simp
    moreover have "gj_inv dim m (Suc col) w1"
      by (rule gauss_column_inv [OF Suc.prems(2) lt Inr])
    ultimately show ?thesis using Suc.hyps(1) [of "Suc col" w1] Suc.hyps(2) lt by simp
  qed
qed

lemma feed_slices_seen: "feed_slices s sl = Inr s' \<Longrightarrow> slicesSeen s' = slicesSeen s + length sl"
  by (induction s sl rule: feed_slices.induct)
    (auto simp: AddRecoverySlice_def split: sum.splits option.splits if_splits)

lemma feed_blocks_known:
  "feed_blocks s bl = Inr s' \<Longrightarrow> known s' = known s \<union> fst ` set bl \<and> slicesSeen s' = slicesSeen s"
  by (induction s bl rule: feed_blocks.induct)
    (auto simp: AddKnownBlock_def split: sum.splits option.splits if_splits)


lemma gauss_columns_total:
  "square dim m \<Longrightarrow> gauss_columns dim [0..<dim] (m, identity_matrix dim) = Inl e \<Longrightarrow> e = LinearlyDependent"
  by (rule gauss_columns_error [OF _ gj_inv_start]) simp_all

lemma IndexByte_mem: "c \<in> set s \<Longrightarrow> \<exists>i. IndexByte s c = Some i"
  using IndexByte_None_iff [of s c] by auto

text \<open>No slice of a declared exponent and no survivor is refused the first time.\<close>

definition awaits :: "PAR2Solver \<Rightarrow> u32 list \<Rightarrow> bool" where
  "awaits s es \<longleftrightarrow> \<not> solved s \<and> (\<forall>e \<in> set es. \<forall>r. IndexByte (exponents s) e = Some r \<longrightarrow> \<not> haveSlice s ! r)"

lemma feed_slices_total:
  assumes "awaits s es" and "distinct es" and "set es \<subseteq> set (exponents s)"
    and "\<And>e. int (length (f e)) = sliceSize s"
  shows "\<exists>s'. feed_slices s (map (\<lambda>e. (e, f e)) es) = Inr s' \<and> solved s' = solved s \<and>
    exponents s' = exponents s \<and> sliceSize s' = sliceSize s \<and> total s' = total s \<and>
    unknownSet s' = unknownSet s \<and> known s' = known s"
  using assms
proof (induction es arbitrary: s)
  case Nil
  then show ?case by simp
next
  case (Cons e es)
  obtain r where r: "IndexByte (exponents s) e = Some r"
    using Cons.prems(3) IndexByte_mem by force
  define t where "t = s\<lparr>rhs := (rhs s)[r := f e], haveSlice := (haveSlice s)[r := True], slicesSeen := slicesSeen s + 1\<rparr>"
  have t: "AddRecoverySlice s e (f e) = Inr t"
    using Cons.prems(1,4) r by (simp add: AddRecoverySlice_def awaits_def t_def)
  have other: "r' \<noteq> r" if "e' \<in> set es" "IndexByte (exponents s) e' = Some r'" for e' r'
    using that(1) Cons.prems(2) IndexByte_Some [OF r] IndexByte_Some [OF that(2)] by auto
  have "awaits t es"
    using Cons.prems(1) other by (force simp: awaits_def t_def nth_list_update_neq)
  then have "\<exists>s'. feed_slices t (map (\<lambda>e. (e, f e)) es) = Inr s' \<and> solved s' = solved t \<and>
      exponents s' = exponents t \<and> sliceSize s' = sliceSize t \<and> total s' = total t \<and>
      unknownSet s' = unknownSet t \<and> known s' = known t"
    using Cons.prems by (intro Cons.IH) (auto simp: t_def)
  with t show ?case by (simp add: t_def)
qed

lemma feed_blocks_total:
  assumes "\<not> solved s" and "PAR2InputConstants (total s) = Some constants" and "distinct is"
    and "set is \<subseteq> {0..<total s} - unknownSet s - known s"
    and "\<And>i. i \<in> set is \<Longrightarrow> int (length (blocks i)) \<le> sliceSize s"
  shows "\<exists>s'. feed_blocks s (map (\<lambda>i. (i, blocks i)) is) = Inr s' \<and> \<not> solved s'"
  using assms
proof (induction "is" arbitrary: s)
  case Nil
  then show ?case by simp
next
  case (Cons i "is")
  define t where "t = s\<lparr>rhs := map2 (\<lambda>row e. mulXorInto row (padBlock (sliceSize s) (blocks i))
      (gf16Pow (constants ! nat i) e)) (rhs s) (exponents s), known := insert i (known s)\<rparr>"
  have "int (length (blocks i)) \<le> sliceSize s" using Cons.prems(5) by simp
  then have t: "AddKnownBlock s i (blocks i) = Inr t"
    using Cons.prems(1,2,4) by (auto simp: AddKnownBlock_def t_def)
  have "\<exists>s'. feed_blocks t (map (\<lambda>i. (i, blocks i)) is) = Inr s' \<and> \<not> solved s'"
    using Cons.prems by (intro Cons.IH) (auto simp: t_def)
  with t show ?case by simp
qed

lemma invertGF16Matrix_error:
  "square dim m \<Longrightarrow> 0 < dim \<Longrightarrow> invertGF16Matrix m = Inl e \<Longrightarrow> e = LinearlyDependent"
proof -
  assume sq: "square dim m" and "0 < dim" and err: "invertGF16Matrix m = Inl e"
  then have "length m = dim" "list_all (\<lambda>row. length row = dim) m"
    by (auto simp: square_def list_all_length)
  with err \<open>0 < dim\<close> have "gauss_columns dim [0..<dim] (m, identity_matrix dim) = Inl e"
    by (auto simp: invertGF16Matrix_def split: sum.splits)
  with gauss_columns_total [OF sq] show ?thesis .
qed

text \<open>C7: a repair that has everything it declared only fails on a singular system. Fed with one
  slice for every declared exponent and then with every surviving block (each set in any order), no
  call is refused, and \<open>Solve\<close> either reports linearly dependent recovery slices or succeeds with
  the original unknown blocks.\<close>

theorem par2_repair_total:
  assumes "NewPAR2Solver sz tot unk exps = Inr s0"
    and "PAR2InputConstants tot = Some constants"
    and "\<forall>i. 0 \<le> i \<and> i < tot \<longrightarrow> int (length (blocks i)) \<le> sz"
    and "distinct es" and "set es = set exps"
    and "distinct survivors" and "set survivors = {0..<tot} - set unk"
  shows "\<exists>s1 s2. feed_slices s0 (map (\<lambda>e. (e, recoverySlice constants sz tot blocks e)) es) = Inr s1 \<and>
    feed_blocks s1 (map (\<lambda>i. (i, blocks i)) survivors) = Inr s2 \<and>
    (Solve s2 = Inl LinearlyDependent \<or>
     (\<exists>s3. Solve s2 = Inr (map (\<lambda>u. padBlock sz (blocks u)) unk, s3)))"
proof -
  let ?d = "recoverySlice constants sz tot blocks"
  obtain constants' where c: "PAR2InputConstants tot = Some constants'"
    and geo: "0 < sz" "sz mod 4 = 0" "distinct unk" "set unk \<subseteq> {0..<tot}" "distinct exps"
      "length exps = length unk" "unk \<noteq> []"
    and s0: "s0 = \<lparr>sliceSize = sz, total = tot, unknown = unk, exponents = exps,
             coeff = map (\<lambda>e. map (\<lambda>u. gf16Pow (constants' ! nat u) e) unk) exps,
             rhs = replicate (length unk) (replicate (nat sz) 0), unknownSet = set unk,
             haveSlice = replicate (length unk) False, slicesSeen = 0, known = {}, solved = False\<rparr>"
    by (rule NewPAR2Solver_ok [OF assms(1)])
  from c assms(2) have "constants' = constants" by simp
  with s0 geo(6) have i0: "solver_inv constants sz tot blocks unk exps s0" and k0: "known s0 = {}"
    by (auto simp: solver_inv_def)
  have "awaits s0 es"
    using geo(6) by (auto simp: awaits_def s0 dest!: IndexByte_Some)
  then have "\<exists>s'. feed_slices s0 (map (\<lambda>e. (e, ?d e)) es) = Inr s' \<and> solved s' = solved s0 \<and>
      exponents s' = exponents s0 \<and> sliceSize s' = sliceSize s0 \<and> total s' = total s0 \<and>
      unknownSet s' = unknownSet s0 \<and> known s' = known s0"
    using assms(4,5) geo(1) by (intro feed_slices_total) (auto simp: s0 length_recoverySlice)
  then obtain s1 where s1: "feed_slices s0 (map (\<lambda>e. (e, ?d e)) es) = Inr s1"
    "\<not> solved s1" "sliceSize s1 = sz" "total s1 = tot" "unknownSet s1 = set unk" "known s1 = {}"
    by (auto simp: s0)
  have "\<exists>s'. feed_blocks s1 (map (\<lambda>i. (i, blocks i)) survivors) = Inr s' \<and> \<not> solved s'"
    using s1 assms(2,3,6,7) by (intro feed_blocks_total [where constants = constants]) auto
  then obtain s2 where s2: "feed_blocks s1 (map (\<lambda>i. (i, blocks i)) survivors) = Inr s2" "\<not> solved s2"
    by auto
  have i1: "solver_inv constants sz tot blocks unk exps s1"
    using feed_slices_inv [OF s1(1) i0 k0 geo(6)] by auto
  then have i2: "solver_inv constants sz tot blocks unk exps s2"
    using feed_blocks_inv [OF s2(1) _ assms(2) geo(6)] by auto
  have "length es = length unk"
    using assms(4,5) geo(5,6) by (metis distinct_card)
  then have "slicesSeen s2 = length unk"
    using feed_slices_seen [OF s1(1)] feed_blocks_known [OF s2(1)] by (simp add: s0)
  moreover have "int (card (known s2)) = tot - int (length unk)"
  proof -
    have "known s2 = {0..<tot} - set unk"
      using feed_blocks_known [OF s2(1)] s1(6) assms(7) by (auto simp: image_iff)
    moreover have "length unk \<le> nat tot"
      using geo(3,4) card_mono [of "{0..<tot}" "set unk"] by (simp add: distinct_card)
    ultimately show ?thesis
      using geo(3,4,7) hd_in_set [of unk] by (auto simp: card_Diff_subset distinct_card)
  qed
  moreover have "square (length unk) (coeff s2)" "0 < length unk"
    using i2 geo(6,7) by (auto simp: solver_inv_def square_def)
  ultimately have "Solve s2 = Inl LinearlyDependent \<or> (\<exists>out s3. Solve s2 = Inr (out, s3))"
    using s2(2) i2 [unfolded solver_inv_def, THEN conjunct2, THEN conjunct1]
      i2 [unfolded solver_inv_def, THEN conjunct2, THEN conjunct2, THEN conjunct1]
      invertGF16Matrix_error [of "length unk" "coeff s2"]
    by (cases "invertGF16Matrix (coeff s2)") (simp_all add: Solve_def Let_def)
  then show ?thesis
    using s1(1) s2(1) Solve_reconstructs [OF i2 _ geo(3,4,6) geo(1,2)] assms(3) by blast
qed

subsection \<open>Concrete runs\<close>

lemma par2ConstValues_two: "2 \<le> length par2ConstValues"
proof -
  have "[1..<n] = 1 # 2 # [3..<n]" if "3 < n" for n :: nat
    using that upt_conv_Cons [of 1 n] upt_conv_Cons [of 2 n] by (simp add: eval_nat_numeral)
  then have "[1..<gf16Limit] = 1 # 2 # [3..<gf16Limit]"
    by (simp add: gf16Limit_def del: upt_rec_numeral)
  moreover have "gcdU32 gf16Limit 1 = 1" "gcdU32 gf16Limit 2 = 1"
    by (simp_all add: gf16Limit_def gcdU32.simps)
  ultimately show ?thesis by (simp add: par2ConstValues_def)
qed

lemma PAR2InputConstants_two: "\<exists>c. PAR2InputConstants 2 = Some c"
  using par2ConstValues_two by (simp add: PAR2InputConstants_def MaxPAR2TotalBlocks_def)

lemma replicate_numeral: "replicate (numeral k) x = x # replicate (pred_numeral k) x"
  by (simp add: numeral_eq_Suc)

lemma gf16Inv_one: "gf16Inv 1 = Some 1"
  by (rule gf16Inv_unique) simp

lemma gf16Mul_one_right [simp]: "gf16Mul a 1 = a"
  using gf16Mul_comm [of a 1] by simp

lemma gf16Pow_zero [simp]: "gf16Pow a 0 = 1"
  by (simp add: gf16Pow_def)

theorem invertGF16Matrix_correct_witness:
  "invertGF16Matrix [[0, 1], [1, 1]] = Inr [[1, 1], [1, 0]] \<and>
   xs.F (\<lambda>k. gf16Mul ([[1, 1], [1, 0]] ! 0 ! k) ([[0, 1], [1, 1]] ! k ! 0)) {..<2} = 1"
proof -
  have run: "invertGF16Matrix [[0, 1], [1, 1]] = Inr [[1, 1], [1, 0]]"
    by (simp add: invertGF16Matrix_def gauss_column_def identity_matrix_def upt_rec swap_rows_def
        scale_row_def addmul_row_def eliminate_def gf16Inv_one)
  from invertGF16Matrix_correct [OF run] have
    "xs.F (\<lambda>k. gf16Mul ([[1, 1], [1, 0]] ! 0 ! k) ([[0, 1], [1, 1]] ! k ! 0)) {..<2} = 1"
    by (simp add: numeral_2_eq_2)
  with run show ?thesis by simp
qed

text \<open>Two blocks of one 4-byte slice, the first one lost, one recovery slice of exponent 0.\<close>

definition demo_block :: "int \<Rightarrow> bytes" where
  "demo_block i = (if i = 0 then [1, 2, 3, 4] else [5, 6, 7])"

lemma demo_new:
  "PAR2InputConstants 2 = Some c \<Longrightarrow>
   NewPAR2Solver 4 2 [0] [0] = Inr \<lparr>sliceSize = 4, total = 2, unknown = [0], exponents = [0],
     coeff = [[1]], rhs = [[0, 0, 0, 0]], unknownSet = {0}, haveSlice = [False], slicesSeen = 0,
     known = {}, solved = False\<rparr>"
  by (simp add: NewPAR2Solver_def go_mod_def go_div_def MaxPAR2SliceBytes_def MaxPAR2TotalBlocks_def
      MaxPAR2UnknownBlocks_def maxPAR2SolverBytes_def replicate_numeral)

theorem par2_solver_reconstructs_witness:
  "\<exists>c s0 s1 s2 s3. PAR2InputConstants 2 = Some c \<and> NewPAR2Solver 4 2 [0] [0] = Inr s0 \<and>
     feed_slices s0 [(0, recoverySlice c 4 2 demo_block 0)] = Inr s1 \<and>
     feed_blocks s1 [(1, demo_block 1)] = Inr s2 \<and> Solve s2 = Inr ([[1, 2, 3, 4]], s3)"
proof -
  obtain c where c: "PAR2InputConstants 2 = Some c" using PAR2InputConstants_two by blast
  note new = demo_new [OF c]
  have upto: "[0..1 :: int] = [0, 1]" by (simp add: upto.simps)
  have slice: "recoverySlice c 4 2 demo_block 0 = [4, 4, 4, 4]"
    by (simp add: recoverySlice_def upto padBlock_def demo_block_def mulXorInto_def replicate_numeral)
  let ?s1 = "\<lparr>sliceSize = 4, total = 2, unknown = [0], exponents = [0],
     coeff = [[1]], rhs = [[4, 4, 4, 4]], unknownSet = {0}, haveSlice = [True], slicesSeen = 1,
     known = {}, solved = False\<rparr>"
  have s1: "feed_slices \<lparr>sliceSize = 4, total = 2, unknown = [0], exponents = [0],
     coeff = [[1]], rhs = [[0, 0, 0, 0]], unknownSet = {0}, haveSlice = [False], slicesSeen = 0,
     known = {}, solved = False\<rparr> [(0, recoverySlice c 4 2 demo_block 0)] = Inr ?s1"
    by (simp add: slice AddRecoverySlice_def)
  let ?s2 = "\<lparr>sliceSize = 4, total = 2, unknown = [0], exponents = [0],
     coeff = [[1]], rhs = [[1, 2, 3, 4]], unknownSet = {0}, haveSlice = [True], slicesSeen = 1,
     known = {1}, solved = False\<rparr>"
  have s2: "feed_blocks ?s1 [(1, demo_block 1)] = Inr ?s2"
    using c by (simp add: AddKnownBlock_def demo_block_def padBlock_def mulXorInto_def)
  have "\<exists>out. Solve ?s2 = Inr (out, ?s2\<lparr>solved := True\<rparr>)"
    by (simp add: Solve_def invertGF16Matrix_def gauss_column_def identity_matrix_def
        scale_row_def eliminate_def gf16Inv_one)
  then obtain out where s3: "Solve ?s2 = Inr (out, ?s2\<lparr>solved := True\<rparr>)" by blast
  have "out = map (\<lambda>u. padBlock 4 (demo_block u)) [0]"
    by (rule par2_solver_reconstructs [OF new c, of demo_block "[0]" ?s1 "[1]" ?s2])
      (use s1 s2 s3 in \<open>simp_all add: demo_block_def\<close>)
  then have "out = [[1, 2, 3, 4]]" by (simp add: padBlock_def demo_block_def)
  with c new s1 s2 s3 show ?thesis by blast
qed

theorem par2_repair_total_witness:
  "\<exists>c s0 s1 s2. PAR2InputConstants 2 = Some c \<and> NewPAR2Solver 4 2 [0] [0] = Inr s0 \<and>
     feed_slices s0 [(0, recoverySlice c 4 2 demo_block 0)] = Inr s1 \<and>
     feed_blocks s1 [(1, demo_block 1)] = Inr s2 \<and>
     (Solve s2 = Inl LinearlyDependent \<or> (\<exists>s3. Solve s2 = Inr ([[1, 2, 3, 4]], s3)))"
proof -
  obtain c where c: "PAR2InputConstants 2 = Some c" using PAR2InputConstants_two by blast
  have "set [1] = {0..<2} - set [0 :: int]" by auto
  with par2_repair_total [OF demo_new [OF c] c, of demo_block "[0]" "[1]"] c demo_new [OF c] show ?thesis
    by (simp add: demo_block_def padBlock_def)
qed

end
