(* ===== verification/Outcome.thy ===== *)
theory Outcome
  imports DH_Prelude
begin

section \<open>The shared outcome vocabulary and its rate-limited log\<close>

text \<open>
  Models \<open>internal/outcome/outcome.go\<close> and \<open>limiter.go\<close>, with the two lanes' error types they
  classify: \<open>provider.RetryableError\<close> of \<open>internal/provider/types.go\<close> and \<open>httpstream.Error\<close> of
  \<open>internal/httpstream/errors.go\<close>. A Go error is a value of \<open>go_error\<close>: an error without
  \<open>Unwrap\<close>, a wrapper made by \<open>fmt.Errorf\<close> or \<open>errors.Join\<close>, or one of the three types above.
  \<open>errors.As\<close> walks \<open>chain\<close>, the tree of wrapped errors in pre-order.

  The limiter is its map of entries; a call returns the lines it logs. The clock is an argument.
\<close>

subsection \<open>Classes\<close>

type_synonym Class = string

definition ClassPermanentHere :: Class where "ClassPermanentHere = ''permanent_here''"
definition ClassTransientHere :: Class where "ClassTransientHere = ''transient_here''"
definition ClassAccountLevel :: Class where "ClassAccountLevel = ''account_level''"
definition ClassUnknown :: Class where "ClassUnknown = ''unknown''"

lemmas class_defs = ClassPermanentHere_def ClassTransientHere_def ClassAccountLevel_def ClassUnknown_def

lemma class_distinct [simp]:
  "ClassPermanentHere \<noteq> ''''" "ClassTransientHere \<noteq> ''''" "ClassAccountLevel \<noteq> ''''" "ClassUnknown \<noteq> ''''"
  "ClassTransientHere \<noteq> ClassAccountLevel" "ClassAccountLevel \<noteq> ClassTransientHere"
  "ClassPermanentHere \<noteq> ClassTransientHere" "ClassTransientHere \<noteq> ClassPermanentHere"
  "ClassPermanentHere \<noteq> ClassAccountLevel" "ClassAccountLevel \<noteq> ClassPermanentHere"
  "ClassUnknown \<noteq> ClassAccountLevel" "ClassUnknown \<noteq> ClassTransientHere" "ClassUnknown \<noteq> ClassPermanentHere"
  by (simp_all add: class_defs)

lemmas class_distinct' [simp] = class_distinct(1-4) [symmetric]

subsection \<open>Errors of the HTTP lane\<close>

datatype ErrClass =
    ClassInvalidKey | ClassNoHandler | ClassBackendUnavailable | ClassRateLimited | ClassNoSource
  | ClassRepresentationLost | ClassUpstreamMalformed | OtherErrClass string

datatype go_error =
    Plain string
  | Wrapped string go_error
  | Joined "go_error list"
  | RetryableError go_error
  | classified go_error Class
  | HTTPError ErrClass string int "go_error option"

definition OutcomeClass_http :: "ErrClass \<Rightarrow> Class" where
  "OutcomeClass_http c =
     (case c of
        ClassRateLimited \<Rightarrow> ClassAccountLevel
      | ClassBackendUnavailable \<Rightarrow> ClassTransientHere
      | ClassInvalidKey \<Rightarrow> ClassPermanentHere
      | ClassNoHandler \<Rightarrow> ClassPermanentHere
      | ClassNoSource \<Rightarrow> ClassPermanentHere
      | ClassRepresentationLost \<Rightarrow> ClassPermanentHere
      | ClassUpstreamMalformed \<Rightarrow> ClassPermanentHere
      | OtherErrClass _ \<Rightarrow> ClassUnknown)"

definition Transient_http :: "ErrClass \<Rightarrow> bool" where
  "Transient_http c \<longleftrightarrow> c = ClassBackendUnavailable \<or> c = ClassRateLimited"

definition NewRateLimitError :: "string \<Rightarrow> go_error" where
  "NewRateLimitError rawRetryAfter =
     (let seconds = (case ParseInt 64 (TrimSpace rawRetryAfter) of
                       None \<Rightarrow> 30
                     | Some n \<Rightarrow> if n < 1 then 30 else n);
          seconds = (if seconds > 300 then 300 else seconds)
      in HTTPError ClassRateLimited ''backend rate limited'' seconds None)"

subsection \<open>Walking the chain of an error\<close>

text \<open>\<open>errors.As\<close> visits the error itself, then what it wraps, depth first.\<close>

fun chain :: "go_error \<Rightarrow> go_error list" where
  "chain (Plain m) = [Plain m]"
| "chain (Wrapped m e) = Wrapped m e # chain e"
| "chain (Joined es) = Joined es # concat (map chain es)"
| "chain (RetryableError e) = RetryableError e # chain e"
| "chain (classified e c) = classified e c # chain e"
| "chain (HTTPError c d s None) = [HTTPError c d s None]"
| "chain (HTTPError c d s (Some e)) = HTTPError c d s (Some e) # chain e"

text \<open>The \<open>Classifier\<close> interface: which error values have \<open>OutcomeClass\<close>, and what it returns.\<close>

fun OutcomeClass :: "go_error \<Rightarrow> Class option" where
  "OutcomeClass (classified e c) = Some c"
| "OutcomeClass (HTTPError c d s e) = Some (OutcomeClass_http c)"
| "OutcomeClass e = None"

fun first_some :: "('a \<Rightarrow> 'b option) \<Rightarrow> 'a list \<Rightarrow> 'b option" where
  "first_some f [] = None"
| "first_some f (x # xs) = (case f x of None \<Rightarrow> first_some f xs | Some y \<Rightarrow> Some y)"

definition is_RetryableError :: "go_error \<Rightarrow> bool" where
  "is_RetryableError e = (case e of RetryableError _ \<Rightarrow> True | _ \<Rightarrow> False)"

definition IsRetryable :: "go_error \<Rightarrow> bool" where
  "IsRetryable err = list_ex is_RetryableError (chain err)"

definition MarkRetryable :: "go_error option \<Rightarrow> go_error option" where
  "MarkRetryable err =
     (case err of
        None \<Rightarrow> None
      | Some e \<Rightarrow> if IsRetryable e then Some e else Some (RetryableError e))"

fun http_retry :: "go_error \<Rightarrow> int option" where
  "http_retry (HTTPError c d s e) = Some s"
| "http_retry e = None"

definition RetryAfter :: "go_error \<Rightarrow> duration" where
  "RetryAfter err =
     (case first_some http_retry (chain err) of
        Some s \<Rightarrow> if s > 0 then s * Second else 30 * Second
      | None \<Rightarrow> 30 * Second)"

fun http_class :: "go_error \<Rightarrow> ErrClass option" where
  "http_class (HTTPError c d s e) = Some c"
| "http_class e = None"

definition ClassOf :: "go_error \<Rightarrow> ErrClass option" where
  "ClassOf err = first_some http_class (chain err)"

definition Classify :: "go_error option \<Rightarrow> Class" where
  "Classify err =
     (case err of
        None \<Rightarrow> ''''
      | Some e \<Rightarrow>
          (case first_some OutcomeClass (chain e) of
             Some c \<Rightarrow> c
           | None \<Rightarrow> if IsRetryable e then ClassTransientHere else ClassUnknown))"

definition wrap :: "go_error option \<Rightarrow> Class \<Rightarrow> go_error option" where
  "wrap err class = (case err of None \<Rightarrow> None | Some e \<Rightarrow> Some (classified e class))"

definition Permanent :: "go_error option \<Rightarrow> go_error option" where
  "Permanent err = wrap err ClassPermanentHere"

definition Transient :: "go_error option \<Rightarrow> go_error option" where
  "Transient err = wrap err ClassTransientHere"

definition AccountLevel :: "go_error option \<Rightarrow> go_error option" where
  "AccountLevel err = wrap err ClassAccountLevel"

datatype TorrentOutcome =
    NoOutcome | TorrentOutcomeUnknown | TorrentOutcomeReady | TorrentOutcomeTerminalDeadSource
  | TorrentOutcomeDeadSentinel | TorrentOutcomeTransientError | TorrentOutcomeStalled
  | TorrentOutcomeCapacityLimited | TorrentOutcomeCancelled | TorrentOutcomeRemoteRemoved
  | OtherOutcome string

definition ClassifyTorrentOutcome :: "TorrentOutcome \<Rightarrow> Class" where
  "ClassifyTorrentOutcome o1 =
     (if o1 \<in> {NoOutcome, TorrentOutcomeReady} then ''''
      else if o1 \<in> {TorrentOutcomeTerminalDeadSource, TorrentOutcomeRemoteRemoved, TorrentOutcomeCancelled}
        then ClassPermanentHere
      else if o1 \<in> {TorrentOutcomeTransientError, TorrentOutcomeStalled, TorrentOutcomeDeadSentinel}
        then ClassTransientHere
      else if o1 = TorrentOutcomeCapacityLimited then ClassAccountLevel
      else ClassUnknown)"

subsection \<open>Classification\<close>

lemma first_some_append: "first_some f (xs @ ys) = (case first_some f xs of None \<Rightarrow> first_some f ys | Some y \<Rightarrow> Some y)"
  by (induction xs) (auto split: option.splits)

lemma first_some_None: "first_some f xs = None \<longleftrightarrow> (\<forall>x \<in> set xs. f x = None)"
  by (induction xs) (auto split: option.splits)

lemma first_some_mem: "first_some f xs = Some y \<Longrightarrow> \<exists>x \<in> set xs. f x = Some y"
  by (induction xs) (auto split: option.splits)

lemma OutcomeClass_http_named: "OutcomeClass_http c \<noteq> ''''"
  by (cases c) (simp_all add: OutcomeClass_http_def)

text \<open>The classes handed to \<open>wrap\<close> anywhere in an error.\<close>

definition wrapped_classes :: "go_error \<Rightarrow> Class list" where
  "wrapped_classes e = concat (map (\<lambda>x. case x of classified _ c \<Rightarrow> [c] | _ \<Rightarrow> []) (chain e))"

lemma Classify_nonempty:
  assumes "'''' \<notin> set (wrapped_classes e)"
  shows "Classify (Some e) \<noteq> ''''"
proof (cases "first_some OutcomeClass (chain e)")
  case None
  then show ?thesis by (simp add: Classify_def)
next
  case (Some c)
  from first_some_mem [OF Some] obtain x where x: "x \<in> set (chain e)" "OutcomeClass x = Some c"
    by auto
  have "c \<noteq> ''''"
  proof (cases x)
    case (classified e' c')
    with x have "c \<in> set (wrapped_classes e)"
      unfolding wrapped_classes_def by (auto intro!: bexI [of _ x])
    with assms show ?thesis by auto
  next
    case (HTTPError c' d s e')
    with x show ?thesis using OutcomeClass_http_named by auto
  qed (use x in auto)
  with Some show ?thesis by (simp add: Classify_def)
qed

text \<open>The vocabulary is total and stable under wrapping. A nil error has no class; marking an
  error with a class makes that its class, however it was classified before, and hides nothing
  from \<open>errors.As\<close>; adding a message with \<open>%w\<close> changes neither the class, the retry mark nor the
  lane's own class; and an error that was not given the empty class explicitly never looks like a
  success.\<close>

theorem classification_stable:
  "Classify None = '''' \<and>
   Classify (wrap (Some e) c) = c \<and>
   (\<forall>e'. wrap (Some e) c = Some e' \<longrightarrow> set (chain e) \<subseteq> set (chain e')) \<and>
   Classify (Some (Wrapped m e)) = Classify (Some e) \<and>
   IsRetryable (Wrapped m e) = IsRetryable e \<and> ClassOf (Wrapped m e) = ClassOf e \<and>
   RetryAfter (Wrapped m e) = RetryAfter e \<and>
   ('''' \<notin> set (wrapped_classes e) \<longrightarrow> Classify (Some e) \<noteq> '''')"
  using Classify_nonempty [of e]
  by (auto simp: Classify_def wrap_def IsRetryable_def ClassOf_def RetryAfter_def is_RetryableError_def)

theorem classification_stable_witness:
  "Classify (Some (Wrapped ''fetch'' (RetryableError (Plain ''eof'')))) = ClassTransientHere \<and>
   Classify (Some (Wrapped ''fetch'' (RetryableError (Plain ''eof'')))) \<noteq> ''''"
  using classification_stable [of "Wrapped ''fetch'' (RetryableError (Plain ''eof''))" ClassUnknown "''x''"]
  by (simp add: Classify_def IsRetryable_def is_RetryableError_def wrapped_classes_def)

lemma NewRateLimitError_bounds:
  "\<exists>s. NewRateLimitError raw = HTTPError ClassRateLimited ''backend rate limited'' s None \<and> 1 \<le> s \<and> s \<le> 300"
  by (auto simp: NewRateLimitError_def Let_def split: option.splits)

text \<open>A backend cannot make the lane wait for longer than five minutes or not at all: whatever
  \<open>Retry-After\<close> it sends, the error is account-level, transient for the lane, and its cooldown is
  between one second and 300 seconds; a plain number of seconds in that range is taken as it is.\<close>

theorem rate_limit_cooldown_bounded:
  "Second \<le> RetryAfter (NewRateLimitError raw) \<and> RetryAfter (NewRateLimitError raw) \<le> 300 * Second \<and>
   Classify (Some (NewRateLimitError raw)) = ClassAccountLevel \<and>
   (1 \<le> n \<and> n \<le> 300 \<longrightarrow> RetryAfter (NewRateLimitError (dec n)) = int n * Second)"
proof -
  obtain s where s: "NewRateLimitError raw = HTTPError ClassRateLimited ''backend rate limited'' s None" "1 \<le> s" "s \<le> 300"
    using NewRateLimitError_bounds by blast
  have "RetryAfter (NewRateLimitError (dec n)) = int n * Second" if "1 \<le> n" "n \<le> 300"
    using that ParseInt_dec [of n 64] by (simp add: NewRateLimitError_def RetryAfter_def)
  with s show ?thesis
    by (auto simp: RetryAfter_def Classify_def OutcomeClass_http_def Second_def)
qed

theorem rate_limit_cooldown_bounded_witness:
  "RetryAfter (NewRateLimitError (dec 45)) = 45 * Second"
  using rate_limit_cooldown_bounded [of "''''" 45] by simp

subsection \<open>The limiter\<close>

record limiterEntry =
  windowStart :: instant
  suppressed :: int

record Limiter =
  window :: duration
  entries :: "string \<rightharpoonup> limiterEntry"

definition DefaultWindow :: duration where "DefaultWindow = 30 * Second"

definition NewLimiter :: Limiter where
  "NewLimiter = \<lparr>window = DefaultWindow, entries = Map.empty\<rparr>"

definition SetWindow :: "Limiter \<Rightarrow> duration \<Rightarrow> Limiter" where
  "SetWindow l d = l\<lparr>window := d\<rparr>"

definition keySep :: char where "keySep = CHR 0x00"

definition dedupKey :: "string \<Rightarrow> Class \<Rightarrow> string \<Rightarrow> string" where
  "dedupKey itemID class key = itemID @ [keySep] @ class @ [keySep] @ key"

text \<open>A line of the log: the caller's own message, or a summary.\<close>

datatype log_line = Direct string | Summary string Class string int int

definition record_occurrence ::
  "Limiter \<Rightarrow> instant \<Rightarrow> string \<Rightarrow> Class \<Rightarrow> string \<Rightarrow> bool \<times> limiterEntry option \<times> Limiter" where
  "record_occurrence l now itemID class key =
     (let k = dedupKey itemID class key in
      case entries l k of
        None \<Rightarrow> (True, None, l\<lparr>entries := (entries l)(k \<mapsto> \<lparr>windowStart = now, suppressed = 0\<rparr>)\<rparr>)
      | Some e \<Rightarrow>
          if time_sub now (windowStart e) \<ge> window l then
            (True, if suppressed e > 0 then Some e else None,
             l\<lparr>entries := (entries l)(k \<mapsto> \<lparr>windowStart = now, suppressed = 0\<rparr>)\<rparr>)
          else
            (False, None, l\<lparr>entries := (entries l)(k \<mapsto> e\<lparr>suppressed := suppressed e + 1\<rparr>)\<rparr>))"

definition emitSummary :: "Limiter \<Rightarrow> string \<Rightarrow> Class \<Rightarrow> string \<Rightarrow> limiterEntry \<Rightarrow> log_line list" where
  "emitSummary l itemID class key e =
     (if suppressed e \<le> 0 then []
      else [Summary itemID class key (suppressed e) (go_div (window l) Second)])"

text \<open>\<open>Warn\<close> with a logger; without one it does nothing.\<close>

definition Warn :: "bool \<Rightarrow> Limiter \<Rightarrow> instant \<Rightarrow> string \<Rightarrow> Class \<Rightarrow> string \<Rightarrow> string \<Rightarrow> log_line list \<times> Limiter" where
  "Warn hasLog l now itemID class key msg =
     (if \<not> hasLog then ([], l)
      else
        (let (shouldLog, pending, l') = record_occurrence l now itemID class key in
         ((if shouldLog then [Direct msg] else []) @
          (case pending of None \<Rightarrow> [] | Some e \<Rightarrow> emitSummary l' itemID class key e), l')))"

definition Flush :: "Limiter \<Rightarrow> string \<Rightarrow> Class \<Rightarrow> string \<Rightarrow> log_line list \<times> Limiter" where
  "Flush l itemID class key =
     (let k = dedupKey itemID class key in
      case entries l k of
        None \<Rightarrow> ([], l)
      | Some e \<Rightarrow>
          (let l' = l\<lparr>entries := (entries l)(k := None)\<rparr>
           in (if suppressed e > 0 then emitSummary l' itemID class key e else [], l')))"

text \<open>\<open>strings.SplitN(k, sep, 3)\<close> for a separator of one byte.\<close>

definition SplitN3 :: "string \<Rightarrow> char \<Rightarrow> string list" where
  "SplitN3 k sep =
     (case IndexByte k sep of
        None \<Rightarrow> [k]
      | Some i \<Rightarrow>
          (let r = drop (Suc i) k in
           case IndexByte r sep of
             None \<Rightarrow> [take i k, r]
           | Some j \<Rightarrow> [take i k, take j r, drop (Suc j) r]))"

text \<open>
  \<open>FlushItem\<close> ranges over the map; \<open>order\<close> is the order in which this run visits its keys.
\<close>

definition FlushItem :: "Limiter \<Rightarrow> string list \<Rightarrow> string \<Rightarrow> log_line list \<times> Limiter" where
  "FlushItem l order itemID =
     (let mine = filter (\<lambda>k. HasPrefix k (itemID @ [keySep])) order;
          l' = l\<lparr>entries := (\<lambda>k. if k \<in> set mine then None else entries l k)\<rparr>
      in (concat (map (\<lambda>k. case entries l k of
            None \<Rightarrow> []
          | Some e \<Rightarrow>
              if suppressed e > 0 \<and> length (SplitN3 k keySep) = 3
              then emitSummary l' itemID (SplitN3 k keySep ! 1) (SplitN3 k keySep ! 2) e else []) mine), l'))"

subsection \<open>No occurrence is lost\<close>

definition clean :: "string \<Rightarrow> bool" where
  "clean s \<longleftrightarrow> keySep \<notin> set s"

lemma SplitN3_dedupKey: "clean i \<Longrightarrow> clean c \<Longrightarrow> SplitN3 (dedupKey i c k) keySep = [i, c, k]"
proof -
  assume "clean i" "clean c"
  then have "IndexByte (dedupKey i c k) keySep = Some (length i)"
    and "IndexByte (c @ keySep # k) keySep = Some (length c)"
    by (auto simp: dedupKey_def clean_def)
  then show ?thesis by (simp add: SplitN3_def dedupKey_def)
qed

lemma dedupKey_inject:
  "clean i \<Longrightarrow> clean c \<Longrightarrow> clean i' \<Longrightarrow> clean c' \<Longrightarrow>
   dedupKey i c k = dedupKey i' c' k' \<longleftrightarrow> i = i' \<and> c = c' \<and> k = k'"
  by (metis SplitN3_dedupKey list.inject)

record call =
  c_at :: instant
  c_item :: string
  c_cls :: Class
  c_op :: string
  c_msg :: string

fun run_warns :: "Limiter \<Rightarrow> call list \<Rightarrow> (call \<times> log_line) list \<times> Limiter" where
  "run_warns l [] = ([], l)"
| "run_warns l (c # cs) =
     (let (out, l1) = Warn True l (c_at c) (c_item c) (c_cls c) (c_op c) (c_msg c);
          (outs, l2) = run_warns l1 cs
      in (map (Pair c) out @ outs, l2))"

text \<open>How many occurrences a line accounts for.\<close>

fun weight :: "log_line \<Rightarrow> int" where
  "weight (Direct m) = 1"
| "weight (Summary i c k n w) = n"

definition same :: "string \<Rightarrow> Class \<Rightarrow> string \<Rightarrow> call \<Rightarrow> bool" where
  "same i c k x \<longleftrightarrow> c_item x = i \<and> c_cls x = c \<and> c_op x = k"

definition accounted :: "string \<Rightarrow> Class \<Rightarrow> string \<Rightarrow> (call \<times> log_line) list \<Rightarrow> int" where
  "accounted i c k out = sum_list (map (weight \<circ> snd) (filter (same i c k \<circ> fst) out))"

definition pending_of :: "Limiter \<Rightarrow> string \<Rightarrow> Class \<Rightarrow> string \<Rightarrow> int" where
  "pending_of l i c k = (case entries l (dedupKey i c k) of None \<Rightarrow> 0 | Some e \<Rightarrow> suppressed e)"

definition counts_ok :: "Limiter \<Rightarrow> bool" where
  "counts_ok l \<longleftrightarrow> (\<forall>k e. entries l k = Some e \<longrightarrow> 0 \<le> suppressed e)"

lemma Warn_accounts:
  assumes "clean i" "clean c" "clean (c_item x)" "clean (c_cls x)" "counts_ok l"
    and "Warn True l (c_at x) (c_item x) (c_cls x) (c_op x) (c_msg x) = (out, l')"
  shows "counts_ok l' \<and>
    accounted i c k (map (Pair x) out) + pending_of l' i c k = pending_of l i c k + (if same i c k x then 1 else 0)"
proof -
  have key: "dedupKey i c k = dedupKey (c_item x) (c_cls x) (c_op x) \<longleftrightarrow> same i c k x"
    using dedupKey_inject [OF assms(1-4)] by (auto simp: same_def)
  let ?k = "dedupKey (c_item x) (c_cls x) (c_op x)"
  obtain sl pend where r: "record_occurrence l (c_at x) (c_item x) (c_cls x) (c_op x) = (sl, pend, l')"
    and out: "out = (if sl then [Direct (c_msg x)] else []) @
        (case pend of None \<Rightarrow> [] | Some e \<Rightarrow> emitSummary l' (c_item x) (c_cls x) (c_op x) e)"
    using assms(6) by (auto simp: Warn_def split: prod.splits)
  have nn: "0 \<le> suppressed e" if "entries l ?k = Some e" for e
    using assms(5) that by (simp add: counts_ok_def)
  have ok: "counts_ok l'"
    using r assms(5) nn
    by (auto simp: record_occurrence_def counts_ok_def Let_def split: option.splits if_splits)
  show ?thesis
  proof (cases "same i c k x")
    case False
    then have "pending_of l' i c k = pending_of l i c k"
      using r key by (auto simp: record_occurrence_def pending_of_def Let_def split: option.splits if_splits)
    with False ok show ?thesis by (simp add: accounted_def)
  next
    case True
    then have k: "dedupKey i c k = ?k" using key by simp
    from True have "accounted i c k (map (Pair x) out) = sum_list (map weight out)"
      by (simp add: accounted_def comp_def)
    with True ok r out nn k show ?thesis
      by (auto simp: record_occurrence_def pending_of_def emitSummary_def Let_def split: option.splits if_splits)
  qed
qed

lemma accounted_append: "accounted i c k (xs @ ys) = accounted i c k xs + accounted i c k ys"
  by (simp add: accounted_def)

lemma run_warns_accounts:
  assumes "clean i" "clean c" "counts_ok l" "\<forall>x \<in> set cs. clean (c_item x) \<and> clean (c_cls x)"
    and "run_warns l cs = (out, l')"
  shows "counts_ok l' \<and>
    accounted i c k out + pending_of l' i c k = pending_of l i c k + int (length (filter (same i c k) cs))"
  using assms
proof (induction cs arbitrary: l out)
  case Nil
  then show ?case by (simp add: accounted_def)
next
  case (Cons x cs)
  obtain o1 l1 where w: "Warn True l (c_at x) (c_item x) (c_cls x) (c_op x) (c_msg x) = (o1, l1)" by fastforce
  obtain o2 where r: "run_warns l1 cs = (o2, l')" and out: "out = map (Pair x) o1 @ o2"
    using Cons.prems(5) w by (auto split: prod.splits)
  have "counts_ok l1" and "accounted i c k (map (Pair x) o1) + pending_of l1 i c k =
      pending_of l i c k + (if same i c k x then 1 else 0)"
    using Warn_accounts [OF Cons.prems(1,2) _ _ Cons.prems(3) w] Cons.prems(4) by auto
  moreover from this(1) have "counts_ok l' \<and> accounted i c k o2 + pending_of l' i c k =
      pending_of l1 i c k + int (length (filter (same i c k) cs))"
    using Cons.IH [OF Cons.prems(1,2) _ _ r] Cons.prems(4) by auto
  ultimately show ?case by (cases "same i c k x") (auto simp: out accounted_append)
qed

definition summary_for :: "string \<Rightarrow> Class \<Rightarrow> string \<Rightarrow> log_line list \<Rightarrow> int" where
  "summary_for i c k out = sum_list (map weight
     (filter (\<lambda>l. case l of Summary i' c' k' _ _ \<Rightarrow> i' = i \<and> c' = c \<and> k' = k | Direct _ \<Rightarrow> False) out))"

lemma summary_for_concat:
  "summary_for i c k (concat xss) = sum_list (map (summary_for i c k) xss)"
  by (induction xss) (simp_all add: summary_for_def)

lemma sum_list_single:
  "distinct xs \<Longrightarrow> (\<And>y. y \<in> set xs \<Longrightarrow> y \<noteq> x \<Longrightarrow> f y = (0 :: int)) \<Longrightarrow>
   sum_list (map f xs) = (if x \<in> set xs then f x else 0)"
proof (induction xs)
  case Nil
  then show ?case by simp
next
  case (Cons a xs)
  then have "sum_list (map f xs) = (if x \<in> set xs then f x else 0)" by simp
  with Cons.prems show ?case by (cases "a = x") auto
qed

lemma FlushItem_accounts:
  assumes "clean i" "clean c" "counts_ok l"
    and keys: "\<And>key. key \<in> dom (entries l) \<Longrightarrow> \<exists>i' c' k'. key = dedupKey i' c' k' \<and> clean i' \<and> clean c'"
    and order: "distinct order" "set order = dom (entries l)"
    and run: "FlushItem l order i = (out, l')"
  shows "summary_for i c k out = pending_of l i c k \<and> pending_of l' i c k = 0"
proof -
  let ?K = "dedupKey i c k"
  define mine where "mine = filter (\<lambda>k. HasPrefix k (i @ [keySep])) order"
  define g where "g key = (case entries l key of None \<Rightarrow> []
          | Some e \<Rightarrow> if suppressed e > 0 \<and> length (SplitN3 key keySep) = 3
              then emitSummary l' i (SplitN3 key keySep ! 1) (SplitN3 key keySep ! 2) e else [])" for key
  have l': "l' = l\<lparr>entries := (\<lambda>k. if k \<in> set mine then None else entries l k)\<rparr>"
    using run by (auto simp: FlushItem_def Let_def mine_def)
  have out: "out = concat (map g mine)"
    using run unfolding g_def l' mine_def FlushItem_def Let_def by simp
  have pre: "HasPrefix ?K (i @ [keySep])"
    by (simp add: HasPrefix_def dedupKey_def)
  have other: "summary_for i c k (g key) = 0" if m: "key \<in> set mine" and ne: "key \<noteq> ?K" for key
  proof -
    have "key \<in> dom (entries l)" using m order(2) by (auto simp: mine_def)
    from keys [OF this] obtain i' c' k' where key: "key = dedupKey i' c' k'" "clean i'" "clean c'"
      by auto
    then have split: "SplitN3 key keySep = [i', c', k']" by (simp add: SplitN3_dedupKey)
    have "i' = i"
    proof -
      have "IndexByte key keySep = Some (length i')"
        using key by (simp add: dedupKey_def clean_def)
      moreover have "IndexByte key keySep = Some (length i)"
      proof -
        have "take (length (i @ [keySep])) key = i @ [keySep]"
          using m by (auto simp: mine_def HasPrefix_def)
        then have "key = (i @ [keySep]) @ drop (length (i @ [keySep])) key"
          by (metis append_take_drop_id)
        then obtain r where "key = i @ keySep # r" by (metis append.assoc append_Cons append_Nil)
        then show ?thesis using assms(1) by (simp add: clean_def)
      qed
      ultimately have "length i = length i'" by simp
      with m key show ?thesis by (auto simp: mine_def HasPrefix_def dedupKey_def)
    qed
    with ne key have "c' \<noteq> c \<or> k' \<noteq> k" by auto
    then show ?thesis
      using split by (auto simp: g_def summary_for_def emitSummary_def split: option.splits)
  qed
  have "distinct mine" using order(1) by (simp add: mine_def)
  then have "sum_list (map (\<lambda>key. summary_for i c k (g key)) mine) =
      (if ?K \<in> set mine then summary_for i c k (g ?K) else 0)"
    using other by (intro sum_list_single) auto
  then have "summary_for i c k out = (if ?K \<in> set mine then summary_for i c k (g ?K) else 0)"
    by (simp add: out summary_for_concat comp_def)
  also have "\<dots> = pending_of l i c k"
  proof (cases "entries l ?K")
    case None
    then show ?thesis using order(2) by (auto simp: mine_def pending_of_def domIff)
  next
    case (Some e)
    then have "?K \<in> set mine" using order(2) pre by (auto simp: mine_def)
    moreover have "0 \<le> suppressed e" using assms(3) Some by (simp add: counts_ok_def)
    ultimately show ?thesis
      using Some SplitN3_dedupKey [OF assms(1,2), of k]
      by (auto simp: g_def summary_for_def emitSummary_def pending_of_def)
  qed
  finally show ?thesis
    using pre order(2) by (auto simp: l' pending_of_def mine_def domIff split: option.splits)
qed

definition keys_ok :: "Limiter \<Rightarrow> bool" where
  "keys_ok l \<longleftrightarrow> finite (dom (entries l)) \<and>
     (\<forall>key \<in> dom (entries l). \<exists>i c k. key = dedupKey i c k \<and> clean i \<and> clean c)"

lemma Warn_keys:
  assumes "keys_ok l" and "clean (c_item x)" and "clean (c_cls x)"
    and "Warn True l (c_at x) (c_item x) (c_cls x) (c_op x) (c_msg x) = (out, l')"
  shows "keys_ok l'"
proof -
  have "dom (entries l') = insert (dedupKey (c_item x) (c_cls x) (c_op x)) (dom (entries l))"
    using assms(4) by (auto simp: Warn_def record_occurrence_def Let_def split: option.splits if_splits)
  with assms(1-3) show ?thesis by (auto simp: keys_ok_def)
qed

lemma run_warns_keys:
  "keys_ok l \<Longrightarrow> \<forall>x \<in> set cs. clean (c_item x) \<and> clean (c_cls x) \<Longrightarrow> run_warns l cs = (out, l') \<Longrightarrow> keys_ok l'"
proof (induction cs arbitrary: l out)
  case Nil
  then show ?case by simp
next
  case (Cons x cs)
  obtain o1 l1 where w: "Warn True l (c_at x) (c_item x) (c_cls x) (c_op x) (c_msg x) = (o1, l1)" by fastforce
  obtain o2 where r: "run_warns l1 cs = (o2, l')"
    using Cons.prems(3) w by (auto split: prod.splits)
  have "keys_ok l1" using Warn_keys [OF Cons.prems(1) _ _ w] Cons.prems(2) by simp
  with Cons.IH r Cons.prems(2) show ?case by simp
qed

text \<open>C13: rate limiting never loses an occurrence. After any sequence of warnings about any items and
  a final \<open>FlushItem\<close>, whatever order the map is ranged over, the lines logged for an item, class
  and operation account for every warning about it: one per line logged directly plus the counts
  of the summaries.\<close>

theorem limiter_conserves_occurrences:
  assumes "run_warns NewLimiter calls = (out, l)" and "FlushItem l order i = (flushed, l')"
    and "distinct order" and "set order = dom (entries l)"
    and "\<forall>x \<in> set calls. clean (c_item x) \<and> clean (c_cls x)" and "clean i" and "clean c"
  shows "accounted i c k out + summary_for i c k flushed = int (length (filter (same i c k) calls))"
proof -
  have start: "counts_ok NewLimiter" "keys_ok NewLimiter" "pending_of NewLimiter i c k = 0"
    by (simp_all add: counts_ok_def keys_ok_def pending_of_def NewLimiter_def)
  have "counts_ok l" and acc: "accounted i c k out + pending_of l i c k = int (length (filter (same i c k) calls))"
    using run_warns_accounts [OF assms(6,7) start(1) assms(5,1), of k] start(3) by auto
  moreover have "keys_ok l" by (rule run_warns_keys [OF start(2) assms(5,1)])
  ultimately have "summary_for i c k flushed = pending_of l i c k"
    using FlushItem_accounts [OF assms(6,7) _ _ assms(3,4,2), of k] by (auto simp: keys_ok_def)
  with acc show ?thesis by simp
qed

theorem limiter_conserves_occurrences_witness:
  "\<exists>out l flushed l'.
     run_warns NewLimiter [\<lparr>c_at = 0, c_item = ''a'', c_cls = ClassUnknown, c_op = ''f'', c_msg = ''m''\<rparr>,
       \<lparr>c_at = 1, c_item = ''a'', c_cls = ClassUnknown, c_op = ''f'', c_msg = ''m''\<rparr>] = (out, l) \<and>
     FlushItem l [dedupKey ''a'' ClassUnknown ''f''] ''a'' = (flushed, l') \<and>
     accounted ''a'' ClassUnknown ''f'' out + summary_for ''a'' ClassUnknown ''f'' flushed = 2"
proof -
  let ?cs = "[\<lparr>c_at = 0, c_item = ''a'', c_cls = ClassUnknown, c_op = ''f'', c_msg = ''m''\<rparr>,
       \<lparr>c_at = 1, c_item = ''a'', c_cls = ClassUnknown, c_op = ''f'', c_msg = ''m''\<rparr>]"
  obtain out l where r: "run_warns NewLimiter ?cs = (out, l)" by fastforce
  obtain flushed l' where f: "FlushItem l [dedupKey ''a'' ClassUnknown ''f''] ''a'' = (flushed, l')" by fastforce
  have "dom (entries l) = {dedupKey ''a'' ClassUnknown ''f''}"
    using r by (auto simp: Warn_def record_occurrence_def NewLimiter_def DefaultWindow_def Second_def
        time_sub_def MinInt64_def MaxInt64_def split: if_splits)
  then have "accounted ''a'' ClassUnknown ''f'' out + summary_for ''a'' ClassUnknown ''f'' flushed =
      int (length (filter (same ''a'' ClassUnknown ''f'') ?cs))"
    using limiter_conserves_occurrences [OF r f] by (simp add: clean_def keySep_def class_defs)
  with r f show ?thesis by (auto simp: same_def)
qed

end
