(* ===== verification/Ladder.thy ===== *)
theory Ladder
  imports AccountGov Outcome
begin

section \<open>The acquisition ladder\<close>

text \<open>
  Models \<open>internal/ladder/ladder.go\<close>: \<open>Run\<close> walks named rungs in order, retries a transient rung
  within its budget, takes a lease of the account governor around every attempt and stops on an
  account-level outcome. What the code calls is an argument: \<open>ctx.Err\<close>, the governor's
  \<open>Acquire\<close> and \<open>Release\<close> and each rung's \<open>Attempt\<close> act on one state \<open>'s\<close>.

  The locale \<open>lease_pool\<close> states what the ladder relies on: a lease taken and given back leaves
  the pool balanced, whatever others did meanwhile. Its interpretation is one caller among the callers
  of the governor of \<open>AccountGov\<close>, whose calls are interleaved with its own.
\<close>

record 's Rung =
  r_name :: string
  r_op :: string
  r_priority :: priority
  r_max :: int
  r_attempt :: "'s \<Rightarrow> go_error option \<times> 's"

record RungResult =
  rr_name :: string
  rr_attempts :: int
  rr_class :: Class
  rr_err :: "go_error option"

record Result =
  Succeeded :: bool
  StoppedAt :: string
  Rungs :: "RungResult list"

datatype run_error = ErrAccountLevel | ErrExhausted | ErrWalk go_error

text \<open>The calls a ladder makes. \<open>hasGov\<close> is false for a ladder built without a governor.\<close>

record 's ladder_env =
  hasGov :: bool
  ctxErr :: "'s \<Rightarrow> go_error option"
  acquire :: "string \<Rightarrow> priority \<Rightarrow> string \<Rightarrow> 's \<Rightarrow> go_error option \<times> 's"
  unlease :: "string \<Rightarrow> 's \<Rightarrow> 's"

definition leaseFor :: "'s ladder_env \<Rightarrow> 's Rung \<Rightarrow> string \<Rightarrow> 's \<Rightarrow> go_error option \<times> 's" where
  "leaseFor env rung session s =
     (if hasGov env then acquire env (r_op rung) (r_priority rung) session s else (None, s))"

definition giveBack :: "'s ladder_env \<Rightarrow> 's Rung \<Rightarrow> 's \<Rightarrow> 's" where
  "giveBack env rung s = (if hasGov env then unlease env (r_op rung) s else s)"

text \<open>The loop \<open>for attempt := 1; attempt <= max; attempt++\<close> of \<open>runRung\<close>.\<close>

function rungLoop ::
  "'s ladder_env \<Rightarrow> 's Rung \<Rightarrow> string \<Rightarrow> int \<Rightarrow> int \<Rightarrow> RungResult \<Rightarrow> Class \<Rightarrow> 's \<Rightarrow>
   (RungResult \<times> Class \<times> go_error option) \<times> 's" where
  "rungLoop env rung session maxA attempt rr lastClass s =
     (if attempt > maxA then ((rr, lastClass, None), s)
      else
        case ctxErr env s of
          Some e \<Rightarrow> ((rr\<lparr>rr_attempts := attempt - 1, rr_err := Some e\<rparr>, '''', Some e), s)
        | None \<Rightarrow>
            (case leaseFor env rung session s of
               (Some e, s1) \<Rightarrow> ((rr\<lparr>rr_attempts := attempt, rr_err := Some e\<rparr>, '''', Some e), s1)
             | (None, s1) \<Rightarrow>
                 (case r_attempt rung s1 of (err, s2) \<Rightarrow>
                    let s3 = giveBack env rung s2;
                        rr1 = rr\<lparr>rr_attempts := attempt\<rparr>
                    in case err of
                         None \<Rightarrow> ((rr1\<lparr>rr_class := '''', rr_err := None\<rparr>, '''', None), s3)
                       | Some e \<Rightarrow>
                           let class = Classify (Some e);
                               rr2 = rr1\<lparr>rr_class := class, rr_err := Some e\<rparr>
                           in if class = ClassTransientHere \<and> attempt < maxA
                              then rungLoop env rung session maxA (attempt + 1) rr2 class s3
                              else ((rr2, class, None), s3))))"
  by pat_completeness auto
termination
  by (relation "measure (\<lambda>(env, rung, session, maxA, attempt, rr, lastClass, s). nat (maxA + 1 - attempt))") auto

declare rungLoop.simps [simp del]

definition attempt_budget :: "'s Rung \<Rightarrow> int" where
  "attempt_budget rung = (if r_max rung < 1 then 1 else r_max rung)"

definition runRung ::
  "'s ladder_env \<Rightarrow> 's Rung \<Rightarrow> string \<Rightarrow> 's \<Rightarrow> (RungResult \<times> Class \<times> go_error option) \<times> 's" where
  "runRung env rung session s =
     rungLoop env rung session (attempt_budget rung) 1
       \<lparr>rr_name = r_name rung, rr_attempts = 0, rr_class = '''', rr_err = None\<rparr> '''' s"

fun walk :: "'s ladder_env \<Rightarrow> string \<Rightarrow> 's Rung list \<Rightarrow> Result \<Rightarrow> 's \<Rightarrow> (Result \<times> run_error option) \<times> 's" where
  "walk env session [] res s = ((res, Some ErrExhausted), s)"
| "walk env session (rung # rs) res s =
     (case runRung env rung session s of ((rr, class, err), s1) \<Rightarrow>
        let res1 = res\<lparr>Rungs := Rungs res @ [rr]\<rparr> in
        case err of
          Some e \<Rightarrow> ((res1\<lparr>StoppedAt := r_name rung\<rparr>, Some (ErrWalk e)), s1)
        | None \<Rightarrow>
            if class = '''' then ((res1\<lparr>Succeeded := True, StoppedAt := r_name rung\<rparr>, None), s1)
            else if class = ClassAccountLevel
              then ((res1\<lparr>StoppedAt := r_name rung\<rparr>, Some ErrAccountLevel), s1)
            else walk env session rs res1 s1)"

definition Run :: "'s ladder_env \<Rightarrow> 's Rung list \<Rightarrow> string \<Rightarrow> 's \<Rightarrow> (Result \<times> run_error option) \<times> 's" where
  "Run env rungs session s = walk env session rungs \<lparr>Succeeded = False, StoppedAt = '''', Rungs = []\<rparr> s"

subsection \<open>One rung\<close>

text \<open>What a finished rung reports, and when the walk goes on past it.\<close>

definition rung_report :: "'s Rung \<Rightarrow> RungResult \<Rightarrow> Class \<Rightarrow> go_error option \<Rightarrow> bool" where
  "rung_report rung rr class err \<longleftrightarrow>
     rr_name rr = r_name rung \<and> 0 \<le> rr_attempts rr \<and> rr_attempts rr \<le> attempt_budget rung \<and>
     (err = None \<longrightarrow> 1 \<le> rr_attempts rr \<and> rr_class rr = class \<and> class = Classify (rr_err rr) \<and>
        (class = ClassTransientHere \<longrightarrow> rr_attempts rr = attempt_budget rung)) \<and>
     (err \<noteq> None \<longrightarrow> rr_err rr = err)"

lemma rungLoop_report:
  assumes "rungLoop env rung session maxA attempt rr lastClass s = ((rr', class, err), s')"
    and "maxA = attempt_budget rung" and "1 \<le> attempt" and "attempt \<le> maxA" and "rr_name rr = r_name rung"
  shows "rung_report rung rr' class err"
  using assms
proof (induction env rung session maxA attempt rr lastClass s rule: rungLoop.induct)
  case (1 env rung session maxA attempt rr lastClass s)
  note run = "1.prems"(1) [unfolded rungLoop.simps [of env rung session maxA attempt rr lastClass s]]
  note here = "1.prems"(2-5)
  show ?case
  proof (cases "ctxErr env s")
    case (Some e)
    with run here show ?thesis by (auto simp: rung_report_def)
  next
    case None
    obtain le s1 where l: "leaseFor env rung session s = (le, s1)" by fastforce
    show ?thesis
    proof (cases le)
      case (Some e)
      with None l run here show ?thesis by (auto simp: rung_report_def)
    next
      case lNone: None
      obtain ae s2 where a: "r_attempt rung s1 = (ae, s2)" by fastforce
      show ?thesis
      proof (cases "\<exists>e. ae = Some e \<and> Classify (Some e) = ClassTransientHere \<and> attempt < maxA")
        case True
        then obtain e where e: "ae = Some e" "Classify (Some e) = ClassTransientHere" "attempt < maxA" by auto
        have "rungLoop env rung session maxA (attempt + 1)
            (rr\<lparr>rr_attempts := attempt, rr_class := Classify (Some e), rr_err := Some e\<rparr>)
            (Classify (Some e)) (giveBack env rung s2) = ((rr', class, err), s')"
          using run here None l lNone a e by (simp add: Let_def)
        then show ?thesis
          using "1.IH" [OF _ None l [symmetric] lNone a [symmetric] refl refl e(1) refl refl] here e by simp
      next
        case False
        with None l lNone a run here show ?thesis
          by (auto simp: rung_report_def Let_def Classify_def [of None] split: option.splits if_splits)
      qed
    qed
  qed
qed

lemma runRung_report: "runRung env rung session s = ((rr, class, err), s') \<Longrightarrow> rung_report rung rr class err"
  unfolding runRung_def by (erule rungLoop_report) (simp_all add: attempt_budget_def)

subsection \<open>The walk\<close>

definition passed :: "'s Rung \<Rightarrow> RungResult \<Rightarrow> bool" where
  "passed rung rr \<longleftrightarrow> rung_report rung rr (rr_class rr) None \<and>
     rr_class rr \<noteq> '''' \<and> rr_class rr \<noteq> ClassAccountLevel"

text \<open>
  The contract of a walk over \<open>rungs\<close>: the rungs tried are an initial part of the ladder in order,
  all but the last of them were given up for good, and the returned error says how the last ended.
\<close>

definition walk_spec :: "'s Rung list \<Rightarrow> Result \<Rightarrow> run_error option \<Rightarrow> bool" where
  "walk_spec rungs res err \<longleftrightarrow>
     (case err of
        Some ErrExhausted \<Rightarrow>
          \<not> Succeeded res \<and> list_all2 passed rungs (Rungs res)
      | _ \<Rightarrow>
          (\<exists>before rung after rrs rr. rungs = before @ rung # after \<and> Rungs res = rrs @ [rr] \<and>
             list_all2 passed before rrs \<and> StoppedAt res = r_name rung \<and>
             (case err of
                None \<Rightarrow> Succeeded res \<and> rung_report rung rr '''' None
              | Some ErrAccountLevel \<Rightarrow> \<not> Succeeded res \<and> rung_report rung rr ClassAccountLevel None
              | Some (ErrWalk e) \<Rightarrow> \<not> Succeeded res \<and> rung_report rung rr '''' (Some e)
              | Some ErrExhausted \<Rightarrow> False)))"

lemma walk_stops:
  assumes "list_all2 passed before rrs" and "rungs = before @ rung # after" and "Rungs res = rrs @ [rr]"
    and "StoppedAt res = r_name rung"
    and "case err of
           None \<Rightarrow> Succeeded res \<and> rung_report rung rr '''' None
         | Some ErrAccountLevel \<Rightarrow> \<not> Succeeded res \<and> rung_report rung rr ClassAccountLevel None
         | Some (ErrWalk e) \<Rightarrow> \<not> Succeeded res \<and> rung_report rung rr '''' (Some e)
         | Some ErrExhausted \<Rightarrow> False"
  shows "walk_spec rungs res err"
proof -
  have "err \<noteq> Some ErrExhausted" using assms(5) by auto
  with assms show ?thesis
    unfolding walk_spec_def by (cases err) (fastforce split: run_error.splits)+
qed

lemma walk_meets_spec:
  assumes "walk env session todo res s = ((res', err), s')"
    and "list_all2 passed seen (Rungs res)" and "\<not> Succeeded res" and "StoppedAt res = ''''"
  shows "walk_spec (seen @ todo) res' err"
  using assms
proof (induction todo arbitrary: seen res s)
  case Nil
  then show ?case by (auto simp: walk_spec_def)
next
  case (Cons rung rs)
  obtain rr clas e s1 where r: "runRung env rung session s = ((rr, clas, e), s1)"
    by (metis prod.collapse)
  note rep = runRung_report [OF r]
  show ?case
  proof (cases "e = None \<and> clas \<noteq> '''' \<and> clas \<noteq> ClassAccountLevel")
    case True
    then have p: "passed rung rr" using rep by (auto simp: passed_def rung_report_def)
    have "walk env session rs (res\<lparr>Rungs := Rungs res @ [rr]\<rparr>) s1 = ((res', err), s')"
      using Cons.prems(1) r True by (simp add: Let_def)
    moreover have "list_all2 passed (seen @ [rung]) (Rungs res @ [rr])"
      using Cons.prems(2) p by (simp add: list_all2_appendI)
    ultimately have "walk_spec ((seen @ [rung]) @ rs) res' err"
      using Cons.IH [of _ _ "seen @ [rung]"] True Cons.prems(3,4) by simp
    then show ?thesis by simp
  next
    case False
    show ?thesis
      by (rule walk_stops [OF Cons.prems(2) refl, of _ rr])
        (use False r rep Cons.prems in \<open>auto simp: rung_report_def Let_def split: option.splits if_splits\<close>)
  qed
qed

text \<open>The name the walk reports on exhaustion, where the comment on \<open>StoppedAt\<close> and the code differ.\<close>

lemma walk_exhausted_name: "walk env session rungs res s = ((res', Some ErrExhausted), s') \<Longrightarrow> StoppedAt res' = StoppedAt res"
proof (induction rungs arbitrary: res s)
  case (Cons rung rs)
  obtain rr clas e s1 where r: "runRung env rung session s = ((rr, clas, e), s1)" by (metis prod.collapse)
  then have "walk env session rs (res\<lparr>Rungs := Rungs res @ [rr]\<rparr>) s1 = ((res', Some ErrExhausted), s')"
    using Cons.prems by (auto simp: Let_def split: option.splits if_splits)
  from Cons.IH [OF this] show ?case by simp
qed simp

lemma exhausted_names_no_rung: "Run env rungs session s = ((res, Some ErrExhausted), s') \<Longrightarrow> StoppedAt res = ''''"
  unfolding Run_def by (drule walk_exhausted_name) simp

text \<open>C11: whatever the context, the governor and the attempts do, \<open>Run\<close> meets the ladder contract: it
  tries the rungs in order, each within its budget, leaves a rung behind only when it was
  permanent, unknown, or transient with its budget used up, stops at the first success or
  account-level outcome, and reports exhaustion only when every rung was left behind. If no
  attempt returns an error with an explicitly empty class, a run that succeeded ended with an
  attempt that returned no error.\<close>

theorem ladder_walk_contract:
  assumes "Run env rungs session s = ((res, err), s')"
  shows "walk_spec rungs res err \<and>
    ((\<forall>rr \<in> set (Rungs res). \<forall>e. rr_err rr = Some e \<longrightarrow> '''' \<notin> set (wrapped_classes e)) \<and> err = None \<longrightarrow>
       Rungs res \<noteq> [] \<and> rr_err (last (Rungs res)) = None)"
proof -
  have spec: "walk_spec rungs res err"
    using walk_meets_spec [of env session rungs _ s res err s' "[]"] assms by (simp add: Run_def)
  moreover have "Rungs res \<noteq> [] \<and> rr_err (last (Rungs res)) = None"
    if named: "\<forall>rr \<in> set (Rungs res). \<forall>e. rr_err rr = Some e \<longrightarrow> '''' \<notin> set (wrapped_classes e)" and ok: "err = None"
  proof -
    obtain rrs rr where rr: "Rungs res = rrs @ [rr]" "Classify (rr_err rr) = ''''"
      using spec ok by (auto simp: walk_spec_def rung_report_def)
    then have "rr_err rr = None"
      using named rr(1) Classify_nonempty by (cases "rr_err rr") auto
    with rr(1) show ?thesis by simp
  qed
  ultimately show ?thesis by blast
qed

text \<open>A ladder of two rungs: the first fails with a transient error twice, the second succeeds.\<close>

definition demo_env :: "nat ladder_env" where
  "demo_env = \<lparr>hasGov = False, ctxErr = (\<lambda>_. None), acquire = (\<lambda>_ _ _ s. (None, s)), unlease = (\<lambda>_ s. s)\<rparr>"

definition demo_rungs :: "nat Rung list" where
  "demo_rungs =
     [\<lparr>r_name = ''cache'', r_op = ''o'', r_priority = 0, r_max = 2,
       r_attempt = (\<lambda>s. (Transient (Some (Plain ''eof'')), Suc s))\<rparr>,
      \<lparr>r_name = ''repair'', r_op = ''o'', r_priority = 0, r_max = 0, r_attempt = (\<lambda>s. (None, Suc s))\<rparr>]"

lemma demo_run: "Run demo_env demo_rungs ''x'' 0 =
    ((\<lparr>Succeeded = True, StoppedAt = ''repair'',
       Rungs = [\<lparr>rr_name = ''cache'', rr_attempts = 2, rr_class = ClassTransientHere,
                 rr_err = Some (classified (Plain ''eof'') ClassTransientHere)\<rparr>,
                \<lparr>rr_name = ''repair'', rr_attempts = 1, rr_class = '''', rr_err = None\<rparr>]\<rparr>, None), 3)"
  by (simp add: Run_def runRung_def attempt_budget_def demo_env_def demo_rungs_def rungLoop.simps
      leaseFor_def giveBack_def Transient_def wrap_def Classify_def)

theorem ladder_walk_contract_witness:
  "\<exists>res s'. Run demo_env demo_rungs ''x'' 0 = ((res, None), s') \<and> walk_spec demo_rungs res None \<and>
     rr_err (last (Rungs res)) = None"
  using ladder_walk_contract [OF demo_run] demo_run by auto

subsection \<open>Leases\<close>

text \<open>
  What the ladder relies on: a lease that is refused, and a lease that is taken and given back after the others acted (\<open>act\<close>)
  for as long as the attempt ran, both leave the pool balanced.
\<close>

locale lease_pool =
  fixes take :: "string \<Rightarrow> priority \<Rightarrow> string \<Rightarrow> 'g \<Rightarrow> go_error option \<times> 'g"
    and give :: "string \<Rightarrow> 'g \<Rightarrow> 'g"
    and act :: "'g \<Rightarrow> 'g"
    and balanced :: "'g \<Rightarrow> 'g \<Rightarrow> bool"
  assumes balanced_refl: "balanced g g"
    and balanced_trans: "balanced g h \<Longrightarrow> balanced h k \<Longrightarrow> balanced g k"
    and take_fails: "take op p session g = (Some e, g') \<Longrightarrow> balanced g g'"
    and take_give: "take op p session g = (None, g') \<Longrightarrow> balanced g (give op (act g'))"
begin

text \<open>The ladder's environment on a state that has the pool beside whatever the attempts change.\<close>

definition env :: "('w \<Rightarrow> go_error option) \<Rightarrow> ('g \<times> 'w) ladder_env" where
  "env ctx = \<lparr>hasGov = True, ctxErr = (\<lambda>(g, w). ctx w),
     acquire = (\<lambda>op p session (g, w). case take op p session g of (e, g') \<Rightarrow> (e, (g', w))),
     unlease = (\<lambda>op (g, w). (give op g, w))\<rparr>"

text \<open>An attempt works on the world; while it runs, the others work on the pool.\<close>

definition on_world :: "('w \<Rightarrow> go_error option \<times> 'w) \<Rightarrow> 'g \<times> 'w \<Rightarrow> go_error option \<times> ('g \<times> 'w)" where
  "on_world f = (\<lambda>(g, w). case f w of (e, w') \<Rightarrow> (e, (act g, w')))"

definition outside :: "('g \<times> 'w) Rung \<Rightarrow> bool" where
  "outside rung \<longleftrightarrow> (\<exists>f. r_attempt rung = on_world f)"

lemma rungLoop_balanced:
  assumes "rungLoop (env ctx) rung session maxA attempt rr lastClass (g, w) = (out, (g', w'))"
    and "outside rung"
  shows "balanced g g'"
  using assms
proof (induction "nat (maxA + 1 - attempt)" arbitrary: attempt rr lastClass g w rule: less_induct)
  case less
  note run = less.prems(1) [unfolded rungLoop.simps [of "env ctx" rung session maxA attempt rr lastClass "(g, w)"]]
  obtain f where f: "r_attempt rung = on_world f" using less.prems(2) by (auto simp: outside_def)
  show ?case
  proof (cases "attempt > maxA \<or> ctx w \<noteq> None")
    case True
    with run balanced_refl show ?thesis by (auto simp: env_def split: if_splits)
  next
    case False
    obtain e1 g1 where t: "take (r_op rung) (r_priority rung) session g = (e1, g1)" by fastforce
    show ?thesis
    proof (cases e1)
      case (Some e)
      with False t run take_fails show ?thesis by (auto simp: env_def leaseFor_def)
    next
      case None
      obtain ae w2 where a: "f w = (ae, w2)" by fastforce
      have returned: "balanced g (give (r_op rung) (act g1))" using take_give t None by blast
      show ?thesis
      proof (cases "\<exists>e. ae = Some e \<and> Classify (Some e) = ClassTransientHere \<and> attempt < maxA")
        case True
        then obtain e where e: "ae = Some e" "Classify (Some e) = ClassTransientHere" "attempt < maxA" by auto
        have "rungLoop (env ctx) rung session maxA (attempt + 1)
            (rr\<lparr>rr_attempts := attempt, rr_class := Classify (Some e), rr_err := Some e\<rparr>)
            (Classify (Some e)) (give (r_op rung) (act g1), w2) = (out, (g', w'))"
          using run False t None a e f
          by (simp add: Let_def env_def leaseFor_def giveBack_def on_world_def)
        then show ?thesis
          using less.hyps [of "attempt + 1"] less.prems(2) balanced_trans [OF returned] e(3) by auto
      next
        case other: False
        with False t None a f returned run show ?thesis
          by (auto simp: Let_def env_def leaseFor_def giveBack_def on_world_def split: option.splits if_splits)
      qed
    qed
  qed
qed

lemma walk_balanced:
  assumes "walk (env ctx) session rungs res (g, w) = (out, (g', w'))"
    and "\<forall>rung \<in> set rungs. outside rung"
  shows "balanced g g'"
  using assms
proof (induction rungs arbitrary: res g w)
  case Nil
  then show ?case using balanced_refl by simp
next
  case (Cons rung rs)
  obtain rr clas e g1 w1 where r: "runRung (env ctx) rung session (g, w) = ((rr, clas, e), (g1, w1))"
    by (metis prod.collapse)
  then have one: "balanced g g1"
    using rungLoop_balanced [OF r [unfolded runRung_def]] Cons.prems(2) by simp
  show ?case
  proof (cases "e = None \<and> clas \<noteq> '''' \<and> clas \<noteq> ClassAccountLevel")
    case True
    with Cons.prems(1) r have "walk (env ctx) session rs (res\<lparr>Rungs := Rungs res @ [rr]\<rparr>) (g1, w1) = (out, (g', w'))"
      by (simp add: Let_def)
    with Cons.IH Cons.prems(2) balanced_trans [OF one] show ?thesis by auto
  next
    case False
    with Cons.prems(1) r one show ?thesis
      by (auto simp: Let_def split: option.splits if_splits)
  qed
qed

lemma Run_balanced:
  assumes "Run (env ctx) rungs session (g, w) = (out, (g', w'))"
    and "\<forall>rung \<in> set rungs. outside rung"
  shows "balanced g g'"
  using walk_balanced [OF assms(1) [unfolded Run_def] assms(2)] .

end

subsection \<open>One caller among others\<close>

text \<open>
  The whole of \<open>Acquire\<close>, for one caller while others use the same governor. What the others do between two critical
  sections of the caller is a list of calls, executed on the system of callers of \<open>AccountGov\<close>; a call
  that is not enabled, would release a lease of the caller or would act for its waiter has no effect. \<open>lw_own\<close> counts
  the leases of the caller among the leases held.
\<close>

datatype other_call =
    OAcquire string priority string
  | OWake string nat
  | OCancel string nat ctx_error
  | ORelease string

definition parkCaller :: "gov_sys \<Rightarrow> string \<Rightarrow> waiter \<Rightarrow> governor \<Rightarrow> gov_sys" where
  "parkCaller s op w g = s\<lparr>gov := g, parked := (parked s)(op := parked s op @ [w])\<rparr>"

definition cancelCaller :: "gov_sys \<Rightarrow> string \<Rightarrow> waiter \<Rightarrow> ctx_error \<Rightarrow> gov_sys" where
  "cancelCaller s op w e =
     (case cancelWaiter (gov s) op w e of (found, g) \<Rightarrow>
        let s1 = leave (s\<lparr>gov := g\<rparr>) op w in if \<not> found \<and> w_seq w \<in> ready s then take_lease s1 op else s1)"

definition returnUnit :: "gov_sys \<Rightarrow> string \<Rightarrow> gov_sys" where
  "returnUnit s op =
     (case release (gov s) op of (r, g) \<Rightarrow>
        s\<lparr>gov := g, held := (held s)(op := held s op - 1), ready := ready s \<union> w_seq ` set_option r\<rparr>)"

fun otherStep :: "int option \<Rightarrow> (string \<Rightarrow> nat) \<Rightarrow> gov_sys \<Rightarrow> other_call \<Rightarrow> gov_sys" where
  "otherStep mine own s (OAcquire op p session) =
     (case Acquire (gov s) op p session of
        (Leased, g) \<Rightarrow> take_lease (s\<lparr>gov := g\<rparr>) op
      | (Parked w, g) \<Rightarrow> parkCaller s op w g)"
| "otherStep mine own s (OWake op i) =
     (if i < length (parked s op) \<and> mine \<noteq> Some (w_seq (parked s op ! i)) \<and> w_seq (parked s op ! i) \<in> ready s
      then take_lease (leave s op (parked s op ! i)) op else s)"
| "otherStep mine own s (OCancel op i e) =
     (if i < length (parked s op) \<and> mine \<noteq> Some (w_seq (parked s op ! i)) then cancelCaller s op (parked s op ! i) e else s)"
| "otherStep mine own s (ORelease op) = (if own op < held s op then returnUnit s op else s)"

text \<open>
  What happens around one \<open>select\<close>: the calls of others before the caller enters \<open>Acquire\<close> or while its attempt runs
  (\<open>sc_before\<close>), while it waits (\<open>sc_during\<close>) and between the removal of its waiter and the release of a unit it was handed
  (\<open>sc_after\<close>). When the \<open>select\<close> returns, either \<open>ready\<close> is closed and that branch is taken (\<open>prefersReady\<close>), or the context has ended with \<open>endedBy\<close>.
\<close>

record script =
  sc_before :: "other_call list"
  sc_during :: "other_call list"
  sc_after :: "other_call list"
  prefersReady :: bool
  endedBy :: ctx_error

record lease_world =
  lw_sys :: gov_sys
  lw_own :: "string \<Rightarrow> nat"
  lw_scripts :: "nat \<Rightarrow> script"
  lw_tick :: nat

definition othersAct :: "lease_world \<Rightarrow> lease_world" where
  "othersAct L = L\<lparr>lw_sys := foldl (otherStep None (lw_own L)) (lw_sys L) (sc_before (lw_scripts L (lw_tick L))), lw_tick := lw_tick L + 1\<rparr>"

definition ctxText :: "ctx_error \<Rightarrow> string" where
  "ctxText e = (case e of Canceled \<Rightarrow> ''context canceled'' | DeadlineExceeded \<Rightarrow> ''context deadline exceeded'')"

definition waitForLease :: "lease_world \<Rightarrow> string \<Rightarrow> waiter \<Rightarrow> go_error option \<times> lease_world" where
  "waitForLease L op w =
     (let sc = lw_scripts L (lw_tick L);
          s = foldl (otherStep (Some (w_seq w)) (lw_own L)) (lw_sys L) (sc_during sc);
          more = (lw_own L)(op := lw_own L op + 1)
      in if prefersReady sc \<and> w_seq w \<in> ready s
         then (None, L\<lparr>lw_sys := take_lease (leave s op w) op, lw_own := more\<rparr>)
         else
           (let s1 = cancelCaller s op w (endedBy sc)
            in (Some (Plain (ctxText (endedBy sc))),
                L\<lparr>lw_sys := (if \<not> fst (cancelWaiter (gov s) op w (endedBy sc)) \<and> w_seq w \<in> ready s
                          then returnUnit (foldl (otherStep None more) s1 (sc_after sc)) op else s1)\<rparr>)))"

definition acquireLease :: "string \<Rightarrow> priority \<Rightarrow> string \<Rightarrow> lease_world \<Rightarrow> go_error option \<times> lease_world" where
  "acquireLease op p session L0 =
     (let L = othersAct L0 in
      case Acquire (gov (lw_sys L)) op p session of
        (Leased, g) \<Rightarrow> (None, L\<lparr>lw_sys := take_lease ((lw_sys L)\<lparr>gov := g\<rparr>) op, lw_own := (lw_own L)(op := lw_own L op + 1)\<rparr>)
      | (Parked w, g) \<Rightarrow> waitForLease (L\<lparr>lw_sys := parkCaller (lw_sys L) op w g\<rparr>) op w)"

definition releaseLease :: "string \<Rightarrow> lease_world \<Rightarrow> lease_world" where
  "releaseLease op L = L\<lparr>lw_sys := returnUnit (lw_sys L) op, lw_own := (lw_own L)(op := lw_own L op - 1)\<rparr>"

text \<open>Every call, of the caller or of the others, is a step of the system.\<close>

lemma cancelCaller_step: "w \<in> set (parked s op) \<Longrightarrow> gov_step s (cancelCaller s op w e)"
  by (cases "cancelWaiter (gov s) op w e"; cases "fst (cancelWaiter (gov s) op w e)"; cases "w_seq w \<in> ready s")
    (auto simp: cancelCaller_def Let_def intro: gov_step.cancel_queued gov_step.cancel_granted gov_step.cancel_default)

lemma returnUnit_step: "held s op > 0 \<Longrightarrow> gov_step s (returnUnit s op)"
  using gov_step.give_back [of s op] by (cases "release (gov s) op") (simp add: returnUnit_def)

lemma otherStep_step: "otherStep m k s c = s \<or> gov_step s (otherStep m k s c)"
  by (cases c)
    (auto simp: parkCaller_def intro: cancelCaller_step returnUnit_step gov_step.lease gov_step.park gov_step.wake split: prod.split acquire_result.split)

lemma otherStep_runs: "gov_step\<^sup>*\<^sup>* s (foldl (otherStep m k) s cs)"
proof (induction cs arbitrary: s)
  case (Cons c cs)
  have "gov_step\<^sup>*\<^sup>* s (otherStep m k s c)" using otherStep_step [of m k s c] by auto
  with Cons [of "otherStep m k s c"] show ?case by simp
qed simp

lemma held_simps [simp]:
  "held (leave s op w) = held s" "held (parkCaller s op w g) = held s" "gov (parkCaller s op w g) = g" "ready (parkCaller s op w g) = ready s"
  "held (returnUnit s op) = (held s)(op := held s op - 1)" "parked (returnUnit s op) = parked s"
  by (simp_all add: leave_def parkCaller_def returnUnit_def split: prod.split)

lemma cancelCaller_held: "held s op' \<le> held (cancelCaller s op w e) op'"
  by (simp add: cancelCaller_def Let_def split: prod.split)

lemma otherStep_keeps: "\<forall>op. k op \<le> held s op \<Longrightarrow> \<forall>op. k op \<le> held (otherStep m k s c) op"
proof (cases c)
  case (OCancel op i e)
  assume "\<forall>op. k op \<le> held s op"
  with OCancel show ?thesis using cancelCaller_held order_trans by (fastforce split: if_splits)
qed (auto split: prod.split acquire_result.split intro: le_SucI)

lemma others_keep: "\<forall>op. k op \<le> held s op \<Longrightarrow> \<forall>op. k op \<le> held (foldl (otherStep m k) s cs) op"
  by (induction cs arbitrary: s) (simp_all add: otherStep_keeps)

lemma leave_other: "w \<in> set (parked s op) \<Longrightarrow> w_seq x \<noteq> w_seq w \<Longrightarrow> w \<in> set (parked (leave s op' x) op)"
  by (auto simp: leave_def)

lemma otherStep_mine: "w \<in> set (parked s op) \<Longrightarrow> w \<in> set (parked (otherStep (Some (w_seq w)) k s c) op)"
  by (cases c) (auto simp: parkCaller_def cancelCaller_def Let_def intro: leave_other split: prod.split acquire_result.split)

lemma others_mine: "w \<in> set (parked s op) \<Longrightarrow> w \<in> set (parked (foldl (otherStep (Some (w_seq w)) k) s cs) op)"
  by (induction cs arbitrary: s) (simp_all add: otherStep_mine)

text \<open>
  What a caller leaves behind when it is through: its leases as before, a state the system can reach, and, if no one else acted,
  the leases held and the callers waiting as before.
\<close>

definition lease_ok :: "lease_world \<Rightarrow> bool" where
  "lease_ok L \<longleftrightarrow> gov_inv (lw_sys L) \<and> (\<forall>op. lw_own L op \<le> held (lw_sys L) op)"

definition alone :: "lease_world \<Rightarrow> bool" where
  "alone L \<longleftrightarrow> (\<forall>n. sc_before (lw_scripts L n) = [] \<and> sc_during (lw_scripts L n) = [] \<and> sc_after (lw_scripts L n) = [])"

definition lease_balanced :: "lease_world \<Rightarrow> lease_world \<Rightarrow> bool" where
  "lease_balanced L L' \<longleftrightarrow> lw_scripts L' = lw_scripts L \<and> lw_own L' = lw_own L \<and> gov_step\<^sup>*\<^sup>* (lw_sys L) (lw_sys L') \<and> lease_ok L' \<and>
     (alone L \<longrightarrow> held (lw_sys L') = held (lw_sys L) \<and> parked (lw_sys L') = parked (lw_sys L))"

lemma gov_steps_inv: "gov_step\<^sup>*\<^sup>* s t \<Longrightarrow> gov_inv s \<Longrightarrow> gov_inv t"
  by (induction rule: rtranclp_induct) (auto intro: gov_step_inv)

lemma othersAct_frame:
  "lw_own (othersAct L) = lw_own L" "lw_scripts (othersAct L) = lw_scripts L" "gov_step\<^sup>*\<^sup>* (lw_sys L) (lw_sys (othersAct L))"
  "lease_ok L \<Longrightarrow> lease_ok (othersAct L)" "alone L \<Longrightarrow> lw_sys (othersAct L) = lw_sys L"
  using others_keep [of "lw_own L" "lw_sys L"] gov_steps_inv otherStep_runs
  by (auto simp: othersAct_def alone_def lease_ok_def) blast

lemma parked_fresh:
  assumes "gov_inv s" and "Acquire (gov s) op p session = (Parked w, g)"
  shows "w \<in> set (parked (parkCaller s op w g) op)" "w_seq w \<notin> ready s" "\<forall>x \<in> set (parked s op). w_seq x \<noteq> w_seq w"
    "w \<in> set (waiting g op)" "gov_step s (parkCaller s op w g)"
proof -
  have w: "w_seq w = gov_seq (gov s) + 1" "waiting g op = waiting (gov s) op @ [w]"
    using assms(2) by (auto simp: Acquire_def Let_def split: if_splits)
  then show "w \<in> set (waiting g op)" "w_seq w \<notin> ready s" using assms(1) by (auto simp: gov_inv_def)
  show "\<forall>x \<in> set (parked s op). w_seq x \<noteq> w_seq w" using assms(1) w by (fastforce simp: gov_inv_def op_inv_def)
  show "w \<in> set (parked (parkCaller s op w g) op)" by (simp add: parkCaller_def)
  show "gov_step s (parkCaller s op w g)" unfolding parkCaller_def using assms(2) by (rule gov_step.park)
qed

lemma returnUnit_own:
  "\<forall>op'. ((k :: string \<Rightarrow> nat)(op := k op + 1)) op' \<le> held s op' \<Longrightarrow> gov_step s (returnUnit s op) \<and> (\<forall>op'. k op' \<le> held (returnUnit s op) op')"
proof -
  assume h: "\<forall>op'. (k(op := k op + 1)) op' \<le> held s op'"
  then have "0 < held s op" by (metis add_gr_0 fun_upd_same le_eq_less_or_eq less_one less_le_trans)
  moreover have "k op' \<le> held (returnUnit s op) op'" for op'
    using h [rule_format, of op'] h [rule_format, of op] by (auto split: if_splits)
  ultimately show ?thesis using returnUnit_step by blast
qed

lemma waitForLease_granted:
  assumes "waitForLease L op w = (None, L')" and "lease_ok L" and "w \<in> set (parked (lw_sys L) op)"
  shows "lw_scripts L' = lw_scripts L" "lw_own L' = (lw_own L)(op := lw_own L op + 1)" "gov_step\<^sup>*\<^sup>* (lw_sys L) (lw_sys L')" "lease_ok L'"
    "alone L \<Longrightarrow> w_seq w \<in> ready (lw_sys L)"
proof -
  let ?sc = "lw_scripts L (lw_tick L)"
  define t where "t = foldl (otherStep (Some (w_seq w)) (lw_own L)) (lw_sys L) (sc_during ?sc)"
  have L': "w_seq w \<in> ready t" "L' = L\<lparr>lw_sys := take_lease (leave t op w) op, lw_own := (lw_own L)(op := lw_own L op + 1)\<rparr>"
    using assms(1) by (auto simp: waitForLease_def Let_def t_def split: if_splits)
  then show "lw_scripts L' = lw_scripts L" "lw_own L' = (lw_own L)(op := lw_own L op + 1)" by simp_all
  have t: "gov_step\<^sup>*\<^sup>* (lw_sys L) t" "w \<in> set (parked t op)" "\<forall>op'. lw_own L op' \<le> held t op'"
    using otherStep_runs others_mine [OF assms(3)] others_keep assms(2) by (auto simp: t_def lease_ok_def)
  have "gov_step t (take_lease (leave t op w) op)" using t(2) L'(1) by (rule gov_step.wake)
  with t(1) show run: "gov_step\<^sup>*\<^sup>* (lw_sys L) (lw_sys L')" by (simp add: L'(2))
  show "lease_ok L'" using gov_steps_inv [OF run] assms(2) t(3) by (simp add: lease_ok_def L'(2))
  show "alone L \<Longrightarrow> w_seq w \<in> ready (lw_sys L)" using L'(1) by (simp add: alone_def t_def)
qed

lemma waitForLease_refused:
  assumes "waitForLease L op w = (Some e, L')" and "lease_ok L" and "w \<in> set (parked (lw_sys L) op)"
  shows "lw_scripts L' = lw_scripts L" "lw_own L' = lw_own L" "gov_step\<^sup>*\<^sup>* (lw_sys L) (lw_sys L')" "lease_ok L'"
    "alone L \<Longrightarrow> w_seq w \<notin> ready (lw_sys L) \<Longrightarrow> held (lw_sys L') = held (lw_sys L) \<and>
       parked (lw_sys L') = (parked (lw_sys L))(op := filter (\<lambda>x. w_seq x \<noteq> w_seq w) (parked (lw_sys L) op))"
proof -
  let ?sc = "lw_scripts L (lw_tick L)" and ?more = "(lw_own L)(op := lw_own L op + 1)"
  define t where "t = foldl (otherStep (Some (w_seq w)) (lw_own L)) (lw_sys L) (sc_during ?sc)"
  define c where "c = cancelCaller t op w (endedBy ?sc)"
  define handed where "handed \<longleftrightarrow> \<not> fst (cancelWaiter (gov t) op w (endedBy ?sc)) \<and> w_seq w \<in> ready t"
  define d where "d = foldl (otherStep None ?more) c (sc_after ?sc)"
  have L': "L' = L\<lparr>lw_sys := (if handed then returnUnit d op else c)\<rparr>"
    using assms(1) by (auto simp: waitForLease_def Let_def t_def c_def d_def handed_def split: if_splits)
  then show "lw_scripts L' = lw_scripts L" "lw_own L' = lw_own L" by simp_all
  have t: "gov_step\<^sup>*\<^sup>* (lw_sys L) t" "w \<in> set (parked t op)" "\<forall>op'. lw_own L op' \<le> held t op'"
    using otherStep_runs others_mine [OF assms(3)] others_keep assms(2) by (auto simp: t_def lease_ok_def)
  have c: "gov_step\<^sup>*\<^sup>* (lw_sys L) c" "\<forall>op'. lw_own L op' \<le> held c op'"
    using t(1) cancelCaller_step [OF t(2)] t(3) cancelCaller_held order_trans by (auto simp: c_def intro: rtranclp.rtrancl_into_rtrancl) blast
  have more: "\<forall>op'. ?more op' \<le> held c op'" if handed
    using t(3) that by (auto simp: c_def handed_def cancelCaller_def Let_def split: prod.splits)
  have "gov_step\<^sup>*\<^sup>* (lw_sys L) (returnUnit d op) \<and> (\<forall>op'. lw_own L op' \<le> held (returnUnit d op) op')" if handed
  proof -
    have "\<forall>op'. ?more op' \<le> held d op'" unfolding d_def by (rule others_keep [OF more [OF that]])
    from returnUnit_own [OF this] show ?thesis
      using c(1) otherStep_runs [of c None ?more "sc_after ?sc"] unfolding d_def by (meson rtranclp.rtrancl_into_rtrancl rtranclp_trans)
  qed
  with c have run: "gov_step\<^sup>*\<^sup>* (lw_sys L) (lw_sys L')" "\<forall>op'. lw_own L op' \<le> held (lw_sys L') op'" by (auto simp: L')
  then show "gov_step\<^sup>*\<^sup>* (lw_sys L) (lw_sys L')" "lease_ok L'" using gov_steps_inv assms(2) by (auto simp: lease_ok_def L')
  show "held (lw_sys L') = held (lw_sys L) \<and>
       parked (lw_sys L') = (parked (lw_sys L))(op := filter (\<lambda>x. w_seq x \<noteq> w_seq w) (parked (lw_sys L) op))"
    if "alone L" "w_seq w \<notin> ready (lw_sys L)"
  proof -
    have "t = lw_sys L" using that(1) by (simp add: t_def alone_def)
    with that(2) show ?thesis by (auto simp: L' c_def handed_def cancelCaller_def leave_def Let_def split: prod.split)
  qed
qed

lemma acquireLease_refused: "acquireLease op p session L = (Some e, L') \<Longrightarrow> lease_ok L \<Longrightarrow> lease_balanced L L'"
proof -
  assume a: "acquireLease op p session L = (Some e, L')" and ok: "lease_ok L"
  let ?A = "othersAct L"
  note A = othersAct_frame [of L]
  obtain w g where q: "Acquire (gov (lw_sys ?A)) op p session = (Parked w, g)"
    and r: "waitForLease (?A\<lparr>lw_sys := parkCaller (lw_sys ?A) op w g\<rparr>) op w = (Some e, L')"
    using a by (auto simp: acquireLease_def Let_def split: prod.splits acquire_result.splits)
  have okA: "lease_ok ?A" using A(4) ok by blast
  then have "gov_inv (lw_sys ?A)" by (simp add: lease_ok_def)
  note f = parked_fresh [OF this q]
  have okP: "lease_ok (?A\<lparr>lw_sys := parkCaller (lw_sys ?A) op w g\<rparr>)"
    using okA gov_step_inv [OF f(5)] by (simp add: lease_ok_def)
  note W = waitForLease_refused [OF r okP] f(1)
  have "gov_step\<^sup>*\<^sup>* (lw_sys L) (lw_sys L')"
    using A(3) f(5) W by simp
  moreover have "parked (lw_sys L') = parked (lw_sys L) \<and> held (lw_sys L') = held (lw_sys L)" if "alone L"
  proof -
    have e: "lw_sys ?A = lw_sys L" using A(5) that by blast
    have "alone (?A\<lparr>lw_sys := parkCaller (lw_sys ?A) op w g\<rparr>)" using that A(2) by (simp add: alone_def)
    then show ?thesis using W f(2,3) by (auto simp: parkCaller_def e fun_eq_iff filter_id_conv)
  qed
  ultimately show ?thesis using W A(1,2) by (simp add: lease_balanced_def)
qed

lemma acquireLease_granted:
  assumes "acquireLease op p session L = (None, L')" and "lease_ok L"
  shows "lw_scripts L' = lw_scripts L" "lw_own L' = (lw_own L)(op := lw_own L op + 1)" "gov_step\<^sup>*\<^sup>* (lw_sys L) (lw_sys L')" "lease_ok L'"
    "alone L \<Longrightarrow> held (lw_sys L') = (held (lw_sys L))(op := held (lw_sys L) op + 1) \<and> parked (lw_sys L') = parked (lw_sys L)"
proof -
  let ?A = "othersAct L"
  note A = othersAct_frame [of L]
  have okA: "lease_ok ?A" using A(4) assms(2) by blast
  obtain r g where q: "Acquire (gov (lw_sys ?A)) op p session = (r, g)" by fastforce
  have "lw_scripts L' = lw_scripts L \<and> lw_own L' = (lw_own L)(op := lw_own L op + 1) \<and> gov_step\<^sup>*\<^sup>* (lw_sys ?A) (lw_sys L') \<and> lease_ok L' \<and>
    (alone L \<longrightarrow> held (lw_sys L') = (held (lw_sys L))(op := held (lw_sys L) op + 1) \<and> parked (lw_sys L') = parked (lw_sys L))"
  proof (cases r)
    case Leased
    then have L': "L' = ?A\<lparr>lw_sys := take_lease ((lw_sys ?A)\<lparr>gov := g\<rparr>) op, lw_own := (lw_own ?A)(op := lw_own ?A op + 1)\<rparr>"
      using assms(1) q by (simp add: acquireLease_def Let_def)
    have st: "gov_step (lw_sys ?A) (take_lease ((lw_sys ?A)\<lparr>gov := g\<rparr>) op)" using q Leased gov_step.lease by blast
    then show ?thesis using A okA gov_step_inv [OF st] by (auto simp: L' lease_ok_def)
  next
    case (Parked w)
    then have wl: "waitForLease (?A\<lparr>lw_sys := parkCaller (lw_sys ?A) op w g\<rparr>) op w = (None, L')"
      using assms(1) q by (simp add: acquireLease_def Let_def)
    have "gov_inv (lw_sys ?A)" using okA by (simp add: lease_ok_def)
    note f = parked_fresh [OF this q [unfolded Parked]]
    have "lease_ok (?A\<lparr>lw_sys := parkCaller (lw_sys ?A) op w g\<rparr>)" using okA gov_step_inv [OF f(5)] by (simp add: lease_ok_def)
    note W = waitForLease_granted [OF wl this] f(1)
    have "\<not> alone L" using W(5) f(1,2) A(2) by (auto simp: alone_def)
    then show ?thesis using W A f(5) by (auto intro: converse_rtranclp_into_rtranclp)
  qed
  then show "lw_scripts L' = lw_scripts L" "lw_own L' = (lw_own L)(op := lw_own L op + 1)" "lease_ok L'"
    "alone L \<Longrightarrow> held (lw_sys L') = (held (lw_sys L))(op := held (lw_sys L) op + 1) \<and> parked (lw_sys L') = parked (lw_sys L)"
    and "gov_step\<^sup>*\<^sup>* (lw_sys L) (lw_sys L')" using A(3) by auto
qed

lemma releaseLease_balanced:
  assumes "acquireLease op p session L = (None, L')" and "lease_ok L"
  shows "lease_balanced L (releaseLease op (othersAct L'))"
proof -
  note G = acquireLease_granted [OF assms] and A = othersAct_frame [of L']
  let ?s = "lw_sys (othersAct L')"
  have "lease_ok (othersAct L')" using A(4) G(4) by blast
  then have "\<forall>op'. ((lw_own L)(op := lw_own L op + 1)) op' \<le> held ?s op'" and ok: "gov_inv ?s"
    using A(1) G(2) by (auto simp: lease_ok_def)
  from returnUnit_own [OF this(1)] have r: "gov_step ?s (returnUnit ?s op)" "\<forall>op'. lw_own L op' \<le> held (returnUnit ?s op) op'" by auto
  have "gov_step\<^sup>*\<^sup>* (lw_sys L) ?s" using G(3) A(3) by (rule rtranclp_trans)
  then have "gov_step\<^sup>*\<^sup>* (lw_sys L) (returnUnit ?s op)" using r(1) by (rule rtranclp.rtrancl_into_rtrancl)
  moreover have "(lw_own (othersAct L'))(op := lw_own (othersAct L') op - 1) = lw_own L" using A(1) G(2) by (simp add: fun_eq_iff)
  moreover have "alone L \<Longrightarrow> held (returnUnit ?s op) = held (lw_sys L) \<and> parked (returnUnit ?s op) = parked (lw_sys L)"
    using G(1,5) A(5) by (simp add: alone_def fun_eq_iff)
  ultimately show ?thesis using r gov_step_inv [OF r(1) ok] A(2) G(1) by (simp add: lease_balanced_def releaseLease_def lease_ok_def)
qed

lemma lease_balanced_trans: "lease_balanced L L' \<Longrightarrow> lease_balanced L' K \<Longrightarrow> lease_balanced L K"
proof -
  assume a: "lease_balanced L L'" "lease_balanced L' K"
  then have "gov_step\<^sup>*\<^sup>* (lw_sys L) (lw_sys K)" "alone L' = alone L"
    by (auto simp: lease_balanced_def alone_def intro: rtranclp_trans)
  with a show ?thesis by (simp add: lease_balanced_def)
qed

lemma lease_balanced_ok: "lease_balanced L L' \<Longrightarrow> lease_ok L'"
  by (simp add: lease_balanced_def)

definition gov_balanced :: "lease_world \<Rightarrow> lease_world \<Rightarrow> bool" where
  "gov_balanced L L' \<longleftrightarrow> (lease_ok L \<longrightarrow> lease_balanced L L')"

interpretation govLease: lease_pool acquireLease releaseLease othersAct gov_balanced
proof
  fix op p session e and L L' K :: lease_world
  show "gov_balanced L L" by (simp add: gov_balanced_def lease_balanced_def)
  show "gov_balanced L L' \<Longrightarrow> gov_balanced L' K \<Longrightarrow> gov_balanced L K"
    unfolding gov_balanced_def using lease_balanced_trans lease_balanced_ok by blast
  show "acquireLease op p session L = (Some e, L') \<Longrightarrow> gov_balanced L L'" by (simp add: gov_balanced_def acquireLease_refused)
  show "acquireLease op p session L = (None, L') \<Longrightarrow> gov_balanced L (releaseLease op (othersAct L'))"
    by (simp add: gov_balanced_def releaseLease_balanced)
qed

lemma reachable_steps: "gov_step\<^sup>*\<^sup>* s t \<Longrightarrow> gov_reachable name cfg s \<Longrightarrow> gov_reachable name cfg t"
  by (induction rule: rtranclp_induct) (auto intro: gov_next)


text \<open>One unit, held by another caller that gives it back while the ladder waits for it.\<close>

definition lease_rungs :: "(lease_world \<times> nat) Rung list" where
  "lease_rungs = [\<lparr>r_name = ''a'', r_op = ''op'', r_priority = 0, r_max = 2,
     r_attempt = govLease.on_world (\<lambda>n. (Transient (Some (Plain ''eof'')), Suc n))\<rparr>]"

definition lease_start :: lease_world where
  "lease_start = \<lparr>lw_sys = demo_leased, lw_own = (\<lambda>_. 0),
     lw_scripts = (\<lambda>_. \<lparr>sc_before = [], sc_during = [ORelease ''op''], sc_after = [], prefersReady = True, endedBy = Canceled\<rparr>), lw_tick = 0\<rparr>"


end
