(* ===== verification/MediaIdentity.thy ===== *)
theory MediaIdentity
  imports DH_Prelude
begin

section \<open>Media identities\<close>

text \<open>
  Models \<open>internal/mediaidentity/identity.go\<close>: provider identities as the Arrs report them, their
  normalisation and validation. Lower-casing is byte-wise ASCII: of the letters an accepted ID may
  contain, only \<open>T\<close> has an upper-case form, and no other character folds to \<open>t\<close> or to a digit.
\<close>

record ProviderIDs =
  TVDB :: string
  TMDB :: string
  IMDB :: string

record EpisodeProviderIDs =
  e_season :: int
  e_episode :: int
  e_tvdb :: string
  e_tmdb :: string
  e_imdb :: string
  e_runtimeMinutes :: int

record ProviderIdentity =
  Kind :: string
  Title :: string
  IDs :: ProviderIDs
  Episodes :: "EpisodeProviderIDs list"
  Year :: int
  RuntimeMinutes :: int

datatype identity_error =
  InvalidKind | InvalidTitle | EpisodeLimit | InvalidProviderID | InvalidYear | InvalidRuntime
  | InvalidEpisode | InvalidEpisodeRuntime

definition minValidYear :: int where "minValidYear = 1878"
definition maxValidYear :: int where "maxValidYear = 2100"
definition maxRuntimeMinutes :: int where "maxRuntimeMinutes = 600"

definition validNumericID :: "string \<Rightarrow> bool" where
  "validNumericID value =
     (let v = TrimSpace value in
      if v = '''' \<or> length v > 20 then False
      else if \<not> list_all is_digit v then False
      else v \<noteq> ''0'')"

definition NormalizedIDs :: "ProviderIDs \<Rightarrow> ProviderIDs" where
  "NormalizedIDs ids =
     (let ids1 = (if \<not> validNumericID (TVDB ids) then ids\<lparr>TVDB := ''''\<rparr> else ids);
          ids2 = (if \<not> validNumericID (TMDB ids1) then ids1\<lparr>TMDB := ''''\<rparr> else ids1);
          imdb = ToLowerASCII (TrimSpace (IMDB ids2))
      in if length imdb < 3 \<or> length imdb > 32 \<or> \<not> HasPrefix imdb ''tt'' \<or>
            \<not> validNumericID (TrimPrefix imdb ''tt'')
         then ids2\<lparr>IMDB := ''''\<rparr> else ids2\<lparr>IMDB := imdb\<rparr>)"

definition checkEpisode :: "EpisodeProviderIDs \<Rightarrow> identity_error option" where
  "checkEpisode e =
     (let ids = \<lparr>TVDB = e_tvdb e, TMDB = e_tmdb e, IMDB = e_imdb e\<rparr> in
      if e_season e < 0 \<or> e_episode e < 1 \<or> NormalizedIDs ids \<noteq> ids then Some InvalidEpisode
      else if e_runtimeMinutes e < 0 \<or> e_runtimeMinutes e > maxRuntimeMinutes then Some InvalidEpisodeRuntime
      else None)"

fun checkEpisodes :: "EpisodeProviderIDs list \<Rightarrow> identity_error option" where
  "checkEpisodes [] = None"
| "checkEpisodes (e # es) = (case checkEpisode e of Some err \<Rightarrow> Some err | None \<Rightarrow> checkEpisodes es)"

definition Validate :: "ProviderIdentity option \<Rightarrow> identity_error option" where
  "Validate identity =
     (case identity of
        None \<Rightarrow> None
      | Some i \<Rightarrow>
          if Kind i \<noteq> ''series'' \<and> Kind i \<noteq> ''movie'' then Some InvalidKind
          else if length (Title i) > 4096 \<or> ContainsAny (Title i) [CHR 0x0D, CHR 0x0A, CHR 0x00]
            then Some InvalidTitle
          else if length (Episodes i) > 2048 then Some EpisodeLimit
          else if NormalizedIDs (IDs i) \<noteq> IDs i then Some InvalidProviderID
          else if Year i < 0 \<or> (Year i \<noteq> 0 \<and> (Year i < minValidYear \<or> Year i > maxValidYear))
            then Some InvalidYear
          else if RuntimeMinutes i < 0 \<or> RuntimeMinutes i > maxRuntimeMinutes then Some InvalidRuntime
          else checkEpisodes (Episodes i))"

lemma checkEpisodes_None: "checkEpisodes es = None \<longleftrightarrow> (\<forall>e \<in> set es. checkEpisode e = None)"
  by (induction es) (auto split: option.splits)

end
