(* ===== verification/SearchBudget.thy ===== *)
theory SearchBudget
  imports MediaIdentity
begin

section \<open>The futile-search budget\<close>

text \<open>
  Models \<open>internal/searchbudget/searchbudget.go\<close> and its durable half,
  \<open>internal/store/search_budgets.go\<close>. The service talks to its store through the Go interface
  \<open>Repository\<close>, here a record of functions on a repository state \<open>'r\<close>; the locale
  \<open>search_budget_repo\<close> states what the interface promises and carries the service's behaviour,
  and the table of the store is its interpretation. A query that the database refuses is an error
  value. Timestamps are stored with nanoseconds, so a stored instant reads back unchanged.

  \<open>Begin\<close> and its release function are modelled by their critical sections; the step relation
  \<open>sb_step\<close> interleaves them over any number of callers.
\<close>

datatype Result = ResultFound | ResultNoResult | ResultFiltered | ResultTransient | ResultAccount
  | ResultOther string

record State =
  ConsecutiveNoResults :: int
  SuppressedUntil :: instant

datatype sb_error = NilRepository | InvalidLimits | AdmissionCapacity | UnknownResult string
  | InvalidUpdate | QueryFailed

record 'r Repository =
  Get :: "'r \<Rightarrow> string \<Rightarrow> (sb_error, State option) result"
  NoResult :: "'r \<Rightarrow> string \<Rightarrow> int \<Rightarrow> duration \<Rightarrow> instant \<Rightarrow> (sb_error, 'r) result"
  Reset :: "'r \<Rightarrow> string \<Rightarrow> (sb_error, 'r) result"

record admission =
  refs :: int
  gate :: nat

record Service =
  sb_cap :: int
  sb_suppress :: duration
  active :: "string \<rightharpoonup> admission"

definition maxActiveIdentities :: nat where "maxActiveIdentities = 1024"

definition New_Service :: "int \<Rightarrow> duration \<Rightarrow> (sb_error, Service) result" where
  "New_Service cp supp =
     (if cp < 1 \<or> supp \<le> 0 then Inl InvalidLimits
      else Inr \<lparr>sb_cap = cp, sb_suppress = supp, active = Map.empty\<rparr>)"

subsection \<open>The budget of one identity\<close>

definition Allowed :: "'r Repository \<Rightarrow> 'r \<Rightarrow> instant \<Rightarrow> string \<Rightarrow> (sb_error, bool) result" where
  "Allowed ops r now key =
     (case Get ops r key of
        Inl e \<Rightarrow> Inl e
      | Inr None \<Rightarrow> Inr True
      | Inr (Some st) \<Rightarrow> Inr (\<not> SuppressedUntil st > now))"

definition Record :: "'r Repository \<Rightarrow> Service \<Rightarrow> 'r \<Rightarrow> instant \<Rightarrow> string \<Rightarrow> Result \<Rightarrow> (sb_error, 'r) result" where
  "Record ops s r now key res =
     (case res of
        ResultFound \<Rightarrow> Reset ops r key
      | ResultNoResult \<Rightarrow> NoResult ops r key (sb_cap s) (sb_suppress s) now
      | ResultFiltered \<Rightarrow> Inr r
      | ResultTransient \<Rightarrow> Inr r
      | ResultAccount \<Rightarrow> Inr r
      | ResultOther x \<Rightarrow> Inl (UnknownResult x))"

subsection \<open>Keys\<close>

definition numericID :: "string \<Rightarrow> string" where
  "numericID raw =
     (let r = TrimSpace raw in
      if r = '''' \<or> length r > 20 then ''''
      else if \<not> list_all is_digit r then ''''
      else dropWhile (\<lambda>c. c = CHR ''0'') r)"

definition imdbID :: "string \<Rightarrow> string" where
  "imdbID raw =
     (let r = ToLowerASCII (TrimSpace raw) in
      if length r < 3 \<or> length r > 20 \<or> \<not> HasPrefix r ''tt'' then ''''
      else if numericID (drop 2 r) = '''' then ''''
      else ''tt'' @ numericID (drop 2 r))"

definition firstID :: "ProviderIdentity \<Rightarrow> string \<times> string" where
  "firstID identity =
     (if numericID (TVDB (IDs identity)) \<noteq> '''' then (''tvdb'', numericID (TVDB (IDs identity)))
      else if numericID (TMDB (IDs identity)) \<noteq> '''' then (''tmdb'', numericID (TMDB (IDs identity)))
      else if imdbID (IMDB (IDs identity)) \<noteq> '''' then (''imdb'', imdbID (IMDB (IDs identity)))
      else ('''', ''''))"

definition CanonicalKey :: "ProviderIdentity option \<Rightarrow> int \<Rightarrow> int \<Rightarrow> string option" where
  "CanonicalKey identity season episode =
     (case identity of
        None \<Rightarrow> None
      | Some i \<Rightarrow>
          if Kind i \<noteq> ''series'' \<and> Kind i \<noteq> ''movie'' then None
          else if season < 0 \<or> episode < 0 \<or> (episode > 0 \<and> season < 1) then None
          else
            (let (idType, id1) = firstID i in
             if id1 = '''' then None
             else
               (let parts = [Kind i, idType, id1];
                    parts = (if Kind i = ''series'' then parts @ [itoa season, itoa episode] else parts)
                in Some (Join parts (CHR '':'')))))"

subsection \<open>Admission\<close>

definition joinAdmission :: "Service \<Rightarrow> string \<Rightarrow> (sb_error, Service) result" where
  "joinAdmission s key =
     (case active s key of
        None \<Rightarrow>
          if card (dom (active s)) \<ge> maxActiveIdentities then Inl AdmissionCapacity
          else Inr (s\<lparr>active := (active s)(key \<mapsto> \<lparr>refs = 1, gate = 1\<rparr>)\<rparr>)
      | Some a \<Rightarrow> Inr (s\<lparr>active := (active s)(key \<mapsto> a\<lparr>refs := refs a + 1\<rparr>)\<rparr>))"

definition dropAdmissionLocked :: "Service \<Rightarrow> string \<Rightarrow> admission \<Rightarrow> Service" where
  "dropAdmissionLocked s key a =
     (let a1 = a\<lparr>refs := refs a - 1\<rparr> in
      if refs a1 = 0 then s\<lparr>active := (active s)(key := None)\<rparr>
      else s\<lparr>active := (active s)(key \<mapsto> a1)\<rparr>)"

definition dropAdmission :: "Service \<Rightarrow> string \<Rightarrow> Service" where
  "dropAdmission s key = (case active s key of None \<Rightarrow> s | Some a \<Rightarrow> dropAdmissionLocked s key a)"

text \<open>Receiving from the gate; \<open>None\<close> while it is empty. Sending blocks while it is full.\<close>

definition takeGate :: "Service \<Rightarrow> string \<Rightarrow> Service option" where
  "takeGate s key =
     (case active s key of
        None \<Rightarrow> None
      | Some a \<Rightarrow>
          if gate a = 0 then None else Some (s\<lparr>active := (active s)(key \<mapsto> a\<lparr>gate := gate a - 1\<rparr>)\<rparr>))"

definition releaseGate :: "Service \<Rightarrow> string \<Rightarrow> Service option" where
  "releaseGate s key =
     (case active s key of
        None \<Rightarrow> None
      | Some a \<Rightarrow> if gate a \<ge> 1 then None else Some (dropAdmissionLocked s key (a\<lparr>gate := gate a + 1\<rparr>)))"

text \<open>
  Callers of one service: per key, those between joining and the gate, and those between the gate
  and their release. A caller whose \<open>Allowed\<close> query fails releases at once, which is the release
  step.
\<close>

record sb_sys =
  svc :: Service
  queued :: "string \<Rightarrow> nat"
  inside :: "string \<Rightarrow> nat"

inductive sb_step :: "sb_sys \<Rightarrow> sb_sys \<Rightarrow> bool" where
  join: "joinAdmission (svc s) key = Inr s' \<Longrightarrow>
    sb_step s (s\<lparr>svc := s', queued := (queued s)(key := queued s key + 1)\<rparr>)"
| cancel: "0 < queued s key \<Longrightarrow>
    sb_step s (s\<lparr>svc := dropAdmission (svc s) key, queued := (queued s)(key := queued s key - 1)\<rparr>)"
| enter: "0 < queued s key \<Longrightarrow> takeGate (svc s) key = Some s' \<Longrightarrow>
    sb_step s (s\<lparr>svc := s', queued := (queued s)(key := queued s key - 1), inside := (inside s)(key := inside s key + 1)\<rparr>)"
| leave: "0 < inside s key \<Longrightarrow> releaseGate (svc s) key = Some s' \<Longrightarrow>
    sb_step s (s\<lparr>svc := s', inside := (inside s)(key := inside s key - 1)\<rparr>)"

inductive sb_reachable :: "Service \<Rightarrow> sb_sys \<Rightarrow> bool" for s0 where
  start: "sb_reachable s0 \<lparr>svc = s0, queued = (\<lambda>_. 0), inside = (\<lambda>_. 0)\<rparr>"
| step: "sb_reachable s0 s \<Longrightarrow> sb_step s t \<Longrightarrow> sb_reachable s0 t"

definition sb_inv :: "sb_sys \<Rightarrow> bool" where
  "sb_inv s \<longleftrightarrow> finite (dom (active (svc s))) \<and> card (dom (active (svc s))) \<le> maxActiveIdentities \<and>
     (\<forall>key. case active (svc s) key of
        None \<Rightarrow> queued s key = 0 \<and> inside s key = 0
      | Some a \<Rightarrow> refs a = int (queued s key + inside s key) \<and> 0 < refs a \<and> gate a + inside s key = 1)"

lemma sb_inv_entry:
  assumes "sb_inv s"
  shows "active (svc s) key = None \<Longrightarrow> queued s key = 0 \<and> inside s key = 0"
    and "active (svc s) key = Some a \<Longrightarrow>
      refs a = int (queued s key + inside s key) \<and> 0 < refs a \<and> gate a + inside s key = 1"
  using assms by (auto simp: sb_inv_def split: option.splits dest: spec [of _ key])

lemma sb_inv_update:
  assumes "sb_inv s" and "\<And>k. k \<noteq> key \<Longrightarrow> active s' k = active (svc s) k \<and> q k = queued s k \<and> i k = inside s k"
    and "case active s' key of
        None \<Rightarrow> q key = 0 \<and> i key = 0
      | Some a \<Rightarrow> refs a = int (q key + i key) \<and> 0 < refs a \<and> gate a + i key = 1"
    and "dom (active s') \<subseteq> insert key (dom (active (svc s)))"
    and "active (svc s) key = None \<Longrightarrow> card (dom (active (svc s))) < maxActiveIdentities"
  shows "sb_inv (s\<lparr>svc := s', queued := q, inside := i\<rparr>)"
proof -
  have fin: "finite (dom (active (svc s)))" and le: "card (dom (active (svc s))) \<le> maxActiveIdentities"
    using assms(1) by (auto simp: sb_inv_def)
  have "card (insert key (dom (active (svc s)))) \<le> maxActiveIdentities"
    using fin le assms(5) by (cases "active (svc s) key") (auto simp: card_insert_if domIff)
  moreover have "card (dom (active s')) \<le> card (insert key (dom (active (svc s))))"
    using fin assms(4) by (intro card_mono) auto
  moreover have "finite (dom (active s'))"
    using fin assms(4) finite_subset by blast
  moreover have "case active s' k of None \<Rightarrow> q k = 0 \<and> i k = 0
      | Some a \<Rightarrow> refs a = int (q k + i k) \<and> 0 < refs a \<and> gate a + i k = 1" for k
    using assms(1-3) sb_inv_entry [OF assms(1), of k] by (cases "k = key") (auto split: option.splits)
  ultimately show ?thesis by (simp add: sb_inv_def cong: option.case_cong)
qed

lemma sb_step_inv: "sb_step s t \<Longrightarrow> sb_inv s \<Longrightarrow> sb_inv t"
proof (induction rule: sb_step.induct)
  case (join s key s')
  have "sb_inv (s\<lparr>svc := s', queued := (queued s)(key := queued s key + 1), inside := inside s\<rparr>)"
    using join sb_inv_entry [OF join.prems, of key]
    by (intro sb_inv_update [of s key]) (auto simp: joinAdmission_def split: option.splits if_splits)
  then show ?case by simp
next
  case (cancel s key)
  then obtain a where a: "active (svc s) key = Some a"
    using sb_inv_entry(1) [OF cancel.prems, of key] by (cases "active (svc s) key") auto
  have "sb_inv (s\<lparr>svc := dropAdmission (svc s) key, queued := (queued s)(key := queued s key - 1), inside := inside s\<rparr>)"
    using cancel a sb_inv_entry(2) [OF cancel.prems a]
    by (intro sb_inv_update [of s key]) (auto simp: dropAdmission_def dropAdmissionLocked_def Let_def)
  then show ?case by simp
next
  case (enter s key s')
  then obtain a where a: "active (svc s) key = Some a" by (auto simp: takeGate_def split: option.splits)
  show ?case
    using enter a sb_inv_entry(2) [OF enter.prems a]
    by (intro sb_inv_update [of s key]) (auto simp: takeGate_def split: if_splits)
next
  case (leave s key s')
  then obtain a where a: "active (svc s) key = Some a" by (auto simp: releaseGate_def split: option.splits)
  have "sb_inv (s\<lparr>svc := s', queued := queued s, inside := (inside s)(key := inside s key - 1)\<rparr>)"
    using leave a sb_inv_entry(2) [OF leave.prems a]
    by (intro sb_inv_update [of s key])
      (auto simp: releaseGate_def dropAdmissionLocked_def Let_def split: if_splits)
  then show ?case by simp
qed

lemma sb_reachable_inv: "sb_reachable s0 s \<Longrightarrow> active s0 = Map.empty \<Longrightarrow> sb_inv s"
  by (induction rule: sb_reachable.induct) (auto simp: sb_inv_def maxActiveIdentities_def dest: sb_step_inv)

text \<open>C14: \<open>Begin\<close> serialises the check, search and record of one identity. In every interleaving of
  callers at most one is between its \<open>Begin\<close> and its release; a waiting caller can go on as soon as
  nobody is inside; the release never blocks on the gate while it holds the lock; and the keyed
  state stays within its bound and is gone once its last user left.\<close>

theorem search_admission_serialised:
  assumes "New_Service cp supp = Inr s0" and "sb_reachable s0 s"
  shows "inside s key \<le> 1 \<and>
    (0 < queued s key \<and> inside s key = 0 \<longrightarrow> (\<exists>s'. takeGate (svc s) key = Some s')) \<and>
    (0 < inside s key \<longrightarrow> (\<exists>s'. releaseGate (svc s) key = Some s')) \<and>
    (active (svc s) key = None \<longleftrightarrow> queued s key = 0 \<and> inside s key = 0) \<and>
    card (dom (active (svc s))) \<le> maxActiveIdentities"
proof -
  have "active s0 = Map.empty" using assms(1) by (auto simp: New_Service_def split: if_splits)
  then have inv: "sb_inv s" using sb_reachable_inv assms(2) by blast
  show ?thesis
  proof (cases "active (svc s) key")
    case None
    with sb_inv_entry(1) [OF inv] inv show ?thesis by (auto simp: sb_inv_def)
  next
    case (Some a)
    with sb_inv_entry(2) [OF inv Some] inv show ?thesis
      by (auto simp: sb_inv_def takeGate_def releaseGate_def)
  qed
qed

theorem search_admission_serialised_witness:
  "\<exists>s0 s. New_Service 2 5 = Inr s0 \<and> sb_reachable s0 s \<and> queued s ''k'' = 1 \<and> inside s ''k'' = 1 \<and>
     (\<exists>s'. releaseGate (svc s) ''k'' = Some s')"
proof -
  let ?s0 = "\<lparr>sb_cap = 2, sb_suppress = 5, active = Map.empty\<rparr>"
  let ?n = "\<lambda>r g. \<lparr>sb_cap = 2, sb_suppress = 5, active = [''k'' \<mapsto> \<lparr>refs = r, gate = g\<rparr>]\<rparr>"
  let ?q = "\<lambda>n. (\<lambda>_. 0)(''k'' := n :: nat)"
  have new: "New_Service 2 5 = Inr ?s0" by (simp add: New_Service_def)
  have r0: "sb_reachable ?s0 \<lparr>svc = ?s0, queued = (\<lambda>_. 0), inside = (\<lambda>_. 0)\<rparr>" by (rule sb_reachable.start)
  have r1: "sb_reachable ?s0 \<lparr>svc = ?n 1 1, queued = ?q 1, inside = (\<lambda>_. 0)\<rparr>"
    using sb_reachable.step [OF r0 sb_step.join [of _ "''k''" "?n 1 1"]]
    by (simp add: joinAdmission_def maxActiveIdentities_def)
  have r2: "sb_reachable ?s0 \<lparr>svc = ?n 2 1, queued = ?q 2, inside = (\<lambda>_. 0)\<rparr>"
    using sb_reachable.step [OF r1 sb_step.join [of _ "''k''" "?n 2 1"]]
    by (simp add: joinAdmission_def numeral_2_eq_2)
  have r3: "sb_reachable ?s0 \<lparr>svc = ?n 2 0, queued = ?q 1, inside = ?q 1\<rparr>"
    using sb_reachable.step [OF r2 sb_step.enter [of _ "''k''" "?n 2 0"]]
    by (simp add: takeGate_def)
  show ?thesis
    using search_admission_serialised [OF new r3, of "''k''"] new r3
    by (intro exI [of _ ?s0] exI [of _ "\<lparr>svc = ?n 2 0, queued = ?q 1, inside = ?q 1\<rparr>"]) auto
qed


subsection \<open>What the repository promises\<close>

text \<open>One more search without a result: the count saturates at the cap, and at the cap the
  suppression window restarts.\<close>

definition bump :: "int \<Rightarrow> duration \<Rightarrow> instant \<Rightarrow> State option \<Rightarrow> State" where
  "bump cp d now st =
     (case st of
        None \<Rightarrow> \<lparr>ConsecutiveNoResults = 1, SuppressedUntil = (if 1 \<ge> cp then now + d else zeroTime)\<rparr>
      | Some x \<Rightarrow>
          \<lparr>ConsecutiveNoResults = min (ConsecutiveNoResults x + 1) cp,
           SuppressedUntil = (if ConsecutiveNoResults x + 1 \<ge> cp then now + d else SuppressedUntil x)\<rparr>)"

fun replay :: "'r Repository \<Rightarrow> Service \<Rightarrow> 'r \<Rightarrow> (string \<times> Result \<times> instant) list \<Rightarrow> (sb_error, 'r) result" where
  "replay ops s r [] = Inr r"
| "replay ops s r ((key, res, now) # h) =
     (case Record ops s r now key res of Inl e \<Rightarrow> Inl e | Inr r' \<Rightarrow> replay ops s r' h)"

text \<open>The instants of the searches for a key that found nothing since the last one that did.\<close>

fun futile_since :: "string \<Rightarrow> instant list \<Rightarrow> (string \<times> Result \<times> instant) list \<Rightarrow> instant list" where
  "futile_since key acc [] = acc"
| "futile_since key acc ((k, res, now) # h) =
     futile_since key
       (if k \<noteq> key then acc
        else if res = ResultFound then []
        else if res = ResultNoResult then acc @ [now] else acc) h"

definition summarises :: "Service \<Rightarrow> State option \<Rightarrow> instant list \<Rightarrow> bool" where
  "summarises s st ts \<longleftrightarrow>
     (case st of
        None \<Rightarrow> ts = []
      | Some x \<Rightarrow> ts \<noteq> [] \<and> ConsecutiveNoResults x = min (int (length ts)) (sb_cap s) \<and>
          SuppressedUntil x = (if int (length ts) \<ge> sb_cap s then last ts + sb_suppress s else zeroTime))"

lemma summarises_bump:
  "summarises s st ts \<Longrightarrow> 1 \<le> sb_cap s \<Longrightarrow> summarises s (Some (bump (sb_cap s) (sb_suppress s) now st)) (ts @ [now])"
  by (auto simp: summarises_def bump_def split: option.splits)

locale search_budget_repo =
  fixes ops :: "'r Repository"
  assumes get_ok: "\<exists>st. Get ops r key = Inr st"
    and noresult_ok: "key \<noteq> '''' \<Longrightarrow> 1 \<le> cp \<Longrightarrow> 0 < d \<Longrightarrow> \<exists>r'. NoResult ops r key cp d now = Inr r'"
    and noresult_get: "NoResult ops r key cp d now = Inr r' \<Longrightarrow> Get ops r key = Inr st \<Longrightarrow>
      Get ops r' k = (if k = key then Inr (Some (bump cp d now st)) else Get ops r k)"
    and reset_ok: "\<exists>r'. Reset ops r key = Inr r'"
    and reset_get: "Reset ops r key = Inr r' \<Longrightarrow> key \<noteq> '''' \<Longrightarrow>
      Get ops r' k = (if k = key then Inr None else Get ops r k)"
begin

lemma replay_summary:
  assumes "1 \<le> sb_cap s" and "0 < sb_suppress s"
    and "\<forall>(k, res, now) \<in> set h. k \<noteq> '''' \<and> (\<forall>x. res \<noteq> ResultOther x)"
    and "Get ops r key = Inr st" and "summarises s st acc"
  shows "\<exists>r' st'. replay ops s r h = Inr r' \<and> Get ops r' key = Inr st' \<and> summarises s st' (futile_since key acc h)"
  using assms(3-5)
proof (induction h arbitrary: r st acc)
  case Nil
  then show ?case by auto
next
  case (Cons x h)
  obtain k res now where x: "x = (k, res, now)" by (cases x) auto
  have k: "k \<noteq> ''''" and res: "\<And>y. res \<noteq> ResultOther y" using Cons.prems(1) x by auto
  let ?acc = "if k \<noteq> key then acc else if res = ResultFound then []
        else if res = ResultNoResult then acc @ [now] else acc"
  obtain r1 st1 where r1: "Record ops s r now k res = Inr r1" "Get ops r1 key = Inr st1" "summarises s st1 ?acc"
  proof (cases res)
    case ResultFound
    obtain r1 where "Reset ops r k = Inr r1" using reset_ok by blast
    with reset_get [OF this k, of key] Cons.prems(2,3) ResultFound that show ?thesis
      by (cases "k = key") (auto simp: Record_def summarises_def)
  next
    case ResultNoResult
    obtain r1 where n: "NoResult ops r k (sb_cap s) (sb_suppress s) now = Inr r1"
      using noresult_ok k assms(1,2) by blast
    obtain stk where g: "Get ops r k = Inr stk" using get_ok by blast
    with noresult_get [OF n g, of key] n Cons.prems(2,3) ResultNoResult that assms(1) show ?thesis
      by (cases "k = key") (auto simp: Record_def summarises_bump)
  qed (use res that Cons.prems(2,3) in \<open>auto simp: Record_def\<close>)
  from Cons.IH [OF _ r1(2,3)] Cons.prems(1)
  obtain r' st' where "replay ops s r1 h = Inr r'" "Get ops r' key = Inr st'"
    "summarises s st' (futile_since key ?acc h)" by auto
  with r1(1) x show ?case by auto
qed

lemma Allowed_after:
  assumes "1 \<le> sb_cap s" and "0 < sb_suppress s" and "Get ops r key = Inr None"
    and "\<forall>(k, res, t) \<in> set h. k \<noteq> '''' \<and> (\<forall>x. res \<noteq> ResultOther x)"
    and "zeroTime \<le> now"
  shows "\<exists>r'. replay ops s r h = Inr r' \<and>
    Allowed ops r' now key = Inr (int (length (futile_since key [] h)) < sb_cap s \<or>
      last (futile_since key [] h) + sb_suppress s \<le> now)"
proof -
  have "summarises s None []" by (simp add: summarises_def)
  from replay_summary [OF assms(1,2,4,3) this] obtain r' st' where
    "replay ops s r h = Inr r'" "Get ops r' key = Inr st'" "summarises s st' (futile_since key [] h)" by auto
  with assms(1,5) show ?thesis
    by (auto simp: Allowed_def summarises_def not_less split: option.splits)
qed

end

subsection \<open>The table of the store\<close>

record search_budget_row =
  consecutive_no_results :: int
  suppressed_until :: "instant option"

type_synonym search_budgets = "string \<rightharpoonup> search_budget_row"

definition GetSearchBudget :: "search_budgets \<Rightarrow> string \<Rightarrow> (sb_error, State option) result" where
  "GetSearchBudget db key =
     (case db key of
        None \<Rightarrow> Inr None
      | Some row \<Rightarrow>
          Inr (Some \<lparr>ConsecutiveNoResults = consecutive_no_results row,
            SuppressedUntil = (case suppressed_until row of None \<Rightarrow> zeroTime | Some t \<Rightarrow> t)\<rparr>))"

definition RecordSearchNoResult ::
  "search_budgets \<Rightarrow> string \<Rightarrow> int \<Rightarrow> duration \<Rightarrow> instant \<Rightarrow> (sb_error, search_budgets) result" where
  "RecordSearchNoResult db key cp suppress now =
     (if key = '''' \<or> cp < 1 \<or> suppress \<le> 0 then Inl InvalidUpdate
      else
        (let deadline = now + suppress in
         case db key of
           None \<Rightarrow>
             Inr (db(key \<mapsto> \<lparr>consecutive_no_results = 1,
                            suppressed_until = (if 1 \<ge> cp then Some deadline else None)\<rparr>))
         | Some row \<Rightarrow>
             Inr (db(key \<mapsto> \<lparr>consecutive_no_results = min (consecutive_no_results row + 1) cp,
                            suppressed_until = (if consecutive_no_results row + 1 \<ge> cp then Some deadline
                                                else suppressed_until row)\<rparr>))))"

definition ResetSearchBudget :: "search_budgets \<Rightarrow> string \<Rightarrow> (sb_error, search_budgets) result" where
  "ResetSearchBudget db key = (if key = '''' then Inr db else Inr (db(key := None)))"

definition store_budgets :: "search_budgets Repository" where
  "store_budgets = \<lparr>Get = GetSearchBudget, NoResult = RecordSearchNoResult, Reset = ResetSearchBudget\<rparr>"

interpretation sbStore: search_budget_repo store_budgets
  by unfold_locales
    (auto simp: store_budgets_def GetSearchBudget_def RecordSearchNoResult_def ResetSearchBudget_def bump_def
      Let_def split: option.splits if_splits)

text \<open>C15: the budget does exactly what it is for. Over the store, after any history of recorded search
  results for any identities, an identity may be searched at an instant iff fewer than \<open>cap\<close>
  searches in a row found nothing since the last one that found something, or the last of them is
  at least the suppression window old; filtered, transient and account results and other
  identities do not matter.\<close>

theorem search_budget_decides:
  assumes "New_Service cp supp = Inr s" and "zeroTime \<le> now"
    and "\<forall>(k, res, t) \<in> set h. k \<noteq> '''' \<and> (\<forall>x. res \<noteq> ResultOther x)"
  shows "\<exists>db. replay store_budgets s Map.empty h = Inr db \<and>
    Allowed store_budgets db now key =
      Inr (int (length (futile_since key [] h)) < cp \<or> last (futile_since key [] h) + supp \<le> now)"
proof -
  have "sb_cap s = cp" "sb_suppress s = supp" "1 \<le> cp" "0 < supp"
    using assms(1) by (auto simp: New_Service_def split: if_splits)
  with sbStore.Allowed_after [of s Map.empty key h now] assms(2,3) show ?thesis
    by (simp add: store_budgets_def GetSearchBudget_def)
qed

theorem search_budget_decides_witness:
  "\<exists>s db. New_Service 2 100 = Inr s \<and>
     replay store_budgets s Map.empty [(''k'', ResultNoResult, 5), (''k'', ResultTransient, 6), (''k'', ResultNoResult, 7)] = Inr db \<and>
     Allowed store_budgets db 106 ''k'' = Inr False"
proof -
  have new: "New_Service 2 100 = Inr \<lparr>sb_cap = 2, sb_suppress = 100, active = Map.empty\<rparr>"
    by (simp add: New_Service_def)
  from search_budget_decides [OF new, of 106 "[(''k'', ResultNoResult, 5), (''k'', ResultTransient, 6), (''k'', ResultNoResult, 7)]" "''k''"]
  show ?thesis using new by (auto simp: zeroTime_def Second_def)
qed

subsection \<open>Keys of different media differ\<close>

lemma numericID_digits: "list_all is_digit (numericID raw)"
  by (auto simp: numericID_def Let_def list_all_iff dest: set_dropWhileD)

lemma firstID_clean: "firstID i = (t, x) \<Longrightarrow> CHR '':'' \<notin> set t \<and> CHR '':'' \<notin> set x"
proof -
  have colon: "CHR '':'' \<notin> set (numericID raw)" for raw
    using numericID_digits [of raw] by (auto simp: list_all_iff is_digit_def)
  then show "firstID i = (t, x) \<Longrightarrow> ?thesis"
    by (auto simp: firstID_def imdbID_def Let_def split: if_splits)
qed

lemma itoa_no_colon: "CHR '':'' \<notin> set (itoa n)"
  using itoa_chars [of "CHR '':''" n] by (auto simp: is_digit_def)

text \<open>Two media never share a budget. Keys of two identities are equal only if they have the same
  kind, the same catalogue and the same catalogue number, and, for series, the same season and
  episode; a movie's key never equals a series'.\<close>

theorem canonical_key_injective:
  assumes "CanonicalKey (Some i) season episode = Some key" and "CanonicalKey (Some j) season' episode' = Some key"
  shows "Kind i = Kind j \<and> firstID i = firstID j \<and>
    (Kind i = ''series'' \<longrightarrow> season = season' \<and> episode = episode')"
proof -
  define parts where "parts i s e = [Kind i, fst (firstID i), snd (firstID i)] @
      (if Kind i = ''series'' then [itoa s, itoa e] else [])" for i :: ProviderIdentity and s e
  have key: "key = Join (parts i season episode) (CHR '':'')" "key = Join (parts j season' episode') (CHR '':'')"
    and kinds: "Kind i \<in> {''series'', ''movie''}" "Kind j \<in> {''series'', ''movie''}"
    and nonneg: "0 \<le> season" "0 \<le> episode" "0 \<le> season'" "0 \<le> episode'"
    using assms by (auto simp: CanonicalKey_def parts_def Let_def split: if_splits prod.splits)
  have clean: "\<forall>p \<in> set (parts x s e). CHR '':'' \<notin> set p" if "Kind x \<in> {''series'', ''movie''}" for x s e
    using that firstID_clean [of x "fst (firstID x)" "snd (firstID x)"] itoa_no_colon
    by (auto simp: parts_def)
  have "Kind i = Kind j"
  proof -
    have first: "Kind x = ''series'' \<longleftrightarrow> hd (Join (parts x s e) (CHR '':'')) = CHR ''s''"
      if "Kind x \<in> {''series'', ''movie''}" for x s e
      using that by (auto simp: parts_def)
    have "Kind i = ''series'' \<longleftrightarrow> Kind j = ''series''"
      using first [OF kinds(1)] first [OF kinds(2)] key by metis
    with kinds show ?thesis by auto
  qed
  then have "length (parts i season episode) = length (parts j season' episode')" by (simp add: parts_def)
  with Join_inject [of "parts i season episode" "CHR '':''" "parts j season' episode'"] key clean kinds
  have "parts i season episode = parts j season' episode'" by simp
  with \<open>Kind i = Kind j\<close> nonneg show ?thesis
    by (auto simp: parts_def itoa_inject prod_eq_iff split: if_splits)
qed

definition demo_series :: ProviderIdentity where
  "demo_series = \<lparr>Kind = ''series'', Title = ''t'', IDs = \<lparr>TVDB = ''0042'', TMDB = '''', IMDB = ''''\<rparr>,
     Episodes = [], Year = 2000, RuntimeMinutes = 0\<rparr>"

theorem canonical_key_injective_witness:
  "CanonicalKey (Some demo_series) 1 2 = Some ''series:tvdb:42:1:2'' \<and>
   CanonicalKey (Some (demo_series\<lparr>Title := ''u''\<rparr>)) 1 2 = Some ''series:tvdb:42:1:2'' \<and>
   firstID demo_series = firstID (demo_series\<lparr>Title := ''u''\<rparr>)"
proof -
  have trim: "TrimSpace ''0042'' = ''0042''" by (rule TrimSpace_digits) (simp_all add: is_digit_def)
  have n: "numericID ''0042'' = ''42''"
    by (simp add: numericID_def trim is_digit_def)
  have d: "itoa 1 = ''1''" "itoa 2 = ''2''"
    by (simp_all add: itoa_def dec.simps digit_chr_def, simp_all add: char_of_def bit_0)
  have a: "CanonicalKey (Some demo_series) 1 2 = Some ''series:tvdb:42:1:2''"
    by (simp add: CanonicalKey_def demo_series_def firstID_def n d)
  have b: "CanonicalKey (Some (demo_series\<lparr>Title := ''u''\<rparr>)) 1 2 = Some ''series:tvdb:42:1:2''"
    by (simp add: CanonicalKey_def demo_series_def firstID_def n d)
  from canonical_key_injective [OF a b] a b show ?thesis by simp
qed

end
