(* ===== verification/StableSort.thy ===== *)
theory StableSort
  imports DH_Prelude "HOL-Library.Multiset"
begin

section \<open>Stable sorting\<close>

text \<open>The model of \<open>sort.SliceStable\<close> and of \<open>ORDER BY\<close> that the components share, and its laws.\<close>

text \<open>
  \<open>sort.SliceStable\<close>: insertion from the right, which is what it does on up to twenty elements and
  agrees with every stable sort for the two orders it is used with. The accumulator is reversed.
\<close>

fun insertStable :: "('a \<Rightarrow> 'a \<Rightarrow> bool) \<Rightarrow> 'a \<Rightarrow> 'a list \<Rightarrow> 'a list" where
  "insertStable lt x [] = [x]"
| "insertStable lt x (y # ys) = (if lt x y then y # insertStable lt x ys else x # y # ys)"

definition sortStable :: "('a \<Rightarrow> 'a \<Rightarrow> bool) \<Rightarrow> 'a list \<Rightarrow> 'a list" where
  "sortStable lt xs = rev (foldl (\<lambda>acc x. insertStable lt x acc) [] xs)"

lemma mset_insertStable [simp]: "mset (insertStable lt x ys) = add_mset x (mset ys)"
  by (induction ys) auto

lemma mset_sortStable [simp]: "mset (sortStable lt xs) = mset xs"
proof -
  have "mset (foldl (\<lambda>acc x. insertStable lt x acc) acc xs) = mset acc + mset xs" for acc
    by (induction xs arbitrary: acc) auto
  then show ?thesis by (simp add: sortStable_def)
qed

text \<open>With a transitive order whose incomparability is transitive, nothing later is less.\<close>

lemma insertStable_sorted:
  assumes trans: "\<And>a b c. lt a b \<Longrightarrow> \<not> lt c b \<Longrightarrow> lt a c"
    and "sorted_wrt (\<lambda>a b. \<not> lt a b) ys"
    and irr: "\<And>a b. lt a b \<Longrightarrow> \<not> lt b a"
  shows "sorted_wrt (\<lambda>a b. \<not> lt a b) (insertStable lt x ys)"
  using assms(2)
proof (induction ys)
  case Nil
  then show ?case by simp
next
  case (Cons y ys)
  have set: "set (insertStable lt x ys) = insert x (set ys)"
    by (metis mset_insertStable set_mset_add_mset_insert set_mset_mset)
  show ?case
  proof (cases "lt x y")
    case True
    with Cons set irr show ?thesis by auto
  next
    case False
    have "\<not> lt x z" if "z \<in> set ys" for z
      using False trans [of x z y] Cons.prems that by auto
    with False Cons.prems show ?thesis by auto
  qed
qed

lemma sortStable_sorted:
  assumes "\<And>a b c. lt a b \<Longrightarrow> \<not> lt c b \<Longrightarrow> lt a c" and "\<And>a b. lt a b \<Longrightarrow> \<not> lt b a"
  shows "sorted_wrt (\<lambda>a b. \<not> lt b a) (sortStable lt xs)"
proof -
  have "sorted_wrt (\<lambda>a b. \<not> lt a b) (foldl (\<lambda>acc x. insertStable lt x acc) acc xs)"
    if "sorted_wrt (\<lambda>a b. \<not> lt a b) acc" for acc
    using that
  proof (induction xs arbitrary: acc)
    case (Cons x xs)
    have "sorted_wrt (\<lambda>a b. \<not> lt a b) (insertStable lt x acc)"
      using assms(1) Cons.prems assms(2) by (rule insertStable_sorted)
    then show ?case using Cons.IH by simp
  qed simp
  then show ?thesis by (simp add: sortStable_def sorted_wrt_rev)
qed

lemma set_sortStable [simp]: "set (sortStable lt xs) = set xs"
  by (metis mset_sortStable set_mset_mset)

lemma length_sortStable [simp]: "length (sortStable lt xs) = length xs"
  by (metis mset_sortStable size_mset)

lemma distinct_sortStable [simp]: "distinct (sortStable lt xs) = distinct xs"
  by (metis mset_eq_imp_distinct_iff mset_sortStable)

end
