(* ===== verification/NntpHealth.thy ===== *)
theory NntpHealth
  imports StableSort
begin

section \<open>Usenet scheduling state: negative cache and provider health\<close>

text \<open>
  Models \<open>internal/nntp/negcache.go\<close> and \<open>internal/nntp/health.go\<close>. Both keep in-memory maps under
  a lock and read an injectable clock; each method is a function of the state and of the clock's
  reading. A nil receiver is \<open>None\<close> (negative cache) and is not modelled separately for the health
  tracker, whose nil methods do nothing. Where the code ranges over a map the order is an argument.

  The propagation-lag averages are \<open>float64\<close>; their type \<open>'f\<close>, the conversion from seconds, the
  weighted average and the comparison are arguments, so what is proved holds for the rounded
  arithmetic of the machine as for any other.
\<close>

subsection \<open>Negative cache\<close>

record negativeCache =
  nc_ttl :: duration
  nc_max :: int
  nc_entries :: "string \<rightharpoonup> instant"
  nc_hits :: "64 word"
  nc_writes :: "64 word"

definition defaultNegCacheMaxEntries :: int where "defaultNegCacheMaxEntries = 50000"

definition newNegativeCache :: "duration \<Rightarrow> int \<Rightarrow> negativeCache option" where
  "newNegativeCache ttl mx =
     (if ttl \<le> 0 then None
      else Some \<lparr>nc_ttl = ttl, nc_max = (if mx \<le> 0 then defaultNegCacheMaxEntries else mx),
                 nc_entries = Map.empty, nc_hits = 0, nc_writes = 0\<rparr>)"

definition nc_Has :: "negativeCache option \<Rightarrow> instant \<Rightarrow> string \<Rightarrow> bool \<times> negativeCache option" where
  "nc_Has n now messageID =
     (case n of
        None \<Rightarrow> (False, None)
      | Some c \<Rightarrow>
          if messageID = '''' then (False, n)
          else
            (case nc_entries c messageID of
               None \<Rightarrow> (False, n)
             | Some expiry \<Rightarrow>
                 if \<not> now < expiry
                 then (False, Some (c\<lparr>nc_entries := (nc_entries c)(messageID := None)\<rparr>))
                 else (True, Some (c\<lparr>nc_hits := nc_hits c + 1\<rparr>))))"

text \<open>The second loop of \<open>evictLocked\<close>: delete in iteration order until the low-water mark.\<close>

fun evictDown :: "nat \<Rightarrow> string list \<Rightarrow> (string \<rightharpoonup> instant) \<Rightarrow> (string \<rightharpoonup> instant)" where
  "evictDown low [] m = m"
| "evictDown low (k # ks) m = (if card (dom m) \<le> low then m else evictDown low ks (m(k := None)))"

definition evictLocked :: "negativeCache \<Rightarrow> instant \<Rightarrow> string list \<Rightarrow> negativeCache" where
  "evictLocked c now order =
     (let live = (\<lambda>k. case nc_entries c k of None \<Rightarrow> None
                     | Some expiry \<Rightarrow> if \<not> now < expiry then None else Some expiry);
          low = nat (go_div (nc_max c * 9) 10)
      in c\<lparr>nc_entries := evictDown low order live\<rparr>)"

text \<open>The clock is read by the eviction, if there is one (\<open>evictNow\<close>), and again for the expiry.\<close>

definition nc_Put :: "negativeCache option \<Rightarrow> instant \<Rightarrow> instant \<Rightarrow> string list \<Rightarrow> string \<Rightarrow> negativeCache option" where
  "nc_Put n evictNow now order messageID =
     (case n of
        None \<Rightarrow> None
      | Some c \<Rightarrow>
          if messageID = '''' then n
          else
            (let c1 = (if int (card (dom (nc_entries c))) \<ge> nc_max c then evictLocked c evictNow order else c)
             in Some (c1\<lparr>nc_entries := (nc_entries c1)(messageID \<mapsto> now + nc_ttl c1),
                         nc_writes := nc_writes c1 + 1\<rparr>)))"

definition nc_Stats :: "negativeCache option \<Rightarrow> nat \<times> 64 word \<times> 64 word" where
  "nc_Stats n = (case n of None \<Rightarrow> (0, 0, 0) | Some c \<Rightarrow> (card (dom (nc_entries c)), nc_hits c, nc_writes c))"

text \<open>
  A run of the cache: lookups and verdicts at given instants. \<open>NPut\<close> carries the order in which an
  eviction would visit the map.
\<close>

datatype nc_op = NHas instant string | NPut instant instant "string list" string

inductive nc_run :: "negativeCache \<Rightarrow> nc_op list \<Rightarrow> negativeCache \<Rightarrow> bool" where
  empty: "nc_run c [] c"
| has: "nc_run c ops (c1) \<Longrightarrow> nc_Has (Some c1) now m = (b, Some c2) \<Longrightarrow> nc_run c (ops @ [NHas now m]) c2"
| put: "nc_run c ops c1 \<Longrightarrow> set order = dom (nc_entries c1) \<Longrightarrow>
    nc_Put (Some c1) evictNow now order m = Some c2 \<Longrightarrow> nc_run c (ops @ [NPut evictNow now order m]) c2"

definition nc_inv :: "negativeCache \<Rightarrow> nc_op list \<Rightarrow> negativeCache \<Rightarrow> bool" where
  "nc_inv c0 ops c \<longleftrightarrow> nc_ttl c = nc_ttl c0 \<and> nc_max c = nc_max c0 \<and> finite (dom (nc_entries c)) \<and>
     int (card (dom (nc_entries c))) \<le> nc_max c \<and>
     (\<forall>m expiry. nc_entries c m = Some expiry \<longrightarrow>
        (\<exists>te t order. NPut te t order m \<in> set ops \<and> expiry = t + nc_ttl c))"

lemma evictDown_sub: "evictDown low ks m k = Some e \<Longrightarrow> m k = Some e"
proof (induction ks arbitrary: m)
  case (Cons a ks)
  then show ?case
    using Cons.IH [of "m(a := None)"] by (cases "k = a") (auto simp: fun_upd_def split: if_splits)
qed simp

lemma evictDown_finite: "finite (dom m) \<Longrightarrow> finite (dom (evictDown low ks m))"
  by (induction ks arbitrary: m) auto

lemma evictDown_card:
  "finite (dom m) \<Longrightarrow> dom m \<subseteq> set ks \<Longrightarrow> card (dom (evictDown low ks m)) \<le> low"
proof (induction ks arbitrary: m)
  case Nil
  then show ?case by simp
next
  case (Cons k ks)
  have "dom (m(k := None)) \<subseteq> set ks" and "finite (dom (m(k := None)))"
    using Cons.prems by auto
  from Cons.IH [OF this(2,1)] show ?case by (simp add: fun_upd_def)
qed

lemma evictLocked_entries:
  assumes "finite (dom (nc_entries c))" and "set order = dom (nc_entries c)" and "0 < nc_max c"
  shows "nc_entries (evictLocked c now order) m = Some e \<Longrightarrow> nc_entries c m = Some e"
    and "finite (dom (nc_entries (evictLocked c now order)))"
    and "int (card (dom (nc_entries (evictLocked c now order)))) < nc_max c"
proof -
  let ?live = "\<lambda>k. case nc_entries c k of None \<Rightarrow> None
                     | Some expiry \<Rightarrow> if \<not> now < expiry then None else Some expiry"
  let ?low = "nat (go_div (nc_max c * 9) 10)"
  have sub: "dom ?live \<subseteq> dom (nc_entries c)" by (auto split: option.splits)
  then have fin: "finite (dom ?live)" using assms(1) finite_subset by blast
  have e: "nc_entries (evictLocked c now order) = evictDown ?low order ?live"
    by (simp add: evictLocked_def Let_def)
  show "nc_entries (evictLocked c now order) m = Some e \<Longrightarrow> nc_entries c m = Some e"
    unfolding e by (drule evictDown_sub) (auto split: option.splits if_splits)
  show "finite (dom (nc_entries (evictLocked c now order)))"
    unfolding e using fin by (rule evictDown_finite)
  have "card (dom (evictDown ?low order ?live)) \<le> ?low"
    using fin sub assms(2) by (intro evictDown_card) auto
  moreover have "nc_max c * 9 div 10 < nc_max c" using assms(3) by presburger
  then have "int ?low < nc_max c" using assms(3) by (simp add: go_div_nonneg)
  ultimately show "int (card (dom (nc_entries (evictLocked c now order)))) < nc_max c"
    unfolding e by linarith
qed

lemma nc_run_inv: "nc_run c0 ops c \<Longrightarrow> nc_inv c0 [] c0 \<Longrightarrow> 0 < nc_max c0 \<Longrightarrow> nc_inv c0 ops c"
proof (induction rule: nc_run.induct)
  case (empty c)
  then show ?case by simp
next
  case (has c ops c1 now m b c2)
  then have inv: "nc_inv c ops c1" by simp
  have "nc_ttl c2 = nc_ttl c1" "nc_max c2 = nc_max c1"
    and sub: "\<And>k e. nc_entries c2 k = Some e \<Longrightarrow> nc_entries c1 k = Some e"
    using has.hyps(2) by (auto simp: nc_Has_def split: option.splits if_splits)
  moreover from sub have "dom (nc_entries c2) \<subseteq> dom (nc_entries c1)" by force
  then have "card (dom (nc_entries c2)) \<le> card (dom (nc_entries c1))" "finite (dom (nc_entries c2))"
    using inv by (auto simp: nc_inv_def intro: card_mono finite_subset)
  moreover have "\<exists>te t order. NPut te t order k \<in> set (ops @ [NHas now m]) \<and> e = t + nc_ttl c1"
    if "nc_entries c2 k = Some e" for k e
    using inv sub [OF that] by (fastforce simp: nc_inv_def)
  ultimately show ?case using inv unfolding nc_inv_def by auto
next
  case (put c ops c1 order evictNow now m c2)
  then have inv: "nc_inv c ops c1" by simp
  have pos: "0 < nc_max c1" using inv put.prems(2) by (simp add: nc_inv_def)
  have fin: "finite (dom (nc_entries c1))" using inv by (simp add: nc_inv_def)
  note ev = evictLocked_entries [OF fin put.hyps(2) pos, of evictNow]
  show ?case
  proof (cases "m = ''''")
    case True
    with put.hyps(3) inv show ?thesis by (fastforce simp: nc_Put_def nc_inv_def)
  next
    case False
    define d where "d = (if int (card (dom (nc_entries c1))) \<ge> nc_max c1 then evictLocked c1 evictNow order else c1)"
    have d: "nc_ttl d = nc_ttl c1" "nc_max d = nc_max c1" "finite (dom (nc_entries d))"
      "int (card (dom (nc_entries d))) < nc_max c1"
      and sub: "\<And>k e. nc_entries d k = Some e \<Longrightarrow> nc_entries c1 k = Some e"
      using ev fin by (auto simp: d_def evictLocked_def Let_def split: if_splits)
    have c2: "c2 = d\<lparr>nc_entries := (nc_entries d)(m \<mapsto> now + nc_ttl d), nc_writes := nc_writes d + 1\<rparr>"
      using put.hyps(3) False by (simp add: nc_Put_def d_def Let_def)
    have "card (dom (nc_entries c2)) \<le> Suc (card (dom (nc_entries d)))"
      using d(3) by (simp add: c2 card_insert_if)
    moreover have "\<exists>te t ord. NPut te t ord k \<in> set (ops @ [NPut evictNow now order m]) \<and> e = t + nc_ttl c2"
      if "nc_entries c2 k = Some e" for k e
    proof (cases "k = m")
      case True
      with that show ?thesis by (auto simp: c2)
    next
      case False
      with that sub have "nc_entries c1 k = Some e" by (simp add: c2)
      with inv d(1) show ?thesis by (fastforce simp: nc_inv_def c2)
    qed
    ultimately show ?thesis
      using inv d unfolding nc_inv_def by (auto simp: c2)
  qed
qed

text \<open>C16: the negative cache never invents a verdict and never grows past its bound. Whatever the
  sequence of lookups and verdicts and whatever an eviction drops, a lookup that answers "missing"
  does so because that article was reported missing less than the TTL before, the number of entries
  never exceeds the maximum, and right after a verdict the lookup answers "missing" for the whole
  TTL.\<close>

theorem negative_cache_sound:
  assumes "newNegativeCache ttl mx = Some c0" and "nc_run c0 ops c"
  shows "(\<forall>now m. fst (nc_Has (Some c) now m) \<longrightarrow> (\<exists>te t order. NPut te t order m \<in> set ops \<and> now < t + ttl)) \<and>
    int (fst (nc_Stats (Some c))) \<le> (if mx \<le> 0 then 50000 else mx) \<and>
    (\<forall>m now te t order. m \<noteq> '''' \<and> now < t + ttl \<longrightarrow> fst (nc_Has (nc_Put (Some c) te t order m) now m))"
proof -
  have c0: "nc_ttl c0 = ttl" "nc_max c0 = (if mx \<le> 0 then 50000 else mx)" "0 < nc_max c0" "nc_inv c0 [] c0"
    using assms(1)
    by (auto simp: newNegativeCache_def nc_inv_def defaultNegCacheMaxEntries_def split: if_splits)
  then have inv: "nc_inv c0 ops c" using nc_run_inv [OF assms(2)] by simp
  then have ttl: "nc_ttl c = ttl" using c0 by (simp add: nc_inv_def)
  have "\<exists>te t order. NPut te t order m \<in> set ops \<and> now < t + ttl" if hit: "fst (nc_Has (Some c) now m)" for now m
  proof -
    obtain e where e: "nc_entries c m = Some e" "now < e"
      using hit by (auto simp: nc_Has_def split: option.splits if_splits)
    from inv e(1) ttl obtain te t order where "NPut te t order m \<in> set ops" "e = t + ttl"
      unfolding nc_inv_def by blast
    with e(2) show ?thesis by auto
  qed
  moreover have "int (fst (nc_Stats (Some c))) \<le> (if mx \<le> 0 then 50000 else mx)"
    using inv c0 by (simp add: nc_Stats_def nc_inv_def)
  moreover have "fst (nc_Has (nc_Put (Some c) te t order m) now m)" if "m \<noteq> ''''" "now < t + ttl" for m now te t order
    using that ttl by (auto simp: nc_Has_def nc_Put_def evictLocked_def Let_def)
  ultimately show ?thesis by blast
qed

theorem negative_cache_sound_witness:
  "\<exists>c0 c. newNegativeCache 10 2 = Some c0 \<and> nc_run c0 [NPut 4 5 [] ''<a@b>''] c \<and>
     int (fst (nc_Stats (Some c))) \<le> 2 \<and>
     (\<forall>now m. fst (nc_Has (Some c) now m) \<longrightarrow> (\<exists>te t order. NPut te t order m \<in> set [NPut 4 5 [] ''<a@b>''] \<and> now < t + 10))"
proof -
  let ?c0 = "\<lparr>nc_ttl = 10, nc_max = 2, nc_entries = Map.empty, nc_hits = 0, nc_writes = 0\<rparr>"
  have new: "newNegativeCache 10 2 = Some ?c0" by (simp add: newNegativeCache_def)
  obtain c where "nc_Put (Some ?c0) 4 5 [] ''<a@b>'' = Some c" by (auto simp: nc_Put_def)
  then have run: "nc_run ?c0 [NPut 4 5 [] ''<a@b>''] c"
    using nc_run.put [OF nc_run.empty, of "[]" ?c0 4 5] by simp
  from negative_cache_sound [OF new run] have "int (fst (nc_Stats (Some c))) \<le> 2" by simp
  with negative_cache_sound [OF new run, THEN conjunct1] new run show ?thesis by blast
qed

subsection \<open>Provider health\<close>

record providerHealthState =
  consecutiveFailures :: int
  backoffUntil :: instant

record 'f providerLagAvg =
  samples :: int
  meanSec :: 'f

record Pool =
  providerName :: string
  poolTag :: nat

record 'f ProviderHealth =
  h_state :: "string \<rightharpoonup> providerHealthState"
  h_stripe :: bool
  retentionDays :: "string \<rightharpoonup> int"
  observedRoute :: "string set"
  stripeCursor :: "64 word"
  lagYoungAgeSec :: int
  lagMinSamples :: int
  lagState :: "string \<rightharpoonup> 'f providerLagAvg"

definition providerHealthBackoffBase :: duration where "providerHealthBackoffBase = 2 * Second"
definition providerHealthBackoffCap :: duration where "providerHealthBackoffCap = 2 * Minute"
definition providerHealthBackoffThreshold :: int where "providerHealthBackoffThreshold = 2"

definition NewProviderHealthWithRouting :: "bool \<Rightarrow> (string \<rightharpoonup> int) \<Rightarrow> 'f ProviderHealth" where
  "NewProviderHealthWithRouting stripe days =
     \<lparr>h_state = Map.empty, h_stripe = stripe,
      retentionDays = (\<lambda>name. case days name of None \<Rightarrow> None
                         | Some d \<Rightarrow> if name \<noteq> '''' \<and> d > 0 then Some d else None),
      observedRoute = {}, stripeCursor = 0, lagYoungAgeSec = 0, lagMinSamples = 0, lagState = Map.empty\<rparr>"

definition NewProviderHealth :: "'f ProviderHealth" where
  "NewProviderHealth = NewProviderHealthWithRouting False Map.empty"

definition SetLagModel :: "'f ProviderHealth \<Rightarrow> int \<Rightarrow> int \<Rightarrow> 'f ProviderHealth" where
  "SetLagModel h youngAgeSec minSamples =
     (if youngAgeSec \<le> 0 then h\<lparr>lagYoungAgeSec := 0\<rparr>
      else h\<lparr>lagYoungAgeSec := youngAgeSec, lagMinSamples := (if minSamples < 1 then 1 else minSamples)\<rparr>)"

definition RecordSuccess :: "'f ProviderHealth \<Rightarrow> string \<Rightarrow> 'f ProviderHealth" where
  "RecordSuccess h name = (if name = '''' then h else h\<lparr>h_state := (h_state h)(name := None)\<rparr>)"

definition RecordSuccessAt ::
  "(int \<Rightarrow> 'f) \<Rightarrow> ('f \<Rightarrow> 'f \<Rightarrow> 'f) \<Rightarrow> 'f ProviderHealth \<Rightarrow> instant \<Rightarrow> string \<Rightarrow> int \<Rightarrow> 'f ProviderHealth" where
  "RecordSuccessAt of_age ewma h now name postedAt =
     (let h1 = RecordSuccess h name in
      if name = '''' \<or> postedAt \<le> 0 then h1
      else if lagYoungAgeSec h1 = 0 then h1
      else if postedAt > unix now then h1
      else
        (let age = of_age (unix now - postedAt);
             st = (case lagState h1 name of
                     None \<Rightarrow> \<lparr>samples = 1, meanSec = age\<rparr>
                   | Some a \<Rightarrow> \<lparr>samples = samples a + 1,
                       meanSec = (if samples a + 1 = 1 then age else ewma age (meanSec a))\<rparr>)
         in h1\<lparr>lagState := (lagState h1)(name \<mapsto> st)\<rparr>))"

definition lagAverage :: "'f ProviderHealth \<Rightarrow> string \<Rightarrow> 'f option" where
  "lagAverage h name =
     (if name = '''' then None
      else case lagState h name of
        None \<Rightarrow> None
      | Some a \<Rightarrow> if samples a < lagMinSamples h then None else Some (meanSec a))"

text \<open>The shift of the \<open>int64\<close> base, which may overflow, and the test that replaces what did.\<close>

definition backoffFor :: "int \<Rightarrow> duration" where
  "backoffFor failures =
     (let shift = nat (failures - providerHealthBackoffThreshold);
          backoff = sint (push_bit shift (word_of_int providerHealthBackoffBase :: 64 word))
      in if backoff \<le> 0 \<or> backoff > providerHealthBackoffCap then providerHealthBackoffCap else backoff)"

definition RecordFailure :: "'f ProviderHealth \<Rightarrow> instant \<Rightarrow> string \<Rightarrow> 'f ProviderHealth" where
  "RecordFailure h now name =
     (if name = '''' then h
      else
        (let st = (case h_state h name of None \<Rightarrow> \<lparr>consecutiveFailures = 0, backoffUntil = zeroTime\<rparr> | Some s \<Rightarrow> s);
             st1 = st\<lparr>consecutiveFailures := consecutiveFailures st + 1\<rparr>;
             st2 = (if consecutiveFailures st1 < providerHealthBackoffThreshold then st1
                    else st1\<lparr>backoffUntil := now + backoffFor (consecutiveFailures st1)\<rparr>)
         in h\<lparr>h_state := (h_state h)(name \<mapsto> st2)\<rparr>))"

definition Backoff :: "'f ProviderHealth \<Rightarrow> instant \<Rightarrow> string \<Rightarrow> duration" where
  "Backoff h now name =
     (if name = '''' then 0
      else case h_state h name of
        None \<Rightarrow> 0
      | Some st \<Rightarrow>
          (let remaining = time_sub (backoffUntil st) now
           in if remaining \<le> 0 then 0 else remaining))"

definition firstSuccessfulRoute :: "'f ProviderHealth \<Rightarrow> string \<Rightarrow> string \<Rightarrow> bool \<times> 'f ProviderHealth" where
  "firstSuccessfulRoute h prov policy =
     (if prov = '''' \<or> policy = '''' then (False, h)
      else
        (let key = policy @ CHR 0x00 # prov in
         if key \<in> observedRoute h then (False, h)
         else (True, h\<lparr>observedRoute := insert key (observedRoute h)\<rparr>)))"

subsubsection \<open>Candidate order\<close>

definition retentionOf :: "'f ProviderHealth \<Rightarrow> Pool \<Rightarrow> int" where
  "retentionOf h p = (case retentionDays h (providerName p) of None \<Rightarrow> 0 | Some d \<Rightarrow> d)"

definition retentionLess :: "'f ProviderHealth \<Rightarrow> Pool \<Rightarrow> Pool \<Rightarrow> bool" where
  "retentionLess h p q =
     (let left = retentionOf h p; right = retentionOf h q in
      if left = right then False
      else if left = 0 then False
      else if right = 0 then True
      else left > right)"

definition lagLess :: "('f \<Rightarrow> 'f \<Rightarrow> bool) \<Rightarrow> 'f ProviderHealth \<Rightarrow> Pool \<Rightarrow> Pool \<Rightarrow> bool" where
  "lagLess flt h p q =
     (case (lagAverage h (providerName p), lagAverage h (providerName q)) of
        (Some a, Some b) \<Rightarrow> flt a b
      | (Some _, None) \<Rightarrow> True
      | _ \<Rightarrow> False)"

definition retentionApplies :: "'f ProviderHealth \<Rightarrow> int \<Rightarrow> int \<Rightarrow> Pool list \<Rightarrow> bool" where
  "retentionApplies h nowUnix postedAt healthy =
     (let ageDays = (if postedAt > 0 \<and> postedAt \<le> nowUnix then go_div (nowUnix - postedAt) 86400 else - 1)
      in ageDays \<ge> 0 \<and> list_ex (\<lambda>p. retentionOf h p > 0 \<and> ageDays > retentionOf h p) healthy)"

text \<open>
  \<open>orderCandidates\<close> takes the lock anew for every question it asks, so the tracker and the clock may be others each time: \<open>views i\<close> is
  what the \<open>i\<close>-th of these accesses sees. With \<open>n\<close> candidates, access \<open>i < n\<close> asks for the backoff of candidate \<open>i\<close>, access \<open>n\<close>
  reads the clock, access \<open>n + 1\<close> the lag threshold, access \<open>n + 2 + j\<close> the average of the \<open>j\<close>-th healthy candidate. The
  comparisons of one sort by lag are made on one more view, since the order in which a sort compares is not specified. The
  configuration (\<open>stripe\<close>, \<open>retentionDays\<close>) is set once at construction; it and the atomic cursor are read from \<open>h\<close>.
\<close>

type_synonym 'f health_views = "nat \<Rightarrow> 'f ProviderHealth \<times> instant"

definition backedOffAt :: "'f health_views \<Rightarrow> nat \<Rightarrow> Pool \<Rightarrow> bool" where
  "backedOffAt views i p \<longleftrightarrow> Backoff (fst (views i)) (snd (views i)) (providerName p) > 0"

text \<open>The loop over the candidates: healthy and backed-off ones. A nil candidate is \<open>None\<close>.\<close>

fun splitHealth :: "'f health_views \<Rightarrow> nat \<Rightarrow> Pool option list \<Rightarrow> Pool list \<times> Pool list" where
  "splitHealth views i [] = ([], [])"
| "splitHealth views i (None # cs) = splitHealth views (Suc i) cs"
| "splitHealth views i (Some p # cs) =
     (case splitHealth views (Suc i) cs of (healthy, backedOff) \<Rightarrow>
        if backedOffAt views i p then (healthy, p # backedOff) else (p # healthy, backedOff))"

definition lagApplies :: "'f health_views \<Rightarrow> nat \<Rightarrow> int \<Rightarrow> int \<Rightarrow> Pool list \<Rightarrow> bool" where
  "lagApplies views k nowUnix postedAt healthy \<longleftrightarrow>
     (let youngAgeSec = lagYoungAgeSec (fst (views k)) in
      youngAgeSec > 0 \<and> postedAt > 0 \<and> postedAt \<le> nowUnix \<and> nowUnix - postedAt < youngAgeSec \<and>
      length (filter (\<lambda>(j, p). lagAverage (fst (views (k + 1 + j))) (providerName p) \<noteq> None) (enumerate 0 healthy)) \<ge> 2)"

definition orderCandidates ::
  "('f \<Rightarrow> 'f \<Rightarrow> bool) \<Rightarrow> 'f ProviderHealth \<Rightarrow> 'f health_views \<Rightarrow> Pool option list \<Rightarrow> int \<Rightarrow>
   (Pool option list \<times> string) \<times> 'f ProviderHealth" where
  "orderCandidates flt h views candidates postedAt =
     (if length candidates < 2 then ((candidates, ''preference''), h)
      else
        (case splitHealth views 0 candidates of (healthy, backedOff) \<Rightarrow>
           let n = length candidates; nowUnix = unix (snd (views n))
           in if healthy = [] then ((candidates, ''preference''), h)
            else if retentionApplies h nowUnix postedAt healthy
              then ((map Some (sortStable (retentionLess h) healthy @ backedOff), ''retention''), h)
            else if lagApplies views (n + 1) nowUnix postedAt healthy
              then ((map Some (sortStable (lagLess flt (fst (views (n + 2 + length healthy)))) healthy @ backedOff), ''lag''), h)
            else if h_stripe h \<and> length healthy > 1
              then
                (let start = unat (stripeCursor h mod of_nat (length healthy))
                 in ((map Some (drop start healthy @ take start healthy @ backedOff), ''stripe''),
                     h\<lparr>stripeCursor := stripeCursor h + 1\<rparr>))
            else ((map Some (healthy @ backedOff), ''preference''), h)))"

subsection \<open>Backoff\<close>

lemma sint_push_bit_small:
  assumes "n < 33"
  shows "sint (push_bit n (2000000000 :: 64 word)) = 2000000000 * 2 ^ n"
proof -
  have "(2 :: int) ^ n \<le> 2 ^ 32" using assms by (intro power_increasing) auto
  then have r: "2000000000 * 2 ^ n < (2 :: int) ^ 63" by simp
  have w: "push_bit n (2000000000 :: 64 word) = word_of_int (2000000000 * 2 ^ n)"
    by (simp add: push_bit_eq_mult)
  have "sint (word_of_int x :: 64 word) = x" if "0 \<le> x" "x < 2 ^ 63" for x
    unfolding int_word_sint using that by simp
  from this [OF _ r] show ?thesis by (simp only: w) simp
qed

text \<open>From shift 33 on, what is left of the product is a multiple of \<open>2 ^ 43\<close>: either not positive or
  far above the cap.\<close>

lemma sint_push_bit_large:
  assumes "33 \<le> n"
  shows "sint (push_bit n (2000000000 :: 64 word)) \<le> 0 \<or> sint (push_bit n (2000000000 :: 64 word)) \<ge> 2 ^ 43"
proof -
  let ?w = "push_bit n (2000000000 :: 64 word)"
  have "push_bit n (2000000000 :: 64 word) = word_of_int (push_bit n 2000000000)"
    by (simp add: push_bit_eq_mult)
  moreover have "(push_bit n 2000000000 :: int) = 2 ^ 43 * (1953125 * 2 ^ (n - 33))"
  proof -
    have "(2 :: int) ^ n = 2 ^ (33 + (n - 33))" using assms by simp
    then have "(2 :: int) ^ n = 2 ^ 33 * 2 ^ (n - 33)" by (simp only: power_add)
    then show ?thesis by (simp add: push_bit_eq_mult)
  qed
  ultimately have w: "?w = word_of_int (2 ^ 43 * (1953125 * 2 ^ (n - 33)))" by simp
  have "(2 :: int) ^ 43 dvd sint ?w"
  proof -
    have "sint ?w = (2 ^ 43 * (1953125 * 2 ^ (n - 33)) + 2 ^ 63) mod 2 ^ 64 - (2 :: int) ^ 63"
      unfolding w int_word_sint by simp
    moreover have "(2 :: int) ^ 43 dvd (2 ^ 43 * (1953125 * 2 ^ (n - 33)) + 2 ^ 63) mod 2 ^ 64"
      by (intro dvd_mod dvd_add) (simp_all add: le_imp_power_dvd)
    moreover have "(2 :: int) ^ 43 dvd 2 ^ 63" by (simp add: le_imp_power_dvd)
    ultimately show ?thesis by (metis dvd_diff)
  qed
  then show ?thesis using zdvd_imp_le [of "2 ^ 43" "sint ?w"] by linarith
qed

lemma backoffFor_exact:
  assumes "2 \<le> failures"
  shows "backoffFor failures = min (2 * Second * 2 ^ nat (failures - 2)) (2 * Minute)"
proof (cases "nat (failures - 2) < 33")
  case True
  then show ?thesis
    by (auto simp: backoffFor_def providerHealthBackoffThreshold_def providerHealthBackoffBase_def
        providerHealthBackoffCap_def sint_push_bit_small time_units Let_def min_def)
next
  case False
  then have "(2 :: int) ^ 33 \<le> 2 ^ nat (failures - 2)" by (intro power_increasing) auto
  moreover have "sint (push_bit (nat (failures - 2)) (2000000000 :: 64 word)) \<le> 0 \<or>
      sint (push_bit (nat (failures - 2)) (2000000000 :: 64 word)) \<ge> 2 ^ 43"
    using False by (intro sint_push_bit_large) simp
  ultimately show ?thesis
    by (auto simp: backoffFor_def providerHealthBackoffThreshold_def providerHealthBackoffBase_def
        providerHealthBackoffCap_def time_units Let_def min_def)
qed

fun fail_times :: "'f ProviderHealth \<Rightarrow> string \<Rightarrow> instant list \<Rightarrow> 'f ProviderHealth" where
  "fail_times h name [] = h"
| "fail_times h name (t # ts) = fail_times (RecordFailure h t name) name ts"

lemma fail_times_state:
  assumes "name \<noteq> ''''" and "ts \<noteq> []"
    and "h_state h name = (if c = 0 then None else Some st)" and "c \<noteq> 0 \<longrightarrow> consecutiveFailures st = int c"
    and "c < 2 \<and> c \<noteq> 0 \<longrightarrow> backoffUntil st = zeroTime"
  shows "\<exists>st'. h_state (fail_times h name ts) name = Some st' \<and>
    consecutiveFailures st' = int (c + length ts) \<and>
    backoffUntil st' = (if c + length ts < 2 then zeroTime else last ts + backoffFor (int (c + length ts)))"
  using assms
proof (induction ts arbitrary: h c st)
  case Nil
  then show ?case by simp
next
  case (Cons t ts)
  define st1 where "st1 = the (h_state (RecordFailure h t name) name)"
  have s1: "h_state (RecordFailure h t name) name = Some st1" "consecutiveFailures st1 = int (Suc c)"
    "backoffUntil st1 = (if Suc c < 2 then zeroTime else t + backoffFor (int (Suc c)))"
    using Cons.prems(1,3-5)
    by (auto simp: st1_def RecordFailure_def Let_def providerHealthBackoffThreshold_def add.commute split: if_splits)
  show ?case
  proof (cases "ts = []")
    case True
    with s1 show ?thesis by simp
  next
    case False
    with Cons.IH [of "RecordFailure h t name" "Suc c" st1] s1 Cons.prems(1) show ?thesis
      by (auto simp: less_Suc_eq)
  qed
qed

text \<open>Below the threshold there is no backoff, which the comment on \<open>providerHealthBackoffBase\<close> describes differently.\<close>

lemma single_failure_no_backoff:
  assumes "name \<noteq> ''''" and "h_state h name = None" and "zeroTime \<le> now"
  shows "Backoff (fail_times h name [t]) now name = 0"
  using assms by (simp add: RecordFailure_def Backoff_def Let_def time_sub_nonpos providerHealthBackoffThreshold_def)

text \<open>C17: provider backoff grows as configured for every run of failures that reaches the threshold, however long: the base
  of two seconds at the second failure, doubling with each further one up to two minutes, counted from the last
  failure and never lost to the overflow of the shift; one success clears it, and other providers
  are not affected.\<close>

theorem provider_backoff_schedule:
  assumes "name \<noteq> ''''" and "h_state h name = None" and "2 \<le> length ts" and "last ts \<le> now"
  shows "Backoff (fail_times h name ts) now name =
      max 0 (last ts + min (2 * Second * 2 ^ (length ts - 2)) (2 * Minute) - now) \<and>
    Backoff (RecordSuccess (fail_times h name ts) name) now name = 0 \<and>
    (\<forall>other. other \<noteq> name \<longrightarrow> Backoff (fail_times h name ts) now other = Backoff h now other)"
proof -
  have "ts \<noteq> []" using assms(3) by auto
  then obtain st where st: "h_state (fail_times h name ts) name = Some st" "backoffUntil st = last ts + backoffFor (int (length ts))"
    using fail_times_state [OF assms(1), of ts h 0] assms(2,3) by auto
  let ?d = "min (2 * Second * 2 ^ (length ts - 2)) (2 * Minute)"
  have n: "nat (int (length ts) - 2) = length ts - 2" by simp
  have until: "backoffUntil st = last ts + ?d"
    using st assms(3) backoffFor_exact [of "int (length ts)"] n by simp
  have "?d \<le> 120000000000" by (simp add: time_units)
  then have le: "last ts + ?d - now \<le> MaxInt64" using assms(4) by (simp add: MaxInt64_def)
  have "time_sub (last ts + ?d) now = last ts + ?d - now" if "0 < last ts + ?d - now"
    using le that by (intro time_sub_exact) (auto simp: in_int64_def MinInt64_def)
  moreover have "time_sub (last ts + ?d) now \<le> 0 \<longleftrightarrow> last ts + ?d - now \<le> 0"
    using time_sub_nonpos [of "last ts + ?d" now] by linarith
  ultimately have "Backoff (fail_times h name ts) now name = max 0 (last ts + ?d - now)"
    using st(1) assms(1) by (auto simp: Backoff_def until Let_def)
  moreover have "h_state (fail_times h name ts) other = h_state h other" if "other \<noteq> name" for other
    using that by (induction ts arbitrary: h) (auto simp: RecordFailure_def Let_def)
  then have "\<forall>other. other \<noteq> name \<longrightarrow> Backoff (fail_times h name ts) now other = Backoff h now other"
    by (simp add: Backoff_def)
  ultimately show ?thesis
    by (simp add: RecordSuccess_def Backoff_def)
qed

theorem provider_backoff_schedule_witness:
  "Backoff (fail_times (NewProviderHealth :: nat ProviderHealth) ''p'' [0, 1, 2]) 2 ''p'' = 4000000000"
  using provider_backoff_schedule [of "''p''" "NewProviderHealth :: nat ProviderHealth" "[0, 1, 2]" 2]
  by (simp add: NewProviderHealth_def NewProviderHealthWithRouting_def time_units)

subsection \<open>Order\<close>

lemma retentionLess_order:
  "retentionLess h a b \<Longrightarrow> \<not> retentionLess h c b \<Longrightarrow> retentionLess h a c"
  "retentionLess h a b \<Longrightarrow> \<not> retentionLess h b a"
  by (auto simp: retentionLess_def Let_def split: if_splits)

text \<open>The candidates by what the accesses saw, independent of the loop.\<close>

definition poolsWhere :: "(nat \<Rightarrow> Pool \<Rightarrow> bool) \<Rightarrow> Pool option list \<Rightarrow> Pool list" where
  "poolsWhere P candidates =
     concat (map (\<lambda>i. case candidates ! i of Some p \<Rightarrow> if P i p then [p] else [] | None \<Rightarrow> []) [0..<length candidates])"

lemma poolsWhere_Cons:
  "poolsWhere P (c # cs) = (case c of Some p \<Rightarrow> if P 0 p then [p] else [] | None \<Rightarrow> []) @ poolsWhere (\<lambda>i. P (Suc i)) cs"
  by (simp add: poolsWhere_def upt_conv_Cons map_Suc_upt [symmetric] comp_def del: upt_Suc)

lemma splitHealth_where:
  "splitHealth views k cs = (poolsWhere (\<lambda>i p. \<not> backedOffAt views (k + i) p) cs, poolsWhere (\<lambda>i. backedOffAt views (k + i)) cs)"
proof (induction views k cs rule: splitHealth.induct)
  case (1 views i)
  then show ?case by (simp add: poolsWhere_def)
qed (simp_all add: poolsWhere_Cons)

lemma poolsWhere_mset: "mset (poolsWhere P cs) + mset (poolsWhere (\<lambda>i p. \<not> P i p) cs) = mset (List.map_filter id cs)"
proof (induction cs arbitrary: P)
  case Nil
  then show ?case by (simp add: poolsWhere_def List.map_filter_def)
next
  case (Cons c cs)
  from Cons [of "\<lambda>i. P (Suc i)"] show ?case by (cases c) (simp_all add: poolsWhere_Cons)
qed

text \<open>The age of a post in whole days, and when it is past a known horizon.\<close>

definition pastHorizon :: "'f ProviderHealth \<Rightarrow> instant \<Rightarrow> int \<Rightarrow> Pool \<Rightarrow> bool" where
  "pastHorizon h now postedAt p \<longleftrightarrow> 0 < postedAt \<and> postedAt \<le> unix now \<and> 0 < retentionOf h p \<and> retentionOf h p < (unix now - postedAt) div 86400"

lemma retentionApplies_iff: "retentionApplies h (unix now) postedAt healthy \<longleftrightarrow> (\<exists>p \<in> set healthy. pastHorizon h now postedAt p)"
  by (auto simp: retentionApplies_def pastHorizon_def list_ex_iff go_div_nonneg Let_def)

lemma cursor_start: "0 < n \<Longrightarrow> unat ((c :: 64 word) mod of_nat n) < n"
proof (cases "n < 2 ^ 64")
  case True
  assume "0 < n"
  have "unat (of_nat n :: 64 word) = n" using True by (simp add: unat_of_nat)
  then show ?thesis using \<open>0 < n\<close> by (simp add: unat_mod_distrib)
next
  case False
  have "unat (c mod of_nat n) < 2 ^ 64" using unsigned_less [of "c mod of_nat n", where ?'a = nat] by simp
  with False show ?thesis by linarith
qed

lemma rotation_mset: "mset (drop n xs @ take n xs) = mset xs"
  by (metis add.commute append_take_drop_id mset_append)

text \<open>C18: ordering the candidates never loses, duplicates or invents one. With fewer than two candidates, or none healthy when it was
  asked, the list is returned as it is. Otherwise the result is a rearrangement of the non-nil candidates with every
  one that was healthy when asked before every one that was backed off, the latter in their old order. The retention policy is chosen exactly
  when the post is older than the known horizon of some healthy candidate, and then a known deeper horizon never comes after a shallower or an unknown
  one among the healthy; striping rotates the healthy ones, and the plain preference keeps their order.\<close>

theorem candidate_order_sound:
  assumes "orderCandidates flt h views candidates postedAt = ((ordered, policy), h')"
    and "healthy = poolsWhere (\<lambda>i p. \<not> backedOffAt views i p) candidates" and "backedOff = poolsWhere (backedOffAt views) candidates"
  shows "mset (healthy @ backedOff) = mset (List.map_filter id candidates) \<and>
    (length candidates < 2 \<or> healthy = [] \<longrightarrow> ordered = candidates \<and> policy = ''preference'' \<and> h' = h) \<and>
    (2 \<le> length candidates \<and> healthy \<noteq> [] \<longrightarrow>
       (\<exists>hs. ordered = map Some (hs @ backedOff) \<and> mset hs = mset healthy \<and>
          (policy = ''retention'' \<longleftrightarrow> (\<exists>p \<in> set healthy. pastHorizon h (snd (views (length candidates))) postedAt p)) \<and>
          (policy = ''retention'' \<longrightarrow>
             sorted_wrt (\<lambda>p q. retentionOf h p = retentionOf h q \<or> retentionOf h q = 0 \<or>
               (retentionOf h p \<noteq> 0 \<and> retentionOf h q < retentionOf h p)) hs) \<and>
          (policy = ''stripe'' \<longrightarrow> (\<exists>n < length healthy. hs = drop n healthy @ take n healthy)) \<and>
          (policy = ''preference'' \<longrightarrow> hs = healthy)))"
proof -
  have split: "splitHealth views 0 candidates = (healthy, backedOff)" using splitHealth_where [of views 0] assms(2,3) by simp
  have "mset (healthy @ backedOff) = mset (List.map_filter id candidates)"
    using poolsWhere_mset [of "backedOffAt views" candidates] assms(2,3) by (simp add: add.commute)
  moreover have "ordered = candidates \<and> policy = ''preference'' \<and> h' = h" if "length candidates < 2 \<or> healthy = []"
    using assms(1) that by (cases "length candidates < 2") (simp_all add: orderCandidates_def split Let_def)
  moreover have "\<exists>hs. ordered = map Some (hs @ backedOff) \<and> mset hs = mset healthy \<and>
      (policy = ''retention'' \<longleftrightarrow> (\<exists>p \<in> set healthy. pastHorizon h (snd (views (length candidates))) postedAt p)) \<and>
      (policy = ''retention'' \<longrightarrow> sorted_wrt (\<lambda>p q. retentionOf h p = retentionOf h q \<or> retentionOf h q = 0 \<or>
               (retentionOf h p \<noteq> 0 \<and> retentionOf h q < retentionOf h p)) hs) \<and>
      (policy = ''stripe'' \<longrightarrow> (\<exists>n < length healthy. hs = drop n healthy @ take n healthy)) \<and>
      (policy = ''preference'' \<longrightarrow> hs = healthy)" if ok: "2 \<le> length candidates" "healthy \<noteq> []"
  proof (cases "retentionApplies h (unix (snd (views (length candidates)))) postedAt healthy")
    case True
    then have r: "ordered = map Some (sortStable (retentionLess h) healthy @ backedOff)" "policy = ''retention''"
      using assms(1) ok by (auto simp: orderCandidates_def split Let_def)
    have "sorted_wrt (\<lambda>p q. \<not> retentionLess h q p) (sortStable (retentionLess h) healthy)"
      by (rule sortStable_sorted) (fact retentionLess_order)+
    then have "sorted_wrt (\<lambda>p q. retentionOf h p = retentionOf h q \<or> retentionOf h q = 0 \<or>
               (retentionOf h p \<noteq> 0 \<and> retentionOf h q < retentionOf h p)) (sortStable (retentionLess h) healthy)"
      by (rule sorted_wrt_mono_rel [rotated]) (auto simp: retentionLess_def Let_def split: if_splits)
    with r True show ?thesis by (intro exI [of _ "sortStable (retentionLess h) healthy"]) (simp add: mset_sortStable retentionApplies_iff)
  next
    case False
    let ?start = "unat (stripeCursor h mod of_nat (length healthy))"
    consider (lag) less where "ordered = map Some (sortStable less healthy @ backedOff)" "policy = ''lag''"
      | (stripe) "ordered = map Some ((drop ?start healthy @ take ?start healthy) @ backedOff)" "policy = ''stripe''"
      | (plain) "ordered = map Some (healthy @ backedOff)" "policy = ''preference''"
      using assms(1) ok False by (auto simp: orderCandidates_def split Let_def split: if_splits)
    then show ?thesis
    proof cases
      case lag
      with False show ?thesis by (intro exI [of _ "sortStable less healthy"]) (simp add: mset_sortStable retentionApplies_iff)
    next
      case stripe
      have "?start < length healthy" using ok(2) by (intro cursor_start) simp
      with False stripe show ?thesis
        by (intro exI [of _ "drop ?start healthy @ take ?start healthy"]) (auto simp: retentionApplies_iff rotation_mset simp del: mset_append)
    next
      case plain
      with False show ?thesis by (intro exI [of _ healthy]) (simp add: retentionApplies_iff)
    qed
  qed
  ultimately show ?thesis by blast
qed

definition demo_health :: "nat ProviderHealth" where
  "demo_health = NewProviderHealthWithRouting False [''a'' \<mapsto> 10, ''b'' \<mapsto> 5000]"

definition demo_pools :: "Pool option list" where
  "demo_pools = [Some \<lparr>providerName = ''a'', poolTag = 0\<rparr>, None, Some \<lparr>providerName = ''b'', poolTag = 1\<rparr>]"

definition demo_views :: "nat health_views" where
  "demo_views i = (demo_health, (100 * 86400 + int i) * Second)"

theorem candidate_order_sound_witness:
  "\<exists>ordered policy h'. orderCandidates (<) demo_health demo_views demo_pools 1 = ((ordered, policy), h') \<and> policy = ''retention'' \<and>
     (\<exists>hs. ordered = map Some hs \<and> mset hs = {#\<lparr>providerName = ''a'', poolTag = 0\<rparr>, \<lparr>providerName = ''b'', poolTag = 1\<rparr>#} \<and>
        sorted_wrt (\<lambda>p q. retentionOf demo_health p = retentionOf demo_health q \<or> retentionOf demo_health q = 0 \<or>
               (retentionOf demo_health p \<noteq> 0 \<and> retentionOf demo_health q < retentionOf demo_health p)) hs)"
proof -
  let ?a = "\<lparr>providerName = ''a'', poolTag = 0\<rparr>" and ?b = "\<lparr>providerName = ''b'', poolTag = 1\<rparr>"
  obtain ordered policy h' where run: "orderCandidates (<) demo_health demo_views demo_pools 1 = ((ordered, policy), h')"
    by (metis prod.collapse)
  have ok: "\<not> backedOffAt demo_views i p" for i p
    by (simp add: backedOffAt_def demo_views_def Backoff_def demo_health_def NewProviderHealthWithRouting_def)
  have sp: "poolsWhere (\<lambda>i p. \<not> backedOffAt demo_views i p) demo_pools = [?a, ?b]" "poolsWhere (backedOffAt demo_views) demo_pools = []"
    by (simp_all add: ok poolsWhere_def demo_pools_def upt_rec)
  have "retentionOf demo_health ?a = 10" by (simp add: retentionOf_def demo_health_def NewProviderHealthWithRouting_def)
  then have "pastHorizon demo_health (snd (demo_views (length demo_pools))) 1 ?a"
    by (simp add: pastHorizon_def demo_views_def demo_pools_def unix_def Second_def)
  then show ?thesis
    using candidate_order_sound [OF run sp(1) [symmetric] sp(2) [symmetric]] run by (auto simp: demo_pools_def)
qed

end
