(* ===== verification/ContentProof.thy ===== *)
theory ContentProof
  imports Outcome
begin

unbundle bit_operations_syntax

section \<open>The content proof graph\<close>

text \<open>
  Models the core of \<open>internal/contentproof\<close>: evidence and its validation, \<open>Graph.Record\<close>,
  \<open>Revoke\<close>, \<open>Compare\<close> and \<open>VerifyDigest\<close> (\<open>contentproof.go\<close>) and lane candidates
  (\<open>candidate.go\<close>). The tables underneath are in \<open>ProofStore\<close>, the ledger, the convergence of
  representations and the mapping of HTTP representations in \<open>ProofLanes\<close>.

  The Go interface \<open>Repository\<close> is a record of functions on a repository state \<open>'r\<close>; a query may
  fail with an error. \<open>Aliases\<close> is the optional method \<open>ListRepresentationAliases\<close>, found by a
  type assertion. \<open>cx\<close> is the value of \<open>ctx.Err()\<close> when a function starts, and the reading of
  the clock is an argument. A call that returns an error returns \<open>Inl\<close>; the value beside the
  error, which no caller reads, is left out. Digests and identifiers are byte strings; hash
  functions and Unicode tables are arguments.
\<close>

subsection \<open>Data\<close>

datatype Scope = ScopeWhole | ScopeBlock | OtherScope string
datatype Kind = KindAuthoritative | KindSameOrigin | KindTOFU | KindHint | OtherKind string
datatype Provenance = ProvenanceTorrentPiece | ProvenanceTorrentMerkle | ProvenancePAR2IFSC
  | ProvenanceIADigest | ProvenanceHTTPDigest | ProvenanceMetalink | ProvenanceSameOriginETag
  | ProvenancePlaybackObserved | ProvenanceCandidateHint | OtherProvenance string
datatype Algorithm = AlgorithmMD5 | AlgorithmSHA1 | AlgorithmSHA256 | AlgorithmETAGSHA256
  | AlgorithmHintSHA256 | OtherAlgorithm string
datatype Relation = RelationProven | RelationConflict | RelationNoProof

record Evidence =
  RepresentationID :: string
  Scope_of :: Scope
  Offset :: int
  Length :: int
  Kind_of :: Kind
  Algorithm_of :: Algorithm
  Digest_of :: string
  Provenance_of :: Provenance
  OriginID :: string
  ExpiresAt :: "instant option"
  ObservedAt :: instant

record Key =
  k_rep :: string
  k_scope :: Scope
  k_offset :: int
  k_length :: int
  k_kind :: Kind
  k_algorithm :: Algorithm
  k_provenance :: Provenance
  k_origin :: string

record Decision =
  Relation_of :: Relation
  d_offset :: int
  d_length :: int
  Left :: Provenance
  Right :: Provenance

text \<open>The zero value of \<open>Provenance\<close>.\<close>

definition noProvenance :: Provenance where "noProvenance = OtherProvenance ''''"

definition undecided :: "int \<Rightarrow> int \<Rightarrow> Decision" where
  "undecided offset len = \<lparr>Relation_of = RelationNoProof, d_offset = offset, d_length = len,
     Left = noProvenance, Right = noProvenance\<rparr>"

type_synonym alias_lookup = "string \<Rightarrow> int \<Rightarrow> (go_error, string list \<times> int) result"

record 'r Repository =
  Upsert :: "'r \<Rightarrow> Evidence \<Rightarrow> int \<Rightarrow> (go_error, 'r) result"
  ListProofs :: "'r \<Rightarrow> string list \<Rightarrow> instant \<Rightarrow> (go_error, Evidence list) result"
  DeleteProof :: "'r \<Rightarrow> Key \<Rightarrow> (go_error, 'r) result"
  Aliases :: "'r \<Rightarrow> alias_lookup option"

record 'r Graph =
  g_repo :: "'r Repository"
  g_max :: int

definition DefaultMaxProofsPerRepresentation :: int where "DefaultMaxProofsPerRepresentation = 4096"
definition maxDigestBytes :: nat where "maxDigestBytes = 64"
definition DefaultMaxRoutesPerRepresentation :: int where "DefaultMaxRoutesPerRepresentation = 32"

definition New_Graph :: "'r Repository \<Rightarrow> int \<Rightarrow> (go_error, 'r Graph) result" where
  "New_Graph repo mx =
     (if mx < 0 then Inl (Plain ''contentproof: negative proof limit'')
      else Inr \<lparr>g_repo = repo, g_max = (if mx = 0 then DefaultMaxProofsPerRepresentation else mx)\<rparr>)"

subsection \<open>Validation\<close>

definition is_alnum :: "char \<Rightarrow> bool" where
  "is_alnum c \<longleftrightarrow> (let n = (of_char c :: nat) in (48 \<le> n \<and> n \<le> 57) \<or> (65 \<le> n \<and> n \<le> 90) \<or> (97 \<le> n \<and> n \<le> 122))"

text \<open>The pattern \<open>^[A-Za-z0-9][A-Za-z0-9._:-]\{0,127\}$\<close>.\<close>

definition validOpaqueID :: "string \<Rightarrow> bool" where
  "validOpaqueID v \<longleftrightarrow> v \<noteq> [] \<and> length v \<le> 128 \<and> is_alnum (hd v) \<and>
     list_all (\<lambda>c. is_alnum c \<or> c \<in> set ''._:-'') (tl v)"

definition digestLength :: "Algorithm \<Rightarrow> nat" where
  "digestLength a =
     (case a of
        AlgorithmMD5 \<Rightarrow> 16
      | AlgorithmSHA1 \<Rightarrow> 20
      | AlgorithmSHA256 \<Rightarrow> 32
      | AlgorithmETAGSHA256 \<Rightarrow> 32
      | AlgorithmHintSHA256 \<Rightarrow> 32
      | OtherAlgorithm _ \<Rightarrow> 0)"

definition isAuthoritativeAlgorithm :: "Algorithm \<Rightarrow> bool" where
  "isAuthoritativeAlgorithm a \<longleftrightarrow> a = AlgorithmMD5 \<or> a = AlgorithmSHA1 \<or> a = AlgorithmSHA256"

definition validKindProvenance :: "Evidence \<Rightarrow> bool" where
  "validKindProvenance e =
     (case Kind_of e of
        KindAuthoritative \<Rightarrow>
          OriginID e = '''' \<and>
          (case Provenance_of e of
             ProvenanceTorrentPiece \<Rightarrow> Scope_of e = ScopeBlock \<and> Algorithm_of e = AlgorithmSHA1
           | ProvenanceTorrentMerkle \<Rightarrow> Algorithm_of e = AlgorithmSHA256
           | ProvenancePAR2IFSC \<Rightarrow> Scope_of e = ScopeBlock \<and> Algorithm_of e = AlgorithmMD5
           | ProvenanceIADigest \<Rightarrow> Scope_of e = ScopeWhole \<and> isAuthoritativeAlgorithm (Algorithm_of e)
           | ProvenanceMetalink \<Rightarrow> Scope_of e = ScopeWhole \<and> isAuthoritativeAlgorithm (Algorithm_of e)
           | ProvenanceHTTPDigest \<Rightarrow> isAuthoritativeAlgorithm (Algorithm_of e)
           | _ \<Rightarrow> False)
      | KindSameOrigin \<Rightarrow>
          Provenance_of e = ProvenanceSameOriginETag \<and> Algorithm_of e = AlgorithmETAGSHA256 \<and> OriginID e \<noteq> ''''
      | KindTOFU \<Rightarrow>
          Provenance_of e = ProvenancePlaybackObserved \<and> Algorithm_of e = AlgorithmSHA256 \<and> OriginID e = ''''
      | KindHint \<Rightarrow>
          Provenance_of e = ProvenanceCandidateHint \<and> Algorithm_of e = AlgorithmHintSHA256 \<and> OriginID e = ''''
      | OtherKind _ \<Rightarrow> False)"

definition opaqueError :: "string \<Rightarrow> go_error" where
  "opaqueError field = Plain (''contentproof: '' @ field @ '' must be an opaque secret-free ID'')"

definition validateEvidence :: "Evidence \<Rightarrow> go_error option" where
  "validateEvidence e =
     (if \<not> validOpaqueID (RepresentationID e) then Some (opaqueError ''representation'')
      else if Scope_of e \<noteq> ScopeWhole \<and> Scope_of e \<noteq> ScopeBlock then Some (Plain ''contentproof: invalid scope'')
      else if Offset e < 0 \<or> Length e \<le> 0 \<or> (Scope_of e = ScopeWhole \<and> Offset e \<noteq> 0)
        then Some (Plain ''contentproof: invalid evidence span'')
      else if ObservedAt e = zeroTime then Some (Plain ''contentproof: missing observed time'')
      else if (case ExpiresAt e of None \<Rightarrow> False | Some t \<Rightarrow> \<not> t > ObservedAt e)
        then Some (Plain ''contentproof: expiry must follow observation'')
      else if Digest_of e = [] \<or> length (Digest_of e) > maxDigestBytes \<or> length (Digest_of e) \<noteq> digestLength (Algorithm_of e)
        then Some (Plain ''contentproof: invalid digest length or algorithm'')
      else if OriginID e \<noteq> '''' \<and> \<not> validOpaqueID (OriginID e) then Some (opaqueError ''origin'')
      else if \<not> validKindProvenance e then Some (Plain ''contentproof: invalid kind/provenance combination'')
      else None)"

definition validateKey :: "Key \<Rightarrow> go_error option" where
  "validateKey k =
     validateEvidence \<lparr>RepresentationID = k_rep k, Scope_of = k_scope k, Offset = k_offset k, Length = k_length k,
       Kind_of = k_kind k, Algorithm_of = k_algorithm k,
       Digest_of = replicate (digestLength (k_algorithm k)) (CHR 0x00), Provenance_of = k_provenance k,
       OriginID = k_origin k, ExpiresAt = None, ObservedAt = Second\<rparr>"

subsection \<open>Graph operations\<close>

definition Record_proof :: "'r Graph \<Rightarrow> 'r \<Rightarrow> go_error option \<Rightarrow> instant \<Rightarrow> Evidence \<Rightarrow> (go_error, 'r) result" where
  "Record_proof g r cx now e =
     (case cx of
        Some err \<Rightarrow> Inl err
      | None \<Rightarrow>
          (let e1 = (if ObservedAt e = zeroTime then e\<lparr>ObservedAt := now\<rparr> else e) in
           case validateEvidence e1 of
             Some err \<Rightarrow> Inl err
           | None \<Rightarrow> Upsert (g_repo g) r e1 (g_max g)))"

definition Revoke :: "'r Graph \<Rightarrow> 'r \<Rightarrow> go_error option \<Rightarrow> Key \<Rightarrow> (go_error, 'r) result" where
  "Revoke g r cx key =
     (case cx of
        Some err \<Rightarrow> Inl err
      | None \<Rightarrow>
          (case validateKey key of
             Some err \<Rightarrow> Inl err
           | None \<Rightarrow> DeleteProof (g_repo g) r key))"

definition representationAliases :: "'r Repository \<Rightarrow> 'r \<Rightarrow> string \<Rightarrow> (go_error, string list \<times> int) result" where
  "representationAliases repo r rid =
     (case Aliases repo r of
        None \<Rightarrow> Inr ([rid], 0)
      | Some lookup \<Rightarrow>
          (case lookup rid DefaultMaxRoutesPerRepresentation of
             Inl e \<Rightarrow> Inl e
           | Inr (aliases, sz) \<Rightarrow> if aliases = [] then Inr ([rid], 0) else Inr (aliases, sz)))"

definition covers :: "Evidence \<Rightarrow> int \<Rightarrow> int \<Rightarrow> bool" where
  "covers e offset len \<longleftrightarrow> Offset e \<le> offset \<and> Length e \<ge> len \<and> offset - Offset e \<le> Length e - len"

definition equalBytes :: "string \<Rightarrow> string \<Rightarrow> bool" where
  "equalBytes a b \<longleftrightarrow> length a = length b \<and>
     foldl (\<lambda>diff (x, y). diff OR (of_char x XOR of_char y)) (0 :: int) (zip a b) = 0"

text \<open>The two loops of \<open>Compare\<close>; \<open>Inl\<close> is the early return on a conflict.\<close>

fun compareRight :: "Evidence \<Rightarrow> (Evidence \<Rightarrow> bool) \<Rightarrow> int \<Rightarrow> int \<Rightarrow> Decision option \<Rightarrow> Evidence list \<Rightarrow> Decision + Decision option" where
  "compareRight l isRight offset len matched [] = Inr matched"
| "compareRight l isRight offset len matched (q # qs) =
     (if \<not> isRight q \<or> Kind_of q \<noteq> KindAuthoritative \<or> Scope_of l \<noteq> Scope_of q \<or> Offset l \<noteq> Offset q \<or>
         Length l \<noteq> Length q \<or> Algorithm_of l \<noteq> Algorithm_of q \<or> \<not> covers q offset len
      then compareRight l isRight offset len matched qs
      else
        (let candidate = \<lparr>Relation_of = RelationProven, d_offset = offset, d_length = len,
                          Left = Provenance_of l, Right = Provenance_of q\<rparr>
         in if \<not> equalBytes (Digest_of l) (Digest_of q) then Inl (candidate\<lparr>Relation_of := RelationConflict\<rparr>)
            else compareRight l isRight offset len (Some candidate) qs))"

fun compareLeft :: "(Evidence \<Rightarrow> bool) \<Rightarrow> (Evidence \<Rightarrow> bool) \<Rightarrow> int \<Rightarrow> int \<Rightarrow> Evidence list \<Rightarrow> Decision option \<Rightarrow>
  Evidence list \<Rightarrow> Decision + Decision option" where
  "compareLeft isLeft isRight offset len evs matched [] = Inr matched"
| "compareLeft isLeft isRight offset len evs matched (l # ls) =
     (if \<not> isLeft l \<or> Kind_of l \<noteq> KindAuthoritative \<or> \<not> covers l offset len
      then compareLeft isLeft isRight offset len evs matched ls
      else case compareRight l isRight offset len matched evs of
        Inl d \<Rightarrow> Inl d
      | Inr m \<Rightarrow> compareLeft isLeft isRight offset len evs m ls)"

definition decide :: "string list \<Rightarrow> string list \<Rightarrow> int \<Rightarrow> int \<Rightarrow> Evidence list \<Rightarrow> Decision" where
  "decide leftIDs rightIDs offset len evs =
     (case compareLeft (\<lambda>e. RepresentationID e \<in> set leftIDs) (\<lambda>e. RepresentationID e \<in> set rightIDs)
             offset len evs None evs of
        Inl d \<Rightarrow> d
      | Inr (Some d) \<Rightarrow> d
      | Inr None \<Rightarrow> undecided offset len)"

definition Compare :: "'r Graph \<Rightarrow> 'r \<Rightarrow> go_error option \<Rightarrow> instant \<Rightarrow> string \<Rightarrow> string \<Rightarrow> int \<Rightarrow> int \<Rightarrow> (go_error, Decision) result" where
  "Compare g r cx now leftID rightID offset len =
     (case cx of
        Some err \<Rightarrow> Inl err
      | None \<Rightarrow>
          if \<not> validOpaqueID leftID then Inl (opaqueError ''left representation'')
          else if \<not> validOpaqueID rightID then Inl (opaqueError ''right representation'')
          else if offset < 0 \<or> len \<le> 0 \<or> offset > MaxInt64 - len
            then Inl (Plain ''contentproof: invalid comparison span'')
          else case representationAliases (g_repo g) r leftID of
            Inl e \<Rightarrow> Inl e
          | Inr (leftIDs, leftSize) \<Rightarrow>
              (case representationAliases (g_repo g) r rightID of
                 Inl e \<Rightarrow> Inl e
               | Inr (rightIDs, rightSize) \<Rightarrow>
                   if set leftIDs = set rightIDs \<and> leftSize > 0 \<and> leftSize = rightSize \<and> offset \<le> leftSize - len
                   then Inr ((undecided offset len)\<lparr>Relation_of := RelationProven\<rparr>)
                   else case ListProofs (g_repo g) r (leftIDs @ rightIDs) now of
                     Inl e \<Rightarrow> Inl e
                   | Inr evs \<Rightarrow> Inr (decide leftIDs rightIDs offset len evs)))"

fun verifyLoop :: "(Evidence \<Rightarrow> bool) \<Rightarrow> string \<Rightarrow> Decision \<Rightarrow> bool \<Rightarrow> Evidence list \<Rightarrow> Decision" where
  "verifyLoop sel digest d matched [] = (if matched then d\<lparr>Relation_of := RelationProven\<rparr> else d)"
| "verifyLoop sel digest d matched (p # ps) =
     (if \<not> sel p then verifyLoop sel digest d matched ps
      else
        (let d1 = d\<lparr>Left := Provenance_of p\<rparr> in
         if \<not> equalBytes (Digest_of p) digest then d1\<lparr>Relation_of := RelationConflict\<rparr>
         else verifyLoop sel digest d1 True ps))"

definition exact :: "Scope \<Rightarrow> int \<Rightarrow> int \<Rightarrow> Algorithm \<Rightarrow> Evidence \<Rightarrow> bool" where
  "exact scope offset len algorithm p \<longleftrightarrow> Kind_of p = KindAuthoritative \<and> Scope_of p = scope \<and>
     Offset p = offset \<and> Length p = len \<and> Algorithm_of p = algorithm"

definition VerifyDigest :: "'r Graph \<Rightarrow> 'r \<Rightarrow> go_error option \<Rightarrow> instant \<Rightarrow> string \<Rightarrow> Scope \<Rightarrow> int \<Rightarrow> int \<Rightarrow>
  Algorithm \<Rightarrow> string \<Rightarrow> (go_error, Decision) result" where
  "VerifyDigest g r cx now rid scope offset len algorithm digest =
     (case cx of
        Some err \<Rightarrow> Inl err
      | None \<Rightarrow>
          if \<not> validOpaqueID rid then Inl (opaqueError ''representation'')
          else if scope \<noteq> ScopeWhole \<and> scope \<noteq> ScopeBlock then Inl (Plain ''contentproof: invalid verification scope'')
          else if offset < 0 \<or> len \<le> 0 \<or> (scope = ScopeWhole \<and> offset \<noteq> 0) \<or> length digest \<noteq> digestLength algorithm
            then Inl (Plain ''contentproof: invalid verification digest or span'')
          else case representationAliases (g_repo g) r rid of
            Inl e \<Rightarrow> Inl e
          | Inr (ids, sz) \<Rightarrow>
              if sz > 0 \<and> (offset > sz \<or> len > sz - offset)
              then Inl (Plain ''contentproof: verification exceeds canonical representation'')
              else case ListProofs (g_repo g) r ids now of
                Inl e \<Rightarrow> Inl e
              | Inr evs \<Rightarrow> Inr (verifyLoop (exact scope offset len algorithm) digest (undecided offset len) False evs))"

subsection \<open>Byte equality\<close>

lemma equalBytes_iff: "equalBytes a b \<longleftrightarrow> a = b"
proof -
  have fold0: "foldl (\<lambda>diff (x, y). diff OR (of_char x XOR of_char y)) acc ps = 0 \<longleftrightarrow>
      acc = 0 \<and> (\<forall>(x, y) \<in> set ps. x = y)" for acc :: int and ps :: "(char \<times> char) list"
  proof (induction ps arbitrary: acc)
    case Nil
    then show ?case by simp
  next
    case (Cons p ps)
    obtain x y where p: "p = (x, y)" by (cases p) auto
    have "(of_char x XOR of_char y :: int) = 0 \<longleftrightarrow> x = y"
      by (metis bit.xor_left_self bit.xor_self of_char_eq_iff xor.right_neutral)
    with Cons [of "acc OR (of_char x XOR of_char y)"] p show ?case by (auto simp: or_eq_0_iff)
  qed
  have zip_eq: "length a = length b \<Longrightarrow> (\<forall>(x, y) \<in> set (zip a b). x = y) \<longleftrightarrow> a = b"
    by (induction a b rule: list_induct2) auto
  show ?thesis
    unfolding equalBytes_def fold0 using zip_eq by (cases "length a = length b") auto
qed

subsection \<open>What \<open>Compare\<close> decides\<close>

text \<open>Two pieces of evidence that \<open>Compare\<close> weighs against each other for a span: authoritative, about the
  same block with the same algorithm, and the block contains every byte of the span.\<close>

definition comparable :: "string list \<Rightarrow> string list \<Rightarrow> int \<Rightarrow> int \<Rightarrow> Evidence \<Rightarrow> Evidence \<Rightarrow> bool" where
  "comparable leftIDs rightIDs offset len l q \<longleftrightarrow>
     RepresentationID l \<in> set leftIDs \<and> RepresentationID q \<in> set rightIDs \<and>
     Kind_of l = KindAuthoritative \<and> Kind_of q = KindAuthoritative \<and>
     Scope_of l = Scope_of q \<and> Offset l = Offset q \<and> Length l = Length q \<and> Algorithm_of l = Algorithm_of q \<and>
     Offset l \<le> offset \<and> offset + len \<le> Offset l + Length l"

lemma covers_iff: "covers e offset len \<longleftrightarrow> Offset e \<le> offset \<and> offset + len \<le> Offset e + Length e"
  by (auto simp: covers_def)

lemma compareRight_result:
  assumes P: "\<And>q. P q \<longleftrightarrow> isRight q \<and> Kind_of q = KindAuthoritative \<and> Scope_of l = Scope_of q \<and> Offset l = Offset q \<and>
          Length l = Length q \<and> Algorithm_of l = Algorithm_of q \<and> covers q offset len"
  shows "case compareRight l isRight offset len matched qs of
      Inl d \<Rightarrow> Relation_of d = RelationConflict \<and> (\<exists>q \<in> set qs. P q \<and> Digest_of l \<noteq> Digest_of q)
    | Inr m \<Rightarrow>
        (\<forall>q \<in> set qs. P q \<longrightarrow> Digest_of l = Digest_of q) \<and>
        (m = None \<longleftrightarrow> matched = None \<and> \<not> (\<exists>q \<in> set qs. P q)) \<and>
        (\<forall>d. m = Some d \<longrightarrow> Relation_of d = RelationProven \<or> matched = Some d)"
proof (induction qs arbitrary: matched)
  case Nil
  then show ?case by simp
next
  case (Cons q qs)
  show ?case
  proof (cases "P q")
    case False
    then have "compareRight l isRight offset len matched (q # qs) = compareRight l isRight offset len matched qs"
      using P by auto
    with Cons [of matched] False show ?thesis by (auto split: sum.splits)
  next
    case True
    let ?c = "\<lparr>Relation_of = RelationProven, d_offset = offset, d_length = len, Left = Provenance_of l, Right = Provenance_of q\<rparr>"
    from True have "compareRight l isRight offset len matched (q # qs) =
        (if Digest_of l \<noteq> Digest_of q then Inl (?c\<lparr>Relation_of := RelationConflict\<rparr>)
         else compareRight l isRight offset len (Some ?c) qs)"
      using P by (auto simp: equalBytes_iff)
    with Cons [of "Some ?c"] True show ?thesis by (auto split: sum.splits)
  qed
qed

lemma compareLeft_result:
  fixes leftIDs rightIDs offset len
  defines "isL \<equiv> \<lambda>e. RepresentationID e \<in> set leftIDs" and "isR \<equiv> \<lambda>e. RepresentationID e \<in> set rightIDs"
    and "cmp \<equiv> comparable leftIDs rightIDs offset len"
  shows "case compareLeft isL isR offset len evs matched ls of
      Inl d \<Rightarrow> Relation_of d = RelationConflict \<and> (\<exists>l \<in> set ls. \<exists>q \<in> set evs. cmp l q \<and> Digest_of l \<noteq> Digest_of q)
    | Inr m \<Rightarrow>
        (\<forall>l \<in> set ls. \<forall>q \<in> set evs. cmp l q \<longrightarrow> Digest_of l = Digest_of q) \<and>
        (m = None \<longleftrightarrow> matched = None \<and> \<not> (\<exists>l \<in> set ls. \<exists>q \<in> set evs. cmp l q)) \<and>
        (\<forall>d. m = Some d \<longrightarrow> Relation_of d = RelationProven \<or> matched = Some d)"
proof (induction ls arbitrary: matched)
  case Nil
  then show ?case by simp
next
  case (Cons l ls)
  have R: "isR = (\<lambda>e. RepresentationID e \<in> set rightIDs)" by (simp add: isR_def)
  show ?case
  proof (cases "isL l \<and> Kind_of l = KindAuthoritative \<and> covers l offset len")
    case False
    then have "\<not> cmp l q" for q by (auto simp: cmp_def comparable_def isL_def covers_iff)
    with Cons [of matched] False show ?thesis by (auto split: sum.splits)
  next
    case True
    then have c: "cmp l q \<longleftrightarrow> isR q \<and> Kind_of q = KindAuthoritative \<and> Scope_of l = Scope_of q \<and> Offset l = Offset q \<and>
        Length l = Length q \<and> Algorithm_of l = Algorithm_of q \<and> covers q offset len" for q
      by (auto simp: cmp_def comparable_def isL_def isR_def covers_iff)
    note right = compareRight_result [where P = "cmp l" and isRight = isR and l = l and matched = matched and qs = evs, OF c]
    show ?thesis
    proof (cases "compareRight l isR offset len matched evs")
      case (Inl d)
      with right True show ?thesis by auto
    next
      case (Inr m)
      have step: "compareLeft isL isR offset len evs matched (l # ls) = compareLeft isL isR offset len evs m ls"
        using True Inr by simp
      have r: "\<forall>q \<in> set evs. cmp l q \<longrightarrow> Digest_of l = Digest_of q"
        "m = None \<longleftrightarrow> matched = None \<and> \<not> (\<exists>q \<in> set evs. cmp l q)"
        "\<forall>d. m = Some d \<longrightarrow> Relation_of d = RelationProven \<or> matched = Some d"
        using right Inr by auto
      show ?thesis
        unfolding step using Cons [of m] r by (auto split: sum.splits)
    qed
  qed
qed

lemma decide_relation:
  "Relation_of (decide leftIDs rightIDs offset len evs) =
     (if \<exists>l \<in> set evs. \<exists>q \<in> set evs. comparable leftIDs rightIDs offset len l q \<and> Digest_of l \<noteq> Digest_of q
      then RelationConflict
      else if \<exists>l \<in> set evs. \<exists>q \<in> set evs. comparable leftIDs rightIDs offset len l q then RelationProven
      else RelationNoProof)"
proof (cases "compareLeft (\<lambda>e. RepresentationID e \<in> set leftIDs) (\<lambda>e. RepresentationID e \<in> set rightIDs)
    offset len evs None evs")
  case (Inl d)
  then show ?thesis
    using compareLeft_result [where leftIDs = leftIDs and rightIDs = rightIDs and offset = offset and len = len and evs = evs and matched = None and ls = evs] by (auto simp: decide_def)
next
  case (Inr m)
  then show ?thesis
    using compareLeft_result [where leftIDs = leftIDs and rightIDs = rightIDs and offset = offset and len = len and evs = evs and matched = None and ls = evs]
    by (cases m) (auto simp: decide_def undecided_def)
qed

subsection \<open>What \<open>VerifyDigest\<close> decides\<close>

lemma verifyLoop_relation:
  "Relation_of (verifyLoop sel digest d matched ps) =
     (if \<exists>p \<in> set ps. sel p \<and> Digest_of p \<noteq> digest then RelationConflict
      else if matched \<or> (\<exists>p \<in> set ps. sel p) then RelationProven
      else Relation_of d)"
  by (induction ps arbitrary: d matched) (auto simp: equalBytes_iff Let_def)

lemma VerifyDigest_relation:
  assumes "VerifyDigest g r cx now rid scope offset len algorithm digest = Inr d"
  obtains ids sz evs where "representationAliases (g_repo g) r rid = Inr (ids, sz)"
    and "ListProofs (g_repo g) r ids now = Inr evs"
    and "Relation_of d =
      (if \<exists>p \<in> set evs. exact scope offset len algorithm p \<and> Digest_of p \<noteq> digest then RelationConflict
       else if \<exists>p \<in> set evs. exact scope offset len algorithm p then RelationProven
       else RelationNoProof)"
    and "0 \<le> offset" "0 < len" "length digest = digestLength algorithm" "cx = None"
proof -
  obtain ids sz evs where "representationAliases (g_repo g) r rid = Inr (ids, sz)"
    "ListProofs (g_repo g) r ids now = Inr evs"
    "d = verifyLoop (exact scope offset len algorithm) digest (undecided offset len) False evs"
    "0 \<le> offset" "0 < len" "length digest = digestLength algorithm" "cx = None"
    using assms by (auto simp: VerifyDigest_def split: option.splits if_splits sum.splits)
  then show ?thesis
    by (intro that [of ids sz evs]) (auto simp: verifyLoop_relation undecided_def)
qed


subsection \<open>Lane candidates\<close>

text \<open>
  The functions of the standard library that work on Unicode: \<open>runes\<close> splits a string into its
  runes, each as the bytes that \<open>WriteRune\<close> writes for it.
\<close>

datatype Lane = LaneTorrent | LaneNNTP | LaneHTTP | OtherLane string

record LaneCandidate =
  Lane_of :: Lane
  ItemID :: string
  FileID :: string
  c_rep :: string
  ReleaseKey_of :: string
  Size :: int

record unicode =
  ToLower :: "string \<Rightarrow> string"
  runes :: "string \<Rightarrow> string list"
  IsLetter :: "string \<Rightarrow> bool"
  IsDigit :: "string \<Rightarrow> bool"

definition MaxLaneCandidates :: nat where "MaxLaneCandidates = 2048"
definition MaxReleaseNameBytes :: nat where "MaxReleaseNameBytes = 1024"
definition releaseKeyDomain :: string where "releaseKeyDomain = ''darkharrbor/crosslane-release/v1'' @ [CHR 0x00]"

fun normalizeLoop :: "unicode \<Rightarrow> string \<Rightarrow> bool \<Rightarrow> string list \<Rightarrow> string" where
  "normalizeLoop u b separator [] = b"
| "normalizeLoop u b separator (r # rs) =
     (if IsLetter u r \<or> IsDigit u r
      then normalizeLoop u ((if separator \<and> b \<noteq> [] then b @ '' '' else b) @ r) False rs
      else normalizeLoop u b True rs)"

definition normalizeReleaseName :: "unicode \<Rightarrow> string \<Rightarrow> string" where
  "normalizeReleaseName u name = normalizeLoop u [] False (runes u (ToLower u (TrimSpace name)))"

definition keyMessage :: "string \<Rightarrow> int \<Rightarrow> string" where
  "keyMessage normalized sz = releaseKeyDomain @ normalized @ [CHR 0x00] @ itoa sz"

definition ReleaseKey :: "unicode \<Rightarrow> (string \<Rightarrow> string) \<Rightarrow> string \<Rightarrow> int \<Rightarrow> (go_error, string) result" where
  "ReleaseKey u sha releaseName sz =
     (if sz \<le> 0 then Inl (Plain ''contentproof: candidate size must be positive'')
      else if length releaseName = 0 \<or> length releaseName > MaxReleaseNameBytes
        then Inl (Plain ''contentproof: invalid candidate release name length'')
      else if Contains releaseName ''://'' \<or> ContainsAny releaseName [CHR 0x00, CHR 0x0D, CHR 0x0A]
        then Inl (Plain ''contentproof: candidate release name is not URL-free'')
      else
        (let normalized = normalizeReleaseName u releaseName in
         if normalized = '''' then Inl (Plain ''contentproof: candidate release name is empty after normalization'')
         else Inr (EncodeToString (sha (keyMessage normalized sz)))))"

definition validateLaneCandidate :: "unicode \<Rightarrow> LaneCandidate \<Rightarrow> go_error option" where
  "validateLaneCandidate u c =
     (if Lane_of c \<notin> {LaneTorrent, LaneNNTP, LaneHTTP} then Some (Plain ''contentproof: unknown candidate lane'')
      else if \<not> validOpaqueID (ItemID c) then Some (opaqueError ''candidate item'')
      else if \<not> validOpaqueID (FileID c) then Some (opaqueError ''candidate file'')
      else if \<not> validOpaqueID (c_rep c) then Some (opaqueError ''candidate representation'')
      else if Size c \<le> 0 then Some (Plain ''contentproof: candidate size must be positive'')
      else case DecodeString (ReleaseKey_of c) of
        None \<Rightarrow> Some (Plain ''contentproof: invalid candidate release key'')
      | Some decoded \<Rightarrow>
          if length decoded \<noteq> 32 \<or> ReleaseKey_of c \<noteq> ToLower u (ReleaseKey_of c)
          then Some (Plain ''contentproof: invalid candidate release key'')
          else None)"

definition NewLaneCandidate :: "unicode \<Rightarrow> (string \<Rightarrow> string) \<Rightarrow> Lane \<Rightarrow> string \<Rightarrow> string \<Rightarrow> string \<Rightarrow> string \<Rightarrow> int \<Rightarrow>
  (go_error, LaneCandidate) result" where
  "NewLaneCandidate u sha lane itemID fileID representationID releaseName sz =
     (case ReleaseKey u sha releaseName sz of
        Inl e \<Rightarrow> Inl e
      | Inr key \<Rightarrow>
          (let c = \<lparr>Lane_of = lane, ItemID = itemID, FileID = fileID, c_rep = representationID,
                    ReleaseKey_of = key, Size = sz\<rparr>
           in case validateLaneCandidate u c of Some e \<Rightarrow> Inl e | None \<Rightarrow> Inr c))"

text \<open>\<open>ctxErr i\<close> is what \<open>ctx.Err()\<close> returns at the check before candidate \<open>i\<close>.\<close>

fun resolveLoop :: "unicode \<Rightarrow> (nat \<Rightarrow> go_error option) \<Rightarrow> string \<Rightarrow> int \<Rightarrow> nat \<Rightarrow> LaneCandidate list \<Rightarrow>
  LaneCandidate list \<Rightarrow> (go_error, LaneCandidate list) result" where
  "resolveLoop u ctxErr key sz i matches [] = Inr matches"
| "resolveLoop u ctxErr key sz i matches (c # cs) =
     (case (if i mod 64 = 0 then ctxErr i else None) of
        Some e \<Rightarrow> Inl e
      | None \<Rightarrow>
          (case validateLaneCandidate u c of
             Some e \<Rightarrow> Inl e
           | None \<Rightarrow> resolveLoop u ctxErr key sz (Suc i)
                       (if ReleaseKey_of c = key \<and> Size c = sz then matches @ [c] else matches) cs))"

definition ResolveLaneCandidates :: "unicode \<Rightarrow> (string \<Rightarrow> string) \<Rightarrow> go_error option \<Rightarrow> (nat \<Rightarrow> go_error option) \<Rightarrow>
  string \<Rightarrow> int \<Rightarrow> LaneCandidate list \<Rightarrow> (go_error, LaneCandidate list) result" where
  "ResolveLaneCandidates u sha cx ctxErr releaseName sz candidates =
     (case cx of
        Some e \<Rightarrow> Inl e
      | None \<Rightarrow>
          if length candidates > MaxLaneCandidates then Inl (Plain ''contentproof: too many lane candidates'')
          else case ReleaseKey u sha releaseName sz of
            Inl e \<Rightarrow> Inl e
          | Inr key \<Rightarrow> resolveLoop u ctxErr key sz 0 [] candidates)"


subsection \<open>Release names and candidate lookup\<close>

lemma key_message_inject:
  assumes "0 < m" and "0 < n"
    and "keyMessage a m = keyMessage b n"
  shows "a = b \<and> m = n"
proof -
  have nul: "CHR 0x00 \<notin> set (itoa k)" for k
    using itoa_chars [of "CHR 0x00" k] by (auto simp: is_digit_def)
  from assms(3) have "rev (a @ CHR 0x00 # itoa m) = rev (b @ CHR 0x00 # itoa n)" by (simp add: keyMessage_def)
  then have "rev (itoa m) @ CHR 0x00 # rev a = rev (itoa n) @ CHR 0x00 # rev b" by simp
  from split_at_sep [OF _ _ this] nul have "itoa m = itoa n \<and> a = b" by simp
  with assms(1,2) show ?thesis by (simp add: itoa_inject)
qed

lemma EncodeToString_inject: "EncodeToString a = EncodeToString b \<longleftrightarrow> a = b"
  by (metis DecodeString_Encode option.inject)

lemma ReleaseKey_inject:
  assumes "ReleaseKey u sha n1 s1 = Inr k" and "ReleaseKey u sha n2 s2 = Inr k"
    and "sha (keyMessage (normalizeReleaseName u n1) s1) = sha (keyMessage (normalizeReleaseName u n2) s2) \<Longrightarrow>
      keyMessage (normalizeReleaseName u n1) s1 = keyMessage (normalizeReleaseName u n2) s2"
  shows "normalizeReleaseName u n1 = normalizeReleaseName u n2 \<and> s1 = s2"
proof -
  have pos: "0 < s1" "0 < s2"
    and "sha (keyMessage (normalizeReleaseName u n1) s1) = sha (keyMessage (normalizeReleaseName u n2) s2)"
    using assms(1,2) by (auto simp: ReleaseKey_def Let_def EncodeToString_inject split: if_splits)
  from key_message_inject [OF pos assms(3) [OF this(3)]] show ?thesis .
qed

lemma resolveLoop_result:
  assumes "resolveLoop u ctxErr key sz i matches cs = Inr ms"
  shows "ms = matches @ filter (\<lambda>c. ReleaseKey_of c = key \<and> Size c = sz) cs \<and>
    (\<forall>c \<in> set cs. validateLaneCandidate u c = None)"
  using assms
proof (induction cs arbitrary: i matches)
  case Nil
  then show ?case by simp
next
  case (Cons c cs)
  then have valid: "validateLaneCandidate u c = None"
    and step: "resolveLoop u ctxErr key sz (Suc i)
      (if ReleaseKey_of c = key \<and> Size c = sz then matches @ [c] else matches) cs = Inr ms"
    by (auto split: option.splits if_splits)
  from Cons.IH [OF step] valid show ?case by auto
qed

lemma NewLaneCandidate_valid:
  assumes "NewLaneCandidate u sha lane item fileID rep name sz = Inr c"
  shows "validateLaneCandidate u c = None \<and> Size c = sz \<and> ReleaseKey u sha name sz = Inr (ReleaseKey_of c)"
  using assms by (auto simp: NewLaneCandidate_def Let_def split: sum.splits option.splits)

text \<open>Candidate lookup is exact. \<open>ResolveLaneCandidates\<close> returns every candidate with the release key
  and size asked for, in input order, and only valid ones; and a candidate that was made by
  \<open>NewLaneCandidate\<close> from some release name matches only if its normalised name and its size are the
  ones asked for, as long as SHA-256 has no collision between the two key messages involved.\<close>

theorem lane_candidates_exact:
  assumes "ResolveLaneCandidates u sha cx ctxErr name sz candidates = Inr matches"
    and "NewLaneCandidate u sha lane item fileID rep name' sz' = Inr c" and "c \<in> set matches"
    and "sha (keyMessage (normalizeReleaseName u name) sz) = sha (keyMessage (normalizeReleaseName u name') sz') \<Longrightarrow>
      keyMessage (normalizeReleaseName u name) sz = keyMessage (normalizeReleaseName u name') sz'"
  shows "(\<exists>key. ReleaseKey u sha name sz = Inr key \<and>
      matches = filter (\<lambda>c. ReleaseKey_of c = key \<and> Size c = sz) candidates) \<and>
    (\<forall>c \<in> set candidates. validateLaneCandidate u c = None) \<and>
    sz' = sz \<and> normalizeReleaseName u name' = normalizeReleaseName u name"
proof -
  obtain key where key: "ReleaseKey u sha name sz = Inr key"
    and loop: "resolveLoop u ctxErr key sz 0 [] candidates = Inr matches"
    using assms(1) by (auto simp: ResolveLaneCandidates_def split: option.splits if_splits sum.splits)
  from resolveLoop_result [OF loop] assms(3) have c: "ReleaseKey_of c = key" by auto
  from NewLaneCandidate_valid [OF assms(2)] c have "ReleaseKey u sha name' sz' = Inr key" by simp
  from ReleaseKey_inject [OF key this assms(4)] key resolveLoop_result [OF loop]
  show ?thesis by auto
qed

definition ascii :: unicode where
  "ascii = \<lparr>ToLower = ToLowerASCII, runes = map (\<lambda>c. [c]), IsLetter = (\<lambda>r. is_alnum (hd r) \<and> \<not> is_digit (hd r)),
     IsDigit = (\<lambda>r. is_digit (hd r))\<rparr>"

text \<open>A stand-in for the hash in examples: the message cut or filled up to 32 bytes.\<close>

definition fit32 :: "string \<Rightarrow> string" where
  "fit32 m = take 32 (drop 34 m @ replicate 32 (CHR 0x00))"

definition demo_candidate :: "Lane \<Rightarrow> string \<Rightarrow> LaneCandidate" where
  "demo_candidate lane rep = \<lparr>Lane_of = lane, ItemID = ''i'', FileID = ''f'', c_rep = rep,
     ReleaseKey_of = EncodeToString (fit32 (keyMessage ''a b'' 7)), Size = 7\<rparr>"

theorem lane_candidates_exact_witness:
  "7 = (7 :: int) \<and> normalizeReleaseName ascii ''a.b'' = normalizeReleaseName ascii ''A  b''"
proof -
  have "ResolveLaneCandidates ascii fit32 None (\<lambda>_. None) ''A  b'' 7 [demo_candidate LaneHTTP ''r''] =
      Inr [demo_candidate LaneHTTP ''r'']"
    by code_simp
  moreover have "NewLaneCandidate ascii fit32 LaneHTTP ''i'' ''f'' ''r'' ''a.b'' 7 = Inr (demo_candidate LaneHTTP ''r'')"
    by code_simp
  moreover have "normalizeReleaseName ascii ''A  b'' = ''a b''" "normalizeReleaseName ascii ''a.b'' = ''a b''"
    by code_simp+
  ultimately show ?thesis
    using lane_candidates_exact [where u = ascii and sha = fit32 and name = "''A  b''" and sz = 7 and name' = "''a.b''" and sz' = 7
      and c = "demo_candidate LaneHTTP ''r''" and cx = None and ctxErr = "\<lambda>_. None" and lane = LaneHTTP and item = "''i''"
      and fileID = "''f''" and rep = "''r''" and candidates = "[demo_candidate LaneHTTP ''r'']"
      and matches = "[demo_candidate LaneHTTP ''r'']"]
    by simp
qed

end
