(* ===== verification/ProofStore.thy ===== *)
theory ProofStore
  imports ContentProof StableSort
begin

section \<open>The tables behind the content proof graph\<close>

text \<open>
  Models \<open>internal/store/content_proofs.go\<close>, \<open>content_continuity.go\<close> and
  \<open>representation_convergence.go\<close> on the tables of migrations 0024, 0025 and 0035, with the record
  types of \<open>internal/contentproof\<close> that are stored in them. A table is the list of its rows in the
  order of their ids; a statement is a function on it, \<open>ORDER BY\<close> is a stable sort of the id order,
  and times are compared as the stored text (\<open>stamp_less\<close>). A transaction that fails leaves the
  state as it was, so a failing operation returns only the error. Failures of the database
  itself (I/O, locking) are not modelled; constraint violations that the code can run into are.

  The locale \<open>proof_repo\<close> is the contract of \<open>contentproof.Repository\<close> that the graph relies on; the
  interpretation \<open>proofStore\<close> discharges it for the store.
\<close>

subsection \<open>Data\<close>

datatype ContinuityRelation = ContinuityTOFU | ContinuityAuthoritative | ContinuityConflict

record Observation =
  o_rep :: string
  o_offset :: int
  o_length :: int
  o_digest :: string

record ContinuityEntry = Observation +
  ce_relation :: ContinuityRelation
  ce_provenance :: Provenance
  Mutation :: bool
  ce_observed :: instant

record VerifiedSpan =
  v_offset :: int
  v_length :: int

type_synonym 'a table = "(nat \<times> 'a) list"

record canonical_row =
  cr_id :: string
  cr_size :: int
  cr_created :: instant
  cr_updated :: instant

record alias_row =
  al_rep :: string
  al_canonical :: string
  al_verified :: instant

record route_row =
  ro_canonical :: string
  ro_route :: LaneCandidate
  ro_verified :: instant

record span_row =
  sp_left :: string
  sp_right :: string
  sp_span :: VerifiedSpan
  sp_verified :: instant

record proof_db =
  content_proofs :: "Evidence table"
  continuity :: "ContinuityEntry table"
  canonicals :: "canonical_row list"
  alias_rows :: "alias_row list"
  routes :: "route_row list"
  spans :: "span_row list"

subsection \<open>Bounded histories\<close>

definition next_id :: "'a table \<Rightarrow> nat" where
  "next_id t = Suc (fold max (map fst t) 0)"

definition by_observed :: "('a \<Rightarrow> instant) \<Rightarrow> 'a table \<Rightarrow> 'a table" where
  "by_observed ob t = sortStable (\<lambda>x y. stamp_less (ob (snd x)) (ob (snd y))) t"

text \<open>\<open>DELETE ... WHERE sel AND id NOT IN (SELECT id ... ORDER BY observed_at DESC, id DESC LIMIT n)\<close>; a negative
  limit is none.\<close>

definition newest :: "('a \<Rightarrow> instant) \<Rightarrow> ('a \<Rightarrow> bool) \<Rightarrow> int \<Rightarrow> 'a table \<Rightarrow> 'a table" where
  "newest ob sel limit t =
     (let rows = by_observed ob (filter (\<lambda>(i, x). sel x) t) in
      if limit < 0 then rows else drop (length rows - nat limit) rows)"

definition keep_newest :: "('a \<Rightarrow> instant) \<Rightarrow> ('a \<Rightarrow> bool) \<Rightarrow> int \<Rightarrow> 'a table \<Rightarrow> 'a table" where
  "keep_newest ob sel limit t =
     (let kept = map fst (newest ob sel limit t) in filter (\<lambda>(i, x). \<not> sel x \<or> i \<in> set kept) t)"

lemma set_by_observed [simp]: "set (by_observed ob t) = set t"
  by (simp add: by_observed_def)

lemma length_by_observed [simp]: "length (by_observed ob t) = length t"
  by (simp add: by_observed_def)

lemma set_keep_newest: "set (keep_newest ob sel limit t) \<subseteq> set t"
  by (auto simp: keep_newest_def Let_def)

lemma keep_newest_other: "\<not> sel x \<Longrightarrow> (i, x) \<in> set (keep_newest ob sel limit t) \<longleftrightarrow> (i, x) \<in> set t"
  by (auto simp: keep_newest_def Let_def)

lemma distinct_keep_newest: "distinct (map fst t) \<Longrightarrow> distinct (map fst (keep_newest ob sel limit t))"
  by (simp add: keep_newest_def Let_def distinct_map_filter)

lemma length_newest: "0 \<le> limit \<Longrightarrow> length (newest ob sel limit t) \<le> nat limit"
  by (simp add: newest_def Let_def)

text \<open>At most \<open>limit\<close> rows stay, the newest ones.\<close>

lemma keep_newest_bound:
  assumes "distinct (map fst t)" and "0 \<le> limit"
  shows "length (filter (\<lambda>(i, x). sel x) (keep_newest ob sel limit t)) \<le> nat limit"
proof -
  let ?kept = "filter (\<lambda>(i, x). sel x) (keep_newest ob sel limit t)"
  have "distinct (map fst ?kept)"
    using assms(1) by (simp add: distinct_keep_newest distinct_map_filter)
  moreover have "set (map fst ?kept) \<subseteq> set (map fst (newest ob sel limit t))"
    by (force simp: keep_newest_def Let_def)
  ultimately have "length (map fst ?kept) \<le> length (newest ob sel limit t)"
    by (metis card_length card_mono distinct_card finite_set length_map order_trans)
  with length_newest [OF assms(2), of ob sel t] show ?thesis by simp
qed

lemma last_in_suffix: "xs \<noteq> [] \<Longrightarrow> 0 < n \<Longrightarrow> last xs \<in> set (drop (length xs - n) xs)"
  by (metis diff_less drop_eq_Nil2 last_drop last_in_set length_greater_0_conv not_le)

lemma keep_newest_latest:
  assumes "(i, x) \<in> set t" and "sel x" and "0 < limit"
    and newer: "\<And>j y. (j, y) \<in> set t \<Longrightarrow> sel y \<Longrightarrow> (j, y) \<noteq> (i, x) \<Longrightarrow> stamp_less (ob y) (ob x)"
  shows "(i, x) \<in> set (keep_newest ob sel limit t)"
proof -
  let ?lt = "\<lambda>x y. stamp_less (ob (snd x)) (ob (snd y))"
  let ?rows = "by_observed ob (filter (\<lambda>(i, x). sel x) t)"
  have sorted: "sorted_wrt (\<lambda>a b. \<not> ?lt b a) ?rows"
    unfolding by_observed_def
    by (rule sortStable_sorted) (use stamp_less_order in blast)+
  have mem: "(i, x) \<in> set ?rows" using assms(1,2) by simp
  then have ne: "?rows \<noteq> []" by (metis empty_iff list.set(1))
  have "last ?rows = (i, x)"
  proof (rule ccontr)
    assume "last ?rows \<noteq> (i, x)"
    moreover have lst: "last ?rows \<in> set ?rows" using ne by (rule last_in_set)
    ultimately have lt: "?lt (last ?rows) (i, x)"
      using newer [of "fst (last ?rows)" "snd (last ?rows)"] by auto
    from mem ne \<open>last ?rows \<noteq> (i, x)\<close> have "(i, x) \<in> set (butlast ?rows)"
      by (metis append_butlast_last_id in_set_conv_decomp insert_iff list.set(2) rotate1.simps(2) set_rotate1)
    with sorted ne have "\<not> ?lt (last ?rows) (i, x)"
      by (metis append_butlast_last_id list.set_intros(1) sorted_wrt_append)
    with lt show False by contradiction
  qed
  moreover have "last ?rows \<in> set (newest ob sel limit t)"
    using last_in_suffix [OF ne, of "nat limit"] assms(3) by (simp add: newest_def Let_def)
  ultimately show ?thesis
    using assms(1) by (force simp: keep_newest_def Let_def)
qed

subsection \<open>Content proofs\<close>

definition key_of :: "Evidence \<Rightarrow> Key" where
  "key_of e = \<lparr>k_rep = RepresentationID e, k_scope = Scope_of e, k_offset = Offset e, k_length = Length e,
     k_kind = Kind_of e, k_algorithm = Algorithm_of e, k_provenance = Provenance_of e, k_origin = OriginID e\<rparr>"

text \<open>\<open>INSERT ... ON CONFLICT(key) DO UPDATE SET digest, expires_at, observed_at\<close>.\<close>

definition upsert_row :: "Evidence table \<Rightarrow> Evidence \<Rightarrow> Evidence table" where
  "upsert_row t e =
     (if list_ex (\<lambda>(i, x). key_of x = key_of e) t
      then map (\<lambda>(i, x). if key_of x = key_of e
             then (i, x\<lparr>Digest_of := Digest_of e, ExpiresAt := ExpiresAt e, ObservedAt := ObservedAt e\<rparr>) else (i, x)) t
      else t @ [(next_id t, e)])"

definition UpsertContentProof :: "proof_db \<Rightarrow> Evidence \<Rightarrow> int \<Rightarrow> (go_error, proof_db) result" where
  "UpsertContentProof db e maxPerRepresentation =
     Inr (db\<lparr>content_proofs :=
       keep_newest ObservedAt (\<lambda>x. RepresentationID x = RepresentationID e) maxPerRepresentation
         (upsert_row (content_proofs db) e)\<rparr>)"

definition unexpired :: "instant \<Rightarrow> Evidence \<Rightarrow> bool" where
  "unexpired now e = (case ExpiresAt e of None \<Rightarrow> True | Some t \<Rightarrow> stamp_less now t)"

datatype window = EveryProof | Inside int int int | Intersecting int int int

definition in_window :: "window \<Rightarrow> Evidence \<Rightarrow> bool" where
  "in_window w e =
     (case w of
        EveryProof \<Rightarrow> True
      | Intersecting offset len limit \<Rightarrow> Kind_of e = KindAuthoritative \<and> Length e > 0 \<and>
          Offset e < offset + len \<and> Length e > offset - Offset e
      | Inside offset len limit \<Rightarrow> Kind_of e = KindAuthoritative \<and> Offset e \<ge> offset \<and> Length e > 0 \<and>
          Offset e \<le> offset + len \<and> Length e \<le> offset + len - Offset e)"

definition limit_of :: "window \<Rightarrow> int" where
  "limit_of w = (case w of EveryProof \<Rightarrow> 0 | Inside _ _ limit \<Rightarrow> limit | Intersecting _ _ limit \<Rightarrow> limit)"

definition listContentProofs :: "proof_db \<Rightarrow> string list \<Rightarrow> instant \<Rightarrow> window \<Rightarrow> (go_error, Evidence list) result" where
  "listContentProofs db ids now w =
     (if ids = [] then Inr []
      else
        (let rows = map snd (by_observed ObservedAt
                      (filter (\<lambda>(i, x). RepresentationID x \<in> set ids \<and> unexpired now x \<and> in_window w x) (content_proofs db)));
             result = (if limit_of w > 0 then take (nat (limit_of w + 1)) rows else rows)
         in if limit_of w > 0 \<and> int (length result) > limit_of w
            then Inl (Plain ''store: content proof window limit exceeded'') else Inr result))"

definition ListContentProofs :: "proof_db \<Rightarrow> string list \<Rightarrow> instant \<Rightarrow> (go_error, Evidence list) result" where
  "ListContentProofs db ids now = listContentProofs db ids now EveryProof"

definition ListContentProofsForWindow ::
  "proof_db \<Rightarrow> string list \<Rightarrow> instant \<Rightarrow> int \<Rightarrow> int \<Rightarrow> int \<Rightarrow> (go_error, Evidence list) result" where
  "ListContentProofsForWindow db ids now offset len limit =
     (if offset < 0 \<or> len \<le> 0 \<or> offset > MaxInt64 - len \<or> limit \<le> 0
      then Inl (Plain ''store: invalid content proof window'')
      else listContentProofs db ids now (Inside offset len limit))"

definition ListContentProofsIntersectingWindow ::
  "proof_db \<Rightarrow> string list \<Rightarrow> instant \<Rightarrow> int \<Rightarrow> int \<Rightarrow> int \<Rightarrow> (go_error, Evidence list) result" where
  "ListContentProofsIntersectingWindow db ids now offset len limit =
     (if offset < 0 \<or> len \<le> 0 \<or> offset > MaxInt64 - len \<or> limit \<le> 0
      then Inl (Plain ''store: invalid content proof window'')
      else listContentProofs db ids now (Intersecting offset len limit))"

definition DeleteContentProof :: "proof_db \<Rightarrow> Key \<Rightarrow> (go_error, proof_db) result" where
  "DeleteContentProof db key =
     Inr (db\<lparr>content_proofs := filter (\<lambda>(i, x). key_of x \<noteq> key) (content_proofs db)\<rparr>)"

subsection \<open>Continuity\<close>

definition same_span :: "string \<Rightarrow> int \<Rightarrow> int \<Rightarrow> ContinuityEntry \<Rightarrow> bool" where
  "same_span rid offset len x \<longleftrightarrow> o_rep x = rid \<and> o_offset x = offset \<and> o_length x = len"

definition LatestContinuity :: "proof_db \<Rightarrow> string \<Rightarrow> int \<Rightarrow> int \<Rightarrow> (go_error, ContinuityEntry option) result" where
  "LatestContinuity db rid offset len =
     (let rows = by_observed ce_observed (filter (\<lambda>(i, x). same_span rid offset len x) (continuity db))
      in Inr (if rows = [] then None else Some (snd (last rows))))"

definition AppendContinuity :: "proof_db \<Rightarrow> ContinuityEntry \<Rightarrow> int \<Rightarrow> (go_error, proof_db) result" where
  "AppendContinuity db entry maxPerRepresentation =
     Inr (db\<lparr>continuity :=
       keep_newest ce_observed (\<lambda>x. o_rep x = o_rep entry) maxPerRepresentation
         (continuity db @ [(next_id (continuity db), entry)])\<rparr>)"

definition ListContinuity :: "proof_db \<Rightarrow> string \<Rightarrow> (go_error, ContinuityEntry list) result" where
  "ListContinuity db rid =
     Inr (map snd (by_observed ce_observed (filter (\<lambda>(i, x). o_rep x = rid) (continuity db))))"

subsection \<open>Convergence of representations\<close>

text \<open>
  \<open>sort.Slice\<close> leaves the order of spans with the same offset open; the merged list does not
  depend on it. Offsets plus lengths stay within the size of the representation, so the sums do not
  wrap.
\<close>

fun mergeLoop :: "VerifiedSpan list \<Rightarrow> VerifiedSpan list \<Rightarrow> VerifiedSpan list" where
  "mergeLoop merged [] = merged"
| "mergeLoop merged (s # ss) =
     (if merged = [] then mergeLoop [s] ss
      else
        (let l = last merged; lastEnd = v_offset l + v_length l; spanEnd = v_offset s + v_length s in
         if v_offset s > lastEnd then mergeLoop (merged @ [s]) ss
         else if spanEnd > lastEnd then mergeLoop (butlast merged @ [l\<lparr>v_length := spanEnd - v_offset l\<rparr>]) ss
         else mergeLoop merged ss))"

definition mergeVerifiedSpans :: "VerifiedSpan list \<Rightarrow> VerifiedSpan list" where
  "mergeVerifiedSpans ss = mergeLoop [] (sortStable (\<lambda>a b. v_offset a < v_offset b) ss)"

definition is_pair :: "string \<Rightarrow> string \<Rightarrow> span_row \<Rightarrow> bool" where
  "is_pair left right x \<longleftrightarrow> sp_left x = left \<and> sp_right x = right"

definition verificationPairExists :: "proof_db \<Rightarrow> string \<Rightarrow> string \<Rightarrow> bool" where
  "verificationPairExists db left right = list_ex (is_pair left right) (spans db)"

definition pair_count :: "proof_db \<Rightarrow> string \<Rightarrow> nat" where
  "pair_count db rid =
     length (remdups (map (\<lambda>x. (sp_left x, sp_right x)) (filter (\<lambda>x. sp_left x = rid \<or> sp_right x = rid) (spans db))))"

definition loadVerificationSpans :: "proof_db \<Rightarrow> string \<Rightarrow> string \<Rightarrow> VerifiedSpan list" where
  "loadVerificationSpans db left right =
     sortStable (\<lambda>a b. v_offset a < v_offset b \<or> (v_offset a = v_offset b \<and> v_length a < v_length b))
       (map sp_span (filter (is_pair left right) (spans db)))"

definition clear_pair :: "proof_db \<Rightarrow> string \<Rightarrow> string \<Rightarrow> proof_db" where
  "clear_pair db left right = db\<lparr>spans := filter (\<lambda>x. \<not> is_pair left right x) (spans db)\<rparr>"

definition aliasCanonical :: "proof_db \<Rightarrow> string \<Rightarrow> string" where
  "aliasCanonical db rid = (case List.find (\<lambda>a. al_rep a = rid) (alias_rows db) of None \<Rightarrow> '''' | Some a \<Rightarrow> al_canonical a)"

definition ensureCanonicalSize :: "proof_db \<Rightarrow> string \<Rightarrow> int \<Rightarrow> go_error option" where
  "ensureCanonicalSize db canonical sz =
     (case List.find (\<lambda>c. cr_id c = canonical) (canonicals db) of
        None \<Rightarrow> Some (Plain ''read canonical representation size'')
      | Some c \<Rightarrow> if cr_size c \<noteq> sz then Some (Plain ''store: canonical representation size conflict'') else None)"

definition upsertAlias :: "proof_db \<Rightarrow> string \<Rightarrow> string \<Rightarrow> instant \<Rightarrow> proof_db" where
  "upsertAlias db canonical rid at =
     db\<lparr>alias_rows :=
       (if list_ex (\<lambda>a. al_rep a = rid) (alias_rows db)
        then map (\<lambda>a. if al_rep a = rid then a\<lparr>al_canonical := canonical, al_verified := at\<rparr> else a) (alias_rows db)
        else alias_rows db @ [\<lparr>al_rep = rid, al_canonical = canonical, al_verified = at\<rparr>])\<rparr>"

definition upsertRepresentationRoute ::
  "proof_db \<Rightarrow> string \<Rightarrow> LaneCandidate \<Rightarrow> instant \<Rightarrow> (go_error, proof_db) result" where
  "upsertRepresentationRoute db canonical route at =
     (case List.find (\<lambda>x. c_rep (ro_route x) = c_rep route) (routes db) of
        None \<Rightarrow> Inr (db\<lparr>routes := routes db @ [\<lparr>ro_canonical = canonical, ro_route = route, ro_verified = at\<rparr>]\<rparr>)
      | Some x \<Rightarrow>
          if ro_route x \<noteq> route then Inl (Plain ''store: representation route identity conflict'')
          else Inr (db\<lparr>routes := map (\<lambda>x. if c_rep (ro_route x) = c_rep route
                                 then x\<lparr>ro_canonical := canonical, ro_verified := at\<rparr> else x) (routes db)\<rparr>))"

definition route_count :: "proof_db \<Rightarrow> string list \<Rightarrow> nat" where
  "route_count db cs = length (filter (\<lambda>x. ro_canonical x \<in> set cs) (routes db))"

text \<open>The branches of \<open>convergeGroups\<close>: a new group, the merge of two groups, the two routes.\<close>

definition newGroup :: "proof_db \<Rightarrow> string \<Rightarrow> int \<Rightarrow> instant \<Rightarrow> (go_error, proof_db) result" where
  "newGroup db canonical sz at =
     (if list_ex (\<lambda>c. cr_id c = canonical) (canonicals db) then Inl (Plain ''create canonical representation'')
      else Inr (db\<lparr>canonicals := canonicals db @ [\<lparr>cr_id = canonical, cr_size = sz, cr_created = at, cr_updated = at\<rparr>]\<rparr>))"

definition mergeGroups :: "proof_db \<Rightarrow> string \<Rightarrow> string \<Rightarrow> int \<Rightarrow> (go_error, proof_db) result" where
  "mergeGroups db winner loser maxRoutes =
     (if int (route_count db [winner, loser]) > maxRoutes
      then Inl (Plain ''store: canonical representation route limit exceeded'')
      else Inr (db\<lparr>alias_rows := map (\<lambda>a. if al_canonical a = loser then a\<lparr>al_canonical := winner\<rparr> else a) (alias_rows db),
                  routes := map (\<lambda>x. if ro_canonical x = loser then x\<lparr>ro_canonical := winner\<rparr> else x) (routes db),
                  canonicals := filter (\<lambda>c. cr_id c \<noteq> loser) (canonicals db)\<rparr>))"

definition addRoute :: "string \<Rightarrow> instant \<Rightarrow> LaneCandidate \<Rightarrow> proof_db \<Rightarrow> (go_error, proof_db) result" where
  "addRoute canonical at route db =
     (case ensureCanonicalSize db canonical (Size route) of
        Some e \<Rightarrow> Inl e
      | None \<Rightarrow> upsertRepresentationRoute (upsertAlias db canonical (c_rep route) at) canonical route at)"

definition chooseGroup :: "proof_db \<Rightarrow> LaneCandidate \<Rightarrow> LaneCandidate \<Rightarrow> string \<Rightarrow> instant \<Rightarrow> int \<Rightarrow> (go_error, string \<times> proof_db) result" where
  "chooseGroup db left right proposed at maxRoutes =
     (let leftCanonical = aliasCanonical db (c_rep left); rightCanonical = aliasCanonical db (c_rep right);
          canonical = (if leftCanonical = '''' then rightCanonical else leftCanonical)
      in if canonical = '''' then
           (case newGroup db proposed (Size left) at of Inl e \<Rightarrow> Inl e | Inr db1 \<Rightarrow> Inr (proposed, db1))
         else if leftCanonical \<noteq> '''' \<and> rightCanonical \<noteq> '''' \<and> leftCanonical \<noteq> rightCanonical then
           (let swap = bytes_less rightCanonical leftCanonical;
                winner = (if swap then rightCanonical else leftCanonical);
                loser = (if swap then leftCanonical else rightCanonical)
            in case mergeGroups db winner loser maxRoutes of Inl e \<Rightarrow> Inl e | Inr db1 \<Rightarrow> Inr (winner, db1))
         else Inr (canonical, db))"

definition convergeGroups :: "proof_db \<Rightarrow> LaneCandidate \<Rightarrow> LaneCandidate \<Rightarrow> string \<Rightarrow> instant \<Rightarrow> int \<Rightarrow> (go_error, string \<times> proof_db) result" where
  "convergeGroups db left right proposed at maxRoutes =
     (case chooseGroup db left right proposed at maxRoutes of
        Inl e \<Rightarrow> Inl e
      | Inr (canonical, db1) \<Rightarrow>
          (case addRoute canonical at left db1 of
             Inl e \<Rightarrow> Inl e
           | Inr db2 \<Rightarrow>
               (case addRoute canonical at right db2 of
                  Inl e \<Rightarrow> Inl e
                | Inr db3 \<Rightarrow>
                    if int (route_count db3 [canonical]) > maxRoutes
                    then Inl (Plain ''store: canonical representation route limit exceeded'')
                    else Inr (canonical, db3\<lparr>canonicals :=
                           map (\<lambda>c. if cr_id c = canonical then c\<lparr>cr_updated := at\<rparr> else c) (canonicals db3)\<rparr>))))"

definition ordered :: "LaneCandidate \<Rightarrow> LaneCandidate \<Rightarrow> LaneCandidate \<times> LaneCandidate" where
  "ordered left right = (if bytes_less (c_rep right) (c_rep left) then (right, left) else (left, right))"

text \<open>The transaction once the two candidates are in order. The insert fails on the check
  \<open>left_id < right_id\<close> when both sides are the same representation.\<close>

definition observePair :: "proof_db \<Rightarrow> LaneCandidate \<Rightarrow> LaneCandidate \<Rightarrow> VerifiedSpan \<Rightarrow> string \<Rightarrow> instant \<Rightarrow> int \<Rightarrow> int \<Rightarrow>
  (go_error, string \<times> proof_db) result" where
  "observePair db left right span proposed at maxRoutes maxSpans =
     (let l = c_rep left; r = c_rep right in
      if \<not> verificationPairExists db l r \<and> (int (pair_count db l) \<ge> maxRoutes \<or> int (pair_count db r) \<ge> maxRoutes)
      then Inl (Plain ''store: representation verification pair limit exceeded'')
      else
        (let merged = mergeVerifiedSpans (loadVerificationSpans db l r @ [span]) in
         if int (length merged) > maxSpans then Inl (Plain ''store: representation verification span limit exceeded'')
         else if l = r then Inl (Plain ''insert representation verification span'')
         else
           (let db1 = (clear_pair db l r)\<lparr>spans := spans (clear_pair db l r) @
                  map (\<lambda>v. \<lparr>sp_left = l, sp_right = r, sp_span = v, sp_verified = at\<rparr>) merged\<rparr>
            in if length merged \<noteq> 1 \<or> v_offset (hd merged) \<noteq> 0 \<or> v_length (hd merged) \<noteq> Size left
               then Inr ('''', db1)
               else case convergeGroups db1 left right proposed at maxRoutes of
                 Inl e \<Rightarrow> Inl e
               | Inr (canonical, db2) \<Rightarrow> Inr (canonical, clear_pair db2 l r))))"

definition ObserveRepresentationConvergence :: "proof_db \<Rightarrow> LaneCandidate \<Rightarrow> LaneCandidate \<Rightarrow> VerifiedSpan \<Rightarrow> string \<Rightarrow>
  instant \<Rightarrow> int \<Rightarrow> int \<Rightarrow> (go_error, string \<times> proof_db) result" where
  "ObserveRepresentationConvergence db left right span proposed at maxRoutes maxSpans =
     (case ordered left right of (l, r) \<Rightarrow> observePair db l r span proposed at maxRoutes maxSpans)"

text \<open>The join of routes and aliases on the canonical id, for one representation.\<close>

definition ListRepresentationRoutes :: "proof_db \<Rightarrow> string \<Rightarrow> int \<Rightarrow> (go_error, LaneCandidate list) result" where
  "ListRepresentationRoutes db rid limit =
     (if limit < 1 then Inr []
      else
        (let joined = concat (map (\<lambda>x. map (\<lambda>a. x) (filter (\<lambda>a. al_rep a = rid \<and> al_canonical a = ro_canonical x) (alias_rows db)))
                         (routes db));
             rows = take (nat (limit + 1))
               (sortStable (\<lambda>x y. stamp_less (ro_verified x) (ro_verified y) \<or>
                  (ro_verified x = ro_verified y \<and> bytes_less (c_rep (ro_route x)) (c_rep (ro_route y)))) joined)
         in if int (length rows) > limit then Inl (Plain ''store: representation route limit exceeded'')
            else Inr (map ro_route rows)))"

definition ListRepresentationAliases :: "proof_db \<Rightarrow> string \<Rightarrow> int \<Rightarrow> (go_error, string list \<times> int) result" where
  "ListRepresentationAliases db rid limit =
     (if limit < 1 then Inr ([], 0)
      else case List.find (\<lambda>a. al_rep a = rid \<and> list_ex (\<lambda>c. cr_id c = al_canonical a) (canonicals db)) (alias_rows db) of
        None \<Rightarrow> Inr ([], 0)
      | Some a \<Rightarrow>
          (case List.find (\<lambda>c. cr_id c = al_canonical a) (canonicals db) of
             None \<Rightarrow> Inr ([], 0)
           | Some c \<Rightarrow>
               (let reps = take (nat (limit + 1))
                      (sortStable bytes_less (map al_rep (filter (\<lambda>b. al_canonical b = al_canonical a) (alias_rows db))))
                in if int (length reps) > limit then Inl (Plain ''store: representation alias limit exceeded'')
                   else Inr (reps, cr_size c))))"

definition ResolveRepresentationCanonical :: "proof_db \<Rightarrow> string \<Rightarrow> (go_error, string \<times> bool) result" where
  "ResolveRepresentationCanonical db rid =
     (case List.find (\<lambda>a. al_rep a = rid) (alias_rows db) of
        None \<Rightarrow> Inr ('''', False)
      | Some a \<Rightarrow> Inr (al_canonical a, True))"

definition store_proofs :: "proof_db Repository" where
  "store_proofs = \<lparr>Upsert = UpsertContentProof, ListProofs = ListContentProofs, DeleteProof = DeleteContentProof,
     Aliases = (\<lambda>db. Some (ListRepresentationAliases db))\<rparr>"

subsection \<open>The contract of the repository\<close>

text \<open>
  What the graph relies on: a listing succeeds and depends only on the set of the representations asked
  for; it holds only evidence of those; after recording, an assertion that was not listed before is
  the recorded one, and so is every listed assertion with its key; revoking removes exactly the
  assertion with the key; neither changes which representations are aliases.
\<close>

locale proof_repo =
  fixes repo :: "'r Repository"
  assumes list_ok: "\<exists>evs. ListProofs repo r ids now = Inr evs"
    and list_ids: "set ids = set ids' \<Longrightarrow> ListProofs repo r ids now = ListProofs repo r ids' now"
    and list_rep: "ListProofs repo r ids now = Inr evs \<Longrightarrow> e \<in> set evs \<Longrightarrow> RepresentationID e \<in> set ids"
    and upsert_ok: "\<exists>r'. Upsert repo r e mx = Inr r'"
    and upsert_from: "Upsert repo r e mx = Inr r' \<Longrightarrow> ListProofs repo r' ids now = Inr evs' \<Longrightarrow>
      ListProofs repo r ids now = Inr evs \<Longrightarrow> x \<in> set evs' \<Longrightarrow> x \<notin> set evs \<Longrightarrow> x = e"
    and upsert_replaces: "Upsert repo r e mx = Inr r' \<Longrightarrow> ListProofs repo r' ids now = Inr evs' \<Longrightarrow>
      x \<in> set evs' \<Longrightarrow> key_of x = key_of e \<Longrightarrow> x = e"
    and upsert_aliases: "Upsert repo r e mx = Inr r' \<Longrightarrow> representationAliases repo r' rid = representationAliases repo r rid"
    and delete_exact: "DeleteProof repo r key = Inr r' \<Longrightarrow> ListProofs repo r ids now = Inr evs \<Longrightarrow>
      ListProofs repo r' ids now = Inr evs' \<Longrightarrow> set evs' = {x \<in> set evs. key_of x \<noteq> key}"
    and delete_aliases: "DeleteProof repo r key = Inr r' \<Longrightarrow> representationAliases repo r' rid = representationAliases repo r rid"
begin

text \<open>The relation of two representations does not depend on their order.\<close>

lemma Compare_symmetric:
  assumes "Compare \<lparr>g_repo = repo, g_max = mx\<rparr> r None now a b offset len = Inr d"
  shows "\<exists>d'. Compare \<lparr>g_repo = repo, g_max = mx\<rparr> r None now b a offset len = Inr d' \<and> Relation_of d' = Relation_of d"
proof -
  obtain la sa lb sb where al: "representationAliases repo r a = Inr (la, sa)" "representationAliases repo r b = Inr (lb, sb)"
    using assms by (auto simp: Compare_def split: if_splits sum.splits)
  obtain evs where evs: "ListProofs repo r (la @ lb) now = Inr evs" using list_ok by blast
  have "set (la @ lb) = set (lb @ la)" by auto
  then have evs': "ListProofs repo r (lb @ la) now = Inr evs"
    using list_ids evs by metis
  have valid: "validOpaqueID a" "validOpaqueID b" "\<not> (offset < 0 \<or> len \<le> 0 \<or> offset > MaxInt64 - len)"
    using assms by (auto simp: Compare_def split: if_splits)
  have sym: "comparable lb la offset len l q = comparable la lb offset len q l" for l q
    by (auto simp: comparable_def)
  have "(\<exists>l \<in> set evs. \<exists>q \<in> set evs. comparable lb la offset len l q \<and> Digest_of l \<noteq> Digest_of q) =
      (\<exists>l \<in> set evs. \<exists>q \<in> set evs. comparable la lb offset len l q \<and> Digest_of l \<noteq> Digest_of q)"
    "(\<exists>l \<in> set evs. \<exists>q \<in> set evs. comparable lb la offset len l q) =
      (\<exists>l \<in> set evs. \<exists>q \<in> set evs. comparable la lb offset len l q)"
    unfolding sym by metis+
  then have "Relation_of (decide lb la offset len evs) = Relation_of (decide la lb offset len evs)"
    by (simp only: decide_relation)
  moreover have "(set lb = set la \<and> 0 < sb \<and> sb = sa \<and> offset \<le> sb - len) \<longleftrightarrow>
      set la = set lb \<and> 0 < sa \<and> sa = sb \<and> offset \<le> sa - len" (is "?same' \<longleftrightarrow> ?same")
    by auto
  moreover have "Compare \<lparr>g_repo = repo, g_max = mx\<rparr> r None now a b offset len =
      Inr (if ?same then (undecided offset len)\<lparr>Relation_of := RelationProven\<rparr> else decide la lb offset len evs)"
    "Compare \<lparr>g_repo = repo, g_max = mx\<rparr> r None now b a offset len =
      Inr (if ?same' then (undecided offset len)\<lparr>Relation_of := RelationProven\<rparr> else decide lb la offset len evs)"
    using valid al evs evs' by (simp_all add: Compare_def)
  ultimately show ?thesis using assms by (cases ?same) auto
qed

text \<open>After a revocation a digest verifies only if another assertion, there before, carries it.\<close>

lemma Revoke_forgets:
  assumes "Revoke \<lparr>g_repo = repo, g_max = mx\<rparr> r None key = Inr r'"
    and "VerifyDigest \<lparr>g_repo = repo, g_max = mx\<rparr> r' cx now rid scope offset len algorithm digest = Inr d"
    and "Relation_of d = RelationProven"
  shows "\<exists>ids sz evs. representationAliases repo r rid = Inr (ids, sz) \<and> ListProofs repo r ids now = Inr evs \<and>
    (\<exists>p \<in> set evs. exact scope offset len algorithm p \<and> Digest_of p = digest \<and> key_of p \<noteq> key)"
proof -
  have del: "DeleteProof repo r key = Inr r'"
    using assms(1) by (auto simp: Revoke_def split: option.splits)
  obtain ids sz evs' p where al: "representationAliases repo r' rid = Inr (ids, sz)"
    and p: "ListProofs repo r' ids now = Inr evs'" "p \<in> set evs'"
    "exact scope offset len algorithm p" "Digest_of p = digest"
    using assms(3) by (rule_tac VerifyDigest_relation [OF assms(2)]) (auto split: if_splits)
  obtain evs where evs: "ListProofs repo r ids now = Inr evs" using list_ok by blast
  with delete_exact [OF del evs p(1)] al p delete_aliases [OF del] show ?thesis by auto
qed

text \<open>Recording evidence for a span that had none makes exactly its digest verifiable.\<close>

lemma Record_adds_only:
  assumes "Record_proof \<lparr>g_repo = repo, g_max = mx\<rparr> r None now e = Inr r'"
    and "ObservedAt e \<noteq> zeroTime"
    and "VerifyDigest \<lparr>g_repo = repo, g_max = mx\<rparr> r None now rid scope offset len algorithm digest0 = Inr d0"
    and "Relation_of d0 = RelationNoProof"
    and "VerifyDigest \<lparr>g_repo = repo, g_max = mx\<rparr> r' None now rid scope offset len algorithm digest = Inr d"
    and "Relation_of d = RelationProven"
  shows "exact scope offset len algorithm e \<and> Digest_of e = digest"
proof -
  have up: "Upsert repo r e mx = Inr r'"
    using assms(1,2) by (auto simp: Record_proof_def split: option.splits)
  obtain ids sz evs where al: "representationAliases repo r rid = Inr (ids, sz)" "ListProofs repo r ids now = Inr evs"
    and none: "\<not> (\<exists>p \<in> set evs. exact scope offset len algorithm p)"
    using assms(4) by (rule_tac VerifyDigest_relation [OF assms(3)]) (auto split: if_splits)
  obtain ids' sz' evs' p where al': "representationAliases repo r' rid = Inr (ids', sz')" "ListProofs repo r' ids' now = Inr evs'"
    and p: "p \<in> set evs'" "exact scope offset len algorithm p" "Digest_of p = digest"
    using assms(6) by (rule_tac VerifyDigest_relation [OF assms(5)]) (auto split: if_splits)
  have "ids' = ids" using upsert_aliases [OF up, of rid] al al' by simp
  with al' have "ListProofs repo r' ids now = Inr evs'" by simp
  from upsert_from [OF up this al(2) p(1)] none p show ?thesis by auto
qed

end

lemma set_ListContentProofs:
  assumes "ListContentProofs db ids now = Inr evs"
  shows "set evs = {x. (\<exists>i. (i, x) \<in> set (content_proofs db)) \<and> RepresentationID x \<in> set ids \<and> unexpired now x}"
proof (cases "ids = []")
  case False
  with assms have "evs = map snd (by_observed ObservedAt
      (filter (\<lambda>(i, x). RepresentationID x \<in> set ids \<and> unexpired now x) (content_proofs db)))"
    by (simp add: ListContentProofs_def listContentProofs_def limit_of_def in_window_def)
  then show ?thesis by force
qed (use assms in \<open>simp add: ListContentProofs_def listContentProofs_def\<close>)

lemma ListContentProofs_total: "\<exists>evs. ListContentProofs db ids now = Inr evs"
  by (simp add: ListContentProofs_def listContentProofs_def limit_of_def)

lemma upsert_row_cases:
  assumes "(i, x) \<in> set (upsert_row t e)"
  shows "(i, x) \<in> set t \<or> x = e"
proof (cases "list_ex (\<lambda>(i, x). key_of x = key_of e) t")
  case False
  with assms show ?thesis by (auto simp: upsert_row_def)
next
  case True
  with assms obtain y where y: "(i, y) \<in> set t"
    "x = (if key_of y = key_of e then y\<lparr>Digest_of := Digest_of e, ExpiresAt := ExpiresAt e, ObservedAt := ObservedAt e\<rparr> else y)"
    by (auto simp: upsert_row_def split: if_splits)
  then show ?thesis
    by (cases "key_of y = key_of e") (auto simp: key_of_def)
qed

lemma upsert_row_key:
  assumes "(i, x) \<in> set (upsert_row t e)" and "key_of x = key_of e"
  shows "x = e"
  using assms
  by (auto simp: upsert_row_def key_of_def list_ex_iff split: if_splits)

lemma store_aliases:
  assumes "alias_rows db' = alias_rows db" and "canonicals db' = canonicals db"
  shows "representationAliases store_proofs db' rid = representationAliases store_proofs db rid"
proof -
  have "ListRepresentationAliases db' = ListRepresentationAliases db"
    by (intro ext) (simp only: ListRepresentationAliases_def assms)
  then show ?thesis by (simp add: representationAliases_def store_proofs_def)
qed

interpretation proofStore: proof_repo store_proofs
proof
  fix r r' :: proof_db and e x :: Evidence and mx ids now evs evs' rid key
  {
    show "\<exists>evs. ListProofs store_proofs r ids now = Inr evs"
      using ListContentProofs_total by (simp add: store_proofs_def)
  next
    assume "ListProofs store_proofs r ids now = Inr evs" and "e \<in> set evs"
    then show "RepresentationID e \<in> set ids"
      by (simp add: store_proofs_def set_ListContentProofs)
  next
    show "\<exists>r'. Upsert store_proofs r e mx = Inr r'"
      by (simp add: store_proofs_def UpsertContentProof_def)
  next
    assume "Upsert store_proofs r e mx = Inr r'"
    then show "representationAliases store_proofs r' rid = representationAliases store_proofs r rid"
      by (intro store_aliases) (auto simp: store_proofs_def UpsertContentProof_def)
  next
    assume "DeleteProof store_proofs r key = Inr r'"
    then show "representationAliases store_proofs r' rid = representationAliases store_proofs r rid"
      by (intro store_aliases) (auto simp: store_proofs_def DeleteContentProof_def)
  next
    assume "DeleteProof store_proofs r key = Inr r'" and "ListProofs store_proofs r ids now = Inr evs"
      and "ListProofs store_proofs r' ids now = Inr evs'"
    then show "set evs' = {x \<in> set evs. key_of x \<noteq> key}"
      by (auto simp: store_proofs_def DeleteContentProof_def set_ListContentProofs)
  }
  assume u: "Upsert store_proofs r e mx = Inr r'" and l': "ListProofs store_proofs r' ids now = Inr evs'" and x: "x \<in> set evs'"
  have "set (content_proofs r') \<subseteq> set (upsert_row (content_proofs r) e)"
    using u set_keep_newest by (fastforce simp: store_proofs_def UpsertContentProof_def)
  moreover have sel: "\<exists>i. (i, x) \<in> set (content_proofs r')" "RepresentationID x \<in> set ids" "unexpired now x"
    using l' x by (simp_all add: store_proofs_def set_ListContentProofs)
  ultimately have up: "\<exists>i. (i, x) \<in> set (upsert_row (content_proofs r) e)" by blast
  {
    assume "ListProofs store_proofs r ids now = Inr evs" and "x \<notin> set evs"
    with sel have "\<And>i. (i, x) \<notin> set (content_proofs r)"
      by (auto simp: store_proofs_def set_ListContentProofs)
    with up upsert_row_cases show "x = e" by blast
  }
  {
    assume "key_of x = key_of e"
    with up upsert_row_key show "x = e" by blast
  }
next
  fix r :: proof_db and ids ids' :: "string list" and now
  assume "set ids = set ids'"
  then show "ListProofs store_proofs r ids now = ListProofs store_proofs r ids' now"
    by (simp add: store_proofs_def ListContentProofs_def listContentProofs_def) (metis empty_set set_empty)
qed

subsection \<open>Properties of the graph on the store\<close>

text \<open>Example data: two representations with one PAR2 block each.\<close>

definition demo_evidence :: "string \<Rightarrow> char \<Rightarrow> Evidence" where
  "demo_evidence rep c = \<lparr>RepresentationID = rep, Scope_of = ScopeBlock, Offset = 0, Length = 4, Kind_of = KindAuthoritative,
     Algorithm_of = AlgorithmMD5, Digest_of = replicate 16 c, Provenance_of = ProvenancePAR2IFSC, OriginID = '''',
     ExpiresAt = None, ObservedAt = Second\<rparr>"

definition demo_db :: proof_db where
  "demo_db = \<lparr>content_proofs = [(1, demo_evidence ''a'' CHR ''x''), (2, demo_evidence ''b'' CHR ''x''), (3, demo_evidence ''c'' CHR ''y'')],
     continuity = [], canonicals = [], alias_rows = [], routes = [], spans = []\<rparr>"

definition demo_graph :: "proof_db Graph" where
  "demo_graph = \<lparr>g_repo = store_proofs, g_max = 4096\<rparr>"

lemma demo_aliases: "representationAliases (g_repo demo_graph) demo_db rid = Inr ([rid], 0)"
  by (simp add: demo_graph_def representationAliases_def store_proofs_def ListRepresentationAliases_def demo_db_def)

text \<open>C20: \<open>Compare\<close> authorises bytes only on authoritative, agreeing evidence. When the two representations
  are not already known to be the same object, the answer is "conflict" iff some pair of
  authoritative assertions of the two sides over the same block with the same algorithm, both
  covering the requested span, carries different digests; "proven" iff there is such a pair and
  all of them agree; and "no proof" otherwise. Evidence of any other kind never matters.\<close>

theorem compare_decides:
  assumes "Compare g r None now leftID rightID offset len = Inr d"
    and "representationAliases (g_repo g) r leftID = Inr (leftIDs, leftSize)"
    and "representationAliases (g_repo g) r rightID = Inr (rightIDs, rightSize)"
    and "\<not> (set leftIDs = set rightIDs \<and> leftSize > 0 \<and> leftSize = rightSize \<and> offset \<le> leftSize - len)"
  shows "\<exists>evs. ListProofs (g_repo g) r (leftIDs @ rightIDs) now = Inr evs \<and>
    (Relation_of d = RelationConflict \<longleftrightarrow>
       (\<exists>l \<in> set evs. \<exists>q \<in> set evs. comparable leftIDs rightIDs offset len l q \<and> Digest_of l \<noteq> Digest_of q)) \<and>
    (Relation_of d = RelationProven \<longleftrightarrow>
       (\<exists>l \<in> set evs. \<exists>q \<in> set evs. comparable leftIDs rightIDs offset len l q) \<and>
       (\<forall>l \<in> set evs. \<forall>q \<in> set evs. comparable leftIDs rightIDs offset len l q \<longrightarrow> Digest_of l = Digest_of q))"
proof -
  obtain evs where evs: "ListProofs (g_repo g) r (leftIDs @ rightIDs) now = Inr evs"
    "d = decide leftIDs rightIDs offset len evs"
    using assms by (auto simp: Compare_def split: if_splits sum.splits)
  show ?thesis
    unfolding evs(2) decide_relation using evs(1) by (intro exI [of _ evs]) auto
qed

theorem compare_decides_witness:
  "(\<exists>evs. ListProofs (g_repo demo_graph) demo_db ([''a''] @ [''c'']) 0 = Inr evs \<and>
     (\<exists>l \<in> set evs. \<exists>q \<in> set evs. comparable [''a''] [''c''] 0 4 l q \<and> Digest_of l \<noteq> Digest_of q)) \<and>
   Compare demo_graph demo_db None 0 ''a'' ''c'' 0 4 =
     Inr \<lparr>Relation_of = RelationConflict, d_offset = 0, d_length = 4, Left = ProvenancePAR2IFSC, Right = ProvenancePAR2IFSC\<rparr>"
proof -
  have c: "Compare demo_graph demo_db None 0 ''a'' ''c'' 0 4 =
     Inr \<lparr>Relation_of = RelationConflict, d_offset = 0, d_length = 4, Left = ProvenancePAR2IFSC, Right = ProvenancePAR2IFSC\<rparr>"
    by code_simp
  have "\<not> (set [''a''] = set [''c''] \<and> (0 :: int) > 0 \<and> (0 :: int) = 0 \<and> (0 :: int) \<le> 0 - 4)" by simp
  from compare_decides [OF c demo_aliases demo_aliases this] c show ?thesis by auto
qed

text \<open>C21: a digest is accepted only if it equals every authoritative assertion for exactly that span and
  algorithm, and there is at least one; a single disagreeing assertion makes it a conflict, and with
  none there is no proof.\<close>

theorem verify_digest_decides:
  assumes "VerifyDigest g r cx now rid scope offset len algorithm digest = Inr d"
  shows "\<exists>ids sz evs. representationAliases (g_repo g) r rid = Inr (ids, sz) \<and>
    ListProofs (g_repo g) r ids now = Inr evs \<and>
    (Relation_of d = RelationProven \<longleftrightarrow>
       (\<exists>p \<in> set evs. exact scope offset len algorithm p) \<and>
       (\<forall>p \<in> set evs. exact scope offset len algorithm p \<longrightarrow> Digest_of p = digest)) \<and>
    (Relation_of d = RelationConflict \<longleftrightarrow>
       (\<exists>p \<in> set evs. exact scope offset len algorithm p \<and> Digest_of p \<noteq> digest))"
  by (rule VerifyDigest_relation [OF assms]) (auto split: if_splits)

theorem verify_digest_decides_witness:
  "(\<exists>evs. ListProofs (g_repo demo_graph) demo_db [''a''] 0 = Inr evs \<and>
     (\<forall>p \<in> set evs. exact ScopeBlock 0 4 AlgorithmMD5 p \<longrightarrow> Digest_of p = replicate 16 (CHR ''x''))) \<and>
   VerifyDigest demo_graph demo_db None 0 ''a'' ScopeBlock 0 4 AlgorithmMD5 (replicate 16 (CHR ''x'')) =
     Inr \<lparr>Relation_of = RelationProven, d_offset = 0, d_length = 4, Left = ProvenancePAR2IFSC, Right = noProvenance\<rparr>"
proof -
  have c: "VerifyDigest demo_graph demo_db None 0 ''a'' ScopeBlock 0 4 AlgorithmMD5 (replicate 16 (CHR ''x'')) =
     Inr \<lparr>Relation_of = RelationProven, d_offset = 0, d_length = 4, Left = ProvenancePAR2IFSC, Right = noProvenance\<rparr>"
    by code_simp
  from verify_digest_decides [OF c] c demo_aliases show ?thesis by auto
qed

text \<open>The comparison is symmetric: on the store's tables, comparing b with a succeeds exactly when
  comparing a with b does and gives the same relation.\<close>

theorem compare_symmetric:
  assumes "Compare \<lparr>g_repo = store_proofs, g_max = mx\<rparr> db None now a b offset len = Inr d"
  shows "\<exists>d'. Compare \<lparr>g_repo = store_proofs, g_max = mx\<rparr> db None now b a offset len = Inr d' \<and>
    Relation_of d' = Relation_of d"
  using assms by (rule proofStore.Compare_symmetric)

theorem compare_symmetric_witness:
  "\<exists>d'. Compare \<lparr>g_repo = store_proofs, g_max = 4096\<rparr> demo_db None 0 ''c'' ''a'' 0 4 = Inr d' \<and> Relation_of d' = RelationConflict"
proof -
  have "Compare \<lparr>g_repo = store_proofs, g_max = 4096\<rparr> demo_db None 0 ''a'' ''c'' 0 4 =
     Inr \<lparr>Relation_of = RelationConflict, d_offset = 0, d_length = 4, Left = ProvenancePAR2IFSC, Right = ProvenancePAR2IFSC\<rparr>"
    by code_simp
  from compare_symmetric [OF this] show ?thesis by simp
qed

text \<open>A revoked assertion authorises nothing. If a digest still verifies after \<open>Revoke\<close>, then some
  other assertion for exactly that span and algorithm, under another key and present before the
  revocation, carries the same digest.\<close>

theorem revoke_forgets:
  assumes "Revoke \<lparr>g_repo = store_proofs, g_max = mx\<rparr> db None key = Inr db'"
    and "VerifyDigest \<lparr>g_repo = store_proofs, g_max = mx\<rparr> db' cx now rid scope offset len algorithm digest = Inr d"
    and "Relation_of d = RelationProven"
  shows "\<exists>ids sz evs. representationAliases store_proofs db rid = Inr (ids, sz) \<and> ListContentProofs db ids now = Inr evs \<and>
    (\<exists>p \<in> set evs. exact scope offset len algorithm p \<and> Digest_of p = digest \<and> key_of p \<noteq> key)"
  using proofStore.Revoke_forgets [OF assms] by (simp add: store_proofs_def)

theorem revoke_forgets_witness:
  "\<exists>ids sz evs. representationAliases store_proofs demo_db ''a'' = Inr (ids, sz) \<and> ListContentProofs demo_db ids 0 = Inr evs \<and>
    (\<exists>p \<in> set evs. exact ScopeBlock 0 4 AlgorithmMD5 p \<and> Digest_of p = replicate 16 (CHR ''x'') \<and>
       key_of p \<noteq> key_of (demo_evidence ''c'' CHR ''y''))"
proof -
  let ?g = "\<lparr>g_repo = store_proofs, g_max = 4096\<rparr>"
  let ?db = "demo_db\<lparr>content_proofs := [(1, demo_evidence ''a'' CHR ''x''), (2, demo_evidence ''b'' CHR ''x'')]\<rparr>"
  have r: "Revoke ?g demo_db None (key_of (demo_evidence ''c'' CHR ''y'')) = Inr ?db"
    by code_simp
  have v: "VerifyDigest ?g ?db None 0 ''a'' ScopeBlock 0 4 AlgorithmMD5 (replicate 16 (CHR ''x'')) =
     Inr \<lparr>Relation_of = RelationProven, d_offset = 0, d_length = 4, Left = ProvenancePAR2IFSC, Right = noProvenance\<rparr>"
    by code_simp
  from revoke_forgets [OF r v] show ?thesis by simp
qed

subsection \<open>Retention of proofs\<close>

text \<open>The primary and the unique key of the table.\<close>

definition proofs_ok :: "proof_db \<Rightarrow> bool" where
  "proofs_ok db \<longleftrightarrow> distinct (map fst (content_proofs db)) \<and> distinct (map (\<lambda>(i, x). key_of x) (content_proofs db))"

lemma fold_max_ge: "x \<in> set xs \<or> x \<le> a \<Longrightarrow> x \<le> fold max xs (a :: nat)"
  by (induction xs arbitrary: a) (auto simp: max_def)

lemma next_id_fresh: "next_id t \<notin> fst ` set t"
proof
  assume "next_id t \<in> fst ` set t"
  then have "next_id t \<in> set (map fst t)" by simp
  then have "next_id t \<le> fold max (map fst t) 0" using fold_max_ge by blast
  then show False by (simp add: next_id_def)
qed

lemma upsert_row_ok:
  assumes "distinct (map fst t)" and "distinct (map (\<lambda>(i, x). key_of x) t)"
  shows "distinct (map fst (upsert_row t e))" and "distinct (map (\<lambda>(i, x). key_of x) (upsert_row t e))"
proof -
  let ?f = "\<lambda>(i, x). if key_of x = key_of e
             then (i, x\<lparr>Digest_of := Digest_of e, ExpiresAt := ExpiresAt e, ObservedAt := ObservedAt e\<rparr>) else (i, x)"
  have keep: "map fst (map ?f t) = map fst t" "map (\<lambda>(i, x). key_of x) (map ?f t) = map (\<lambda>(i, x). key_of x) t"
    by (auto simp: key_of_def)
  have cases: "upsert_row t e = map ?f t \<or>
      \<not> list_ex (\<lambda>(i, x). key_of x = key_of e) t \<and> upsert_row t e = t @ [(next_id t, e)]"
    unfolding upsert_row_def by meson
  then show "distinct (map fst (upsert_row t e))"
  proof
    assume "\<not> list_ex (\<lambda>(i, x). key_of x = key_of e) t \<and> upsert_row t e = t @ [(next_id t, e)]"
    then show ?thesis using assms(1) next_id_fresh [of t] by simp
  qed (use assms(1) keep(1) in metis)
  from cases show "distinct (map (\<lambda>(i, x). key_of x) (upsert_row t e))"
  proof
    assume "\<not> list_ex (\<lambda>(i, x). key_of x = key_of e) t \<and> upsert_row t e = t @ [(next_id t, e)]"
    then show ?thesis using assms(2) by (auto simp: list_ex_iff)
  qed (use assms(2) keep(2) in metis)
qed

lemma upsert_row_has: "\<exists>i. (i, e) \<in> set (upsert_row t e)"
proof (cases "list_ex (\<lambda>(i, x). key_of x = key_of e) t")
  case True
  then obtain i x where x: "(i, x) \<in> set t" "key_of x = key_of e" by (auto simp: list_ex_iff)
  then have "(i, x\<lparr>Digest_of := Digest_of e, ExpiresAt := ExpiresAt e, ObservedAt := ObservedAt e\<rparr>) \<in> set (upsert_row t e)"
    using True by (force simp: upsert_row_def)
  moreover have "x\<lparr>Digest_of := Digest_of e, ExpiresAt := ExpiresAt e, ObservedAt := ObservedAt e\<rparr> = e"
    using x(2) by (auto simp: key_of_def)
  ultimately show ?thesis by metis
qed (auto simp: upsert_row_def)

lemma upsert_row_other: "key_of x \<noteq> key_of e \<Longrightarrow> (i, x) \<in> set t \<Longrightarrow> (i, x) \<in> set (upsert_row t e)"
  by (force simp: upsert_row_def)

text \<open>C22: recording keeps the table well-formed and bounded. After \<open>UpsertContentProof\<close> the ids and the keys are
  unique, the representation has at most \<open>max\<close> assertions, each row is the recorded assertion or was
  there before, other representations are untouched, and the assertion just recorded is there if
  it is newer than every other assertion of its representation.\<close>

theorem proof_retention:
  assumes "proofs_ok db" and "UpsertContentProof db e mx = Inr db'" and "0 < mx"
  shows "proofs_ok db' \<and>
    length (filter (\<lambda>(i, x). RepresentationID x = RepresentationID e) (content_proofs db')) \<le> nat mx \<and>
    (\<forall>(i, x) \<in> set (content_proofs db'). x = e \<or> (i, x) \<in> set (content_proofs db)) \<and>
    (\<forall>(i, x) \<in> set (content_proofs db). RepresentationID x \<noteq> RepresentationID e \<longrightarrow> (i, x) \<in> set (content_proofs db')) \<and>
    ((\<forall>(i, x) \<in> set (content_proofs db). RepresentationID x = RepresentationID e \<and> key_of x \<noteq> key_of e \<longrightarrow>
        stamp_less (ObservedAt x) (ObservedAt e)) \<longrightarrow> (\<exists>i. (i, e) \<in> set (content_proofs db')))"
proof -
  let ?sel = "\<lambda>x. RepresentationID x = RepresentationID e"
  let ?t = "upsert_row (content_proofs db) e"
  have t': "content_proofs db' = keep_newest ObservedAt ?sel mx ?t"
    using assms(2) by (auto simp: UpsertContentProof_def)
  have ok: "distinct (map fst ?t)" "distinct (map (\<lambda>(i, x). key_of x) ?t)"
    using assms(1) upsert_row_ok by (simp_all add: proofs_ok_def)
  have sub: "(i, x) \<in> set (content_proofs db') \<Longrightarrow> (i, x) \<in> set ?t" for i x
    using set_keep_newest t' by fastforce
  have "proofs_ok db'"
    using ok unfolding proofs_ok_def t' by (simp add: keep_newest_def Let_def distinct_map_filter)
  moreover have "length (filter (\<lambda>(i, x). ?sel x) (content_proofs db')) \<le> nat mx"
    unfolding t' using ok(1) assms(3) by (intro keep_newest_bound) auto
  moreover have "x = e \<or> (i, x) \<in> set (content_proofs db)" if "(i, x) \<in> set (content_proofs db')" for i x
    using upsert_row_cases sub that by blast
  moreover have "(i, x) \<in> set (content_proofs db')" if "(i, x) \<in> set (content_proofs db)" "\<not> ?sel x" for i x
  proof -
    have "key_of x \<noteq> key_of e" using that(2) by (auto simp: key_of_def)
    with that show ?thesis unfolding t' by (simp add: keep_newest_other upsert_row_other)
  qed
  moreover have "\<exists>i. (i, e) \<in> set (content_proofs db')"
    if newer: "\<And>i x. (i, x) \<in> set (content_proofs db) \<Longrightarrow> ?sel x \<Longrightarrow> key_of x \<noteq> key_of e \<Longrightarrow>
        stamp_less (ObservedAt x) (ObservedAt e)"
  proof -
    obtain i where i: "(i, e) \<in> set ?t" using upsert_row_has by blast
    have "stamp_less (ObservedAt x) (ObservedAt e)" if "(j, x) \<in> set ?t" "?sel x" "(j, x) \<noteq> (i, e)" for j x
    proof -
      have "key_of x \<noteq> key_of e"
        using inj_onD [OF _ _ that(1) i, of "\<lambda>(i, x). key_of x"] ok(2) that(3) by (auto simp: distinct_map)
      then have "(j, x) \<in> set (content_proofs db)" using upsert_row_cases [OF that(1)] by auto
      with newer that(2) \<open>key_of x \<noteq> key_of e\<close> show ?thesis by blast
    qed
    then show ?thesis
      using keep_newest_latest [OF i _ assms(3), where sel = ?sel] unfolding t' by blast
  qed
  ultimately show ?thesis by blast
qed

theorem proof_retention_witness:
  "\<exists>db'. UpsertContentProof demo_db ((demo_evidence ''a'' CHR ''z'')\<lparr>Offset := 4, ObservedAt := 2 * Second\<rparr>) 1 = Inr db' \<and>
     length (filter (\<lambda>(i, x). RepresentationID x = ''a'') (content_proofs db')) \<le> 1 \<and>
     (\<exists>i. (i, (demo_evidence ''a'' CHR ''z'')\<lparr>Offset := 4, ObservedAt := 2 * Second\<rparr>) \<in> set (content_proofs db'))"
proof -
  let ?e = "(demo_evidence ''a'' CHR ''z'')\<lparr>Offset := 4, ObservedAt := 2 * Second\<rparr>"
  obtain db' where u: "UpsertContentProof demo_db ?e 1 = Inr db'"
    by (simp add: UpsertContentProof_def)
  have ok: "proofs_ok demo_db"
    by (simp add: proofs_ok_def demo_db_def demo_evidence_def key_of_def)
  have "\<forall>(i, x) \<in> set (content_proofs demo_db). RepresentationID x = RepresentationID ?e \<and> key_of x \<noteq> key_of ?e \<longrightarrow>
      stamp_less (ObservedAt x) (ObservedAt ?e)"
    by (simp add: demo_db_def demo_evidence_def stamp_less_def unix_def Second_def)
  then show ?thesis
    using proof_retention [OF ok u] u by (auto simp: demo_evidence_def)
qed

end
