(* ===== verification/Convergence.thy ===== *)
theory Convergence
  imports ProofStore
begin

section \<open>Convergence of representations\<close>

text \<open>
  Models \<open>internal/contentproof/convergence.go\<close> on the store of \<open>ProofStore\<close>. The Go interface
  \<open>ConvergenceRepository\<close> is a record of functions; the fields of \<open>Converger\<close> are its limits. Shows
  that merging verified spans keeps exactly the bytes they cover, that the tables keep their
  invariant, and that they implement a union of equivalence classes: two representations are joined
  only when every byte was verified, and then exactly their classes are united.
\<close>

record 'r ConvergenceRepository =
  ObserveConvergence :: "'r \<Rightarrow> LaneCandidate \<Rightarrow> LaneCandidate \<Rightarrow> VerifiedSpan \<Rightarrow> string \<Rightarrow> instant \<Rightarrow> int \<Rightarrow> int \<Rightarrow>
    (go_error, string \<times> 'r) result"
  ListRoutes :: "'r \<Rightarrow> string \<Rightarrow> int \<Rightarrow> (go_error, LaneCandidate list) result"
  ResolveCanonical :: "'r \<Rightarrow> string \<Rightarrow> (go_error, string \<times> bool) result"

definition DefaultMaxPendingSpansPerPair :: int where "DefaultMaxPendingSpansPerPair = 4096"

record 'r Converger =
  cv_repo :: "'r ConvergenceRepository"
  maxRoutes :: int
  maxSpans :: int

definition NewConverger :: "'r ConvergenceRepository \<Rightarrow> 'r Converger" where
  "NewConverger repo = \<lparr>cv_repo = repo, maxRoutes = DefaultMaxRoutesPerRepresentation, maxSpans = DefaultMaxPendingSpansPerPair\<rparr>"

definition CanonicalRepresentationID :: "'r Converger \<Rightarrow> 'r \<Rightarrow> string \<Rightarrow> (go_error, string \<times> bool) result" where
  "CanonicalRepresentationID c r rid =
     (if \<not> validOpaqueID rid then Inl (opaqueError ''representation'') else ResolveCanonical (cv_repo c) r rid)"

definition canonicalID :: "(string \<Rightarrow> string) \<Rightarrow> string \<Rightarrow> string \<Rightarrow> string" where
  "canonicalID sha left right =
     (let ids = sortStable bytes_less [left, right] in
      ''canonical:'' @ EncodeToString (sha (''darkharrbor/canonical-representation/v1'' @ [CHR 0x00] @ ids ! 0 @ [CHR 0x00] @ ids ! 1)))"

definition ObserveVerified :: "unicode \<Rightarrow> (string \<Rightarrow> string) \<Rightarrow> 'r Converger \<Rightarrow> 'r \<Rightarrow> go_error option \<Rightarrow> instant \<Rightarrow>
  LaneCandidate \<Rightarrow> LaneCandidate \<Rightarrow> VerifiedSpan \<Rightarrow> Decision \<Rightarrow> (go_error, string \<times> 'r) result" where
  "ObserveVerified u sha c r cx now left right span decision =
     (case cx of
        Some e \<Rightarrow> Inl e
      | None \<Rightarrow>
          if Relation_of decision \<noteq> RelationProven \<or> d_offset decision \<noteq> v_offset span \<or> d_length decision \<noteq> v_length span
          then Inl (Plain ''contentproof: convergence span is not proven'')
          else case validateLaneCandidate u left of
            Some e \<Rightarrow> Inl e
          | None \<Rightarrow>
              (case validateLaneCandidate u right of
                 Some e \<Rightarrow> Inl e
               | None \<Rightarrow>
                   if c_rep left = c_rep right \<or> ReleaseKey_of left \<noteq> ReleaseKey_of right \<or> Size left \<noteq> Size right
                   then Inl (Plain ''contentproof: convergence candidates disagree'')
                   else if v_offset span < 0 \<or> v_length span \<le> 0 \<or> v_offset span > Size left \<or>
                           v_length span > Size left - v_offset span
                   then Inl (Plain ''contentproof: invalid convergence span'')
                   else ObserveConvergence (cv_repo c) r left right span (canonicalID sha (c_rep left) (c_rep right)) now
                          (maxRoutes c) (maxSpans c)))"

fun firstInvalid :: "unicode \<Rightarrow> LaneCandidate list \<Rightarrow> go_error option" where
  "firstInvalid u [] = None"
| "firstInvalid u (x # xs) = (case validateLaneCandidate u x of Some e \<Rightarrow> Some e | None \<Rightarrow> firstInvalid u xs)"

definition Routes :: "unicode \<Rightarrow> 'r Converger \<Rightarrow> 'r \<Rightarrow> string \<Rightarrow> (go_error, LaneCandidate list) result" where
  "Routes u c r rid =
     (if \<not> validOpaqueID rid then Inl (opaqueError ''representation'')
      else case ListRoutes (cv_repo c) r rid (maxRoutes c) of
        Inl e \<Rightarrow> Inl e
      | Inr rts \<Rightarrow> (case firstInvalid u rts of Some e \<Rightarrow> Inl e | None \<Rightarrow> Inr rts))"

definition store_convergence :: "proof_db ConvergenceRepository" where
  "store_convergence = \<lparr>ObserveConvergence = ObserveRepresentationConvergence, ListRoutes = ListRepresentationRoutes,
     ResolveCanonical = ResolveRepresentationCanonical\<rparr>"

subsection \<open>Merging spans\<close>

definition bytes_of :: "VerifiedSpan \<Rightarrow> int set" where
  "bytes_of s = {v_offset s..<v_offset s + v_length s}"

definition covered :: "VerifiedSpan list \<Rightarrow> int set" where
  "covered ss = \<Union> (bytes_of ` set ss)"

definition positive :: "VerifiedSpan list \<Rightarrow> bool" where
  "positive ss \<longleftrightarrow> list_all (\<lambda>s. 0 < v_length s) ss"

text \<open>Sorted, with a gap between neighbours.\<close>

definition apart :: "VerifiedSpan list \<Rightarrow> bool" where
  "apart ss \<longleftrightarrow> sorted_wrt (\<lambda>a b. v_offset a + v_length a < v_offset b) ss"

lemma covered_simps [simp]:
  "covered [] = {}" "covered (s # ss) = bytes_of s \<union> covered ss" "covered (xs @ ys) = covered xs \<union> covered ys"
  by (auto simp: covered_def)

lemma bytes_of_join:
  assumes "v_offset l \<le> v_offset s" and "v_offset s \<le> v_offset l + v_length l"
    and "v_offset l + v_length l < v_offset s + v_length s"
  shows "bytes_of (l\<lparr>v_length := v_offset s + v_length s - v_offset l\<rparr>) = bytes_of l \<union> bytes_of s"
  using assms by (auto simp: bytes_of_def)

lemma mergeLoop_correct:
  assumes "sorted_wrt (\<lambda>a b. v_offset a \<le> v_offset b) ss" and "positive ss"
    and "apart merged" and "positive merged"
    and "merged \<noteq> [] \<Longrightarrow> \<forall>s \<in> set ss. v_offset (last merged) \<le> v_offset s"
  shows "covered (mergeLoop merged ss) = covered merged \<union> covered ss \<and> apart (mergeLoop merged ss) \<and> positive (mergeLoop merged ss)"
  using assms
proof (induction merged ss rule: mergeLoop.induct)
  case (1 merged)
  then show ?case by simp
next
  case (2 merged s ss)
  show ?case
  proof (cases "merged = []")
    case True
    with 2 show ?thesis by (simp add: apart_def positive_def Un_assoc)
  next
    case False
    then obtain bm l where m: "merged = bm @ [l]" by (metis rev_exhaust)
    have pre: "\<forall>a \<in> set bm. v_offset a + v_length a < v_offset l" "apart bm" "positive bm" "0 < v_length l"
      "v_offset l \<le> v_offset s" "\<forall>x \<in> set ss. v_offset s \<le> v_offset x" "\<forall>x \<in> set ss. v_offset l \<le> v_offset x"
      "0 < v_length s" "positive ss" "sorted_wrt (\<lambda>a b. v_offset a \<le> v_offset b) ss"
      using "2.prems" m by (auto simp: apart_def sorted_wrt_append positive_def)
    consider (gap) "v_offset s > v_offset l + v_length l"
      | (grow) "\<not> v_offset s > v_offset l + v_length l" "v_offset s + v_length s > v_offset l + v_length l"
      | (inside) "\<not> v_offset s > v_offset l + v_length l" "\<not> v_offset s + v_length s > v_offset l + v_length l"
      by blast
    then show ?thesis
    proof cases
      case gap
      have "apart (merged @ [s])" "positive (merged @ [s])"
        using pre m gap by (auto simp: apart_def sorted_wrt_append positive_def)
      with 2(2) [OF False refl refl refl] gap pre m show ?thesis by (auto simp: Let_def)
    next
      case grow
      let ?l = "l\<lparr>v_length := v_offset s + v_length s - v_offset l\<rparr>"
      have "apart (bm @ [?l])" "positive (bm @ [?l])"
        using pre grow by (auto simp: apart_def sorted_wrt_append positive_def)
      moreover have "bytes_of ?l = bytes_of l \<union> bytes_of s"
        using pre grow by (intro bytes_of_join) auto
      ultimately show ?thesis
        using 2(3) [OF False refl refl refl] grow pre m by (auto simp: Let_def)
    next
      case inside
      then have "bytes_of s \<subseteq> bytes_of l" using pre by (auto simp: bytes_of_def)
      with 2(4) [OF False refl refl refl] inside pre m "2.prems" show ?thesis by (auto simp: Let_def)
    qed
  qed
qed

lemma mergeVerifiedSpans_correct:
  assumes "positive ss"
  shows "covered (mergeVerifiedSpans ss) = covered ss" and "apart (mergeVerifiedSpans ss)"
    and "positive (mergeVerifiedSpans ss)"
proof -
  let ?s = "sortStable (\<lambda>a b. v_offset a < v_offset b) ss"
  have "sorted_wrt (\<lambda>a b. \<not> v_offset b < v_offset a) ?s"
    by (rule sortStable_sorted) auto
  then have "sorted_wrt (\<lambda>a b. v_offset a \<le> v_offset b) ?s" by (simp add: not_less)
  moreover have "positive ?s" using assms by (simp add: positive_def list_all_iff)
  ultimately have "covered (mergeLoop [] ?s) = covered [] \<union> covered ?s \<and> apart (mergeLoop [] ?s) \<and> positive (mergeLoop [] ?s)"
    by (intro mergeLoop_correct) (auto simp: apart_def positive_def)
  moreover have "covered ?s = covered ss" by (simp add: covered_def)
  ultimately show "covered (mergeVerifiedSpans ss) = covered ss" "apart (mergeVerifiedSpans ss)" "positive (mergeVerifiedSpans ss)"
    by (simp_all add: mergeVerifiedSpans_def)
qed

text \<open>A list in that form is one whole span exactly if it covers the whole.\<close>

lemma whole_iff_covered:
  assumes "apart ss" and "positive ss" and "0 < n"
  shows "length ss = 1 \<and> v_offset (hd ss) = 0 \<and> v_length (hd ss) = n \<longleftrightarrow> covered ss = {0..<n}"
proof
  assume "length ss = 1 \<and> v_offset (hd ss) = 0 \<and> v_length (hd ss) = n"
  then show "covered ss = {0..<n}" by (cases ss) (auto simp: bytes_of_def)
next
  assume c: "covered ss = {0..<n}"
  with assms(3) obtain a rest where ss: "ss = a # rest" by (cases ss) (auto simp: set_eq_iff)
  have "rest = []"
  proof (rule ccontr)
    assume "rest \<noteq> []"
    then obtain b rest' where r: "rest = b # rest'" by (cases rest) auto
    have far: "v_offset a + v_length a < v_offset x" "0 < v_length x" if "x \<in> set rest" for x
      using assms(1,2) that ss by (auto simp: apart_def positive_def list_all_iff)
    let ?e = "v_offset a + v_length a"
    have "v_offset b \<in> covered ss" and "v_offset a \<in> covered ss"
      using far [of b] assms(2) by (auto simp: ss r bytes_of_def positive_def)
    with c far [of b] assms(2) have "?e \<in> covered ss" by (auto simp: r ss positive_def)
    moreover have "?e \<notin> covered ss" using far by (force simp: ss covered_def bytes_of_def)
    ultimately show False by contradiction
  qed
  with c ss have "bytes_of a = {0..<n}" by simp
  moreover have "0 < v_length a" using assms(2) ss by (simp add: positive_def)
  ultimately have "v_offset a = 0 \<and> v_length a = n"
    using assms(3) atLeastLessThan_eq_iff [of "v_offset a" "v_offset a + v_length a" 0 n] by (simp add: bytes_of_def)
  with ss \<open>rest = []\<close> show "length ss = 1 \<and> v_offset (hd ss) = 0 \<and> v_length (hd ss) = n" by simp
qed

subsection \<open>Groups of representations\<close>

definition canon :: "proof_db \<Rightarrow> string \<Rightarrow> string option" where
  "canon db = map_of (map (\<lambda>a. (al_rep a, al_canonical a)) (alias_rows db))"

definition same_group :: "proof_db \<Rightarrow> string \<Rightarrow> string \<Rightarrow> bool" where
  "same_group db a b \<longleftrightarrow> a = b \<or> (canon db a \<noteq> None \<and> canon db a = canon db b)"

text \<open>Routes by representation and sizes by group, as maps.\<close>

definition rts :: "proof_db \<Rightarrow> string \<Rightarrow> (string \<times> LaneCandidate) option" where
  "rts db = map_of (map (\<lambda>x. (c_rep (ro_route x), (ro_canonical x, ro_route x))) (routes db))"

definition gsize :: "proof_db \<Rightarrow> string \<Rightarrow> int option" where
  "gsize db = map_of (map (\<lambda>k. (cr_id k, cr_size k)) (canonicals db))"

text \<open>
  The invariant of the tables: ids are unique, a representation has a route exactly if it has an
  alias, both name the same existing group, and the route has the size of the group; a group has at
  most \<open>n\<close> routes. Spans are stored for ordered pairs and are not empty.
\<close>

definition linked :: "proof_db \<Rightarrow> bool" where
  "linked db \<longleftrightarrow> (\<forall>r. case rts db r of
       None \<Rightarrow> canon db r = None
     | Some (g, x) \<Rightarrow> canon db r = Some g \<and> c_rep x = r \<and> g \<noteq> '''' \<and> gsize db g = Some (Size x))"

definition unique_ids :: "proof_db \<Rightarrow> bool" where
  "unique_ids db \<longleftrightarrow> distinct (map al_rep (alias_rows db)) \<and> distinct (map cr_id (canonicals db)) \<and>
     distinct (map (\<lambda>x. c_rep (ro_route x)) (routes db))"

definition conv_inv :: "int \<Rightarrow> proof_db \<Rightarrow> bool" where
  "conv_inv n db \<longleftrightarrow> unique_ids db \<and> linked db \<and> (\<forall>c. int (route_count db [c]) \<le> n) \<and>
     (\<forall>x \<in> set (spans db). bytes_less (sp_left x) (sp_right x) \<and> 0 \<le> v_offset (sp_span x) \<and> 0 < v_length (sp_span x))"

lemma same_group_refl [simp]: "same_group db a a"
  by (simp add: same_group_def)

lemma same_group_sym: "same_group db a b \<Longrightarrow> same_group db b a"
  unfolding same_group_def by metis

lemma same_group_trans: "same_group db a b \<Longrightarrow> same_group db b d \<Longrightarrow> same_group db a d"
  unfolding same_group_def by metis

lemma canon_find: "canon db r = map_option al_canonical (List.find (\<lambda>a. al_rep a = r) (alias_rows db))"
proof -
  have "map_of (map (\<lambda>a. (al_rep a, al_canonical a)) xs) r = map_option al_canonical (List.find (\<lambda>a. al_rep a = r) xs)" for xs
    by (induction xs) auto
  then show ?thesis by (simp add: canon_def)
qed

lemma aliasCanonical_canon: "aliasCanonical db r = (case canon db r of None \<Rightarrow> '''' | Some c \<Rightarrow> c)"
  by (simp add: aliasCanonical_def canon_find split: option.splits)

lemma canon_cong: "alias_rows db' = alias_rows db \<Longrightarrow> canon db' = canon db"
  by (simp add: canon_def)

lemma canon_upsertAlias: "canon (upsertAlias db c r at) = (canon db)(r \<mapsto> c)"
proof
  fix q
  have upd: "map_of (map (\<lambda>a. (al_rep a, al_canonical a))
        (map (\<lambda>a. if al_rep a = r then a\<lparr>al_canonical := c, al_verified := at\<rparr> else a) xs)) q =
      (if q = r \<and> list_ex (\<lambda>a. al_rep a = r) xs then Some c else map_of (map (\<lambda>a. (al_rep a, al_canonical a)) xs) q)" for xs q
    by (induction xs) auto
  have none: "\<not> list_ex (\<lambda>a. al_rep a = r) xs \<Longrightarrow> map_of (map (\<lambda>a. (al_rep a, al_canonical a)) xs) r = None" for xs
    by (induction xs) auto
  show "canon (upsertAlias db c r at) q = ((canon db)(r \<mapsto> c)) q"
    using none [of "alias_rows db"] 
    by (auto simp: canon_def upsertAlias_def upd map_add_def simp del: map_map split: option.splits)
qed

lemma canon_mergeGroups:
  assumes "mergeGroups db w l n = Inr db'"
  shows "canon db' r = map_option (\<lambda>c. if c = l then w else c) (canon db r)"
proof -
  have "map_of (map (\<lambda>a. (al_rep a, al_canonical a)) (map (\<lambda>a. if al_canonical a = l then a\<lparr>al_canonical := w\<rparr> else a) xs)) r =
      map_option (\<lambda>c. if c = l then w else c) (map_of (map (\<lambda>a. (al_rep a, al_canonical a)) xs) r)" for xs
    by (induction xs) auto
  with assms show ?thesis by (auto simp: mergeGroups_def canon_def simp del: map_map split: if_splits)
qed

lemma canon_addRoute:
  assumes "addRoute c at x db = Inr db'"
  shows "canon db' = (canon db)(c_rep x \<mapsto> c)"
proof -
  have "alias_rows db' = alias_rows (upsertAlias db c (c_rep x) at)"
    using assms by (auto simp: addRoute_def upsertRepresentationRoute_def split: option.splits if_splits)
  then show ?thesis using canon_upsertAlias canon_cong by metis
qed

subsection \<open>Joining two groups\<close>

text \<open>What \<open>convergeGroups\<close> does to the groups: the two representations and everything that was with
  either of them have the returned group, and no other representation had or gets it.\<close>

lemma chooseGroup_cases:
  fixes left right
  defines "l \<equiv> c_rep left" and "r \<equiv> c_rep right"
  assumes "chooseGroup db left right proposed at n = Inr (c, db1)" and named: "\<And>r. canon db r \<noteq> Some ''''"
  obtains (new) "canon db l = None" "canon db r = None" "c = proposed" "\<not> list_ex (\<lambda>k. cr_id k = proposed) (canonicals db)"
      "db1 = db\<lparr>canonicals := canonicals db @ [\<lparr>cr_id = proposed, cr_size = Size left, cr_created = at, cr_updated = at\<rparr>]\<rparr>"
    | (one) "db1 = db" "(if canon db l = None then canon db r else canon db l) = Some c"
      "canon db l = None \<or> canon db r = None \<or> canon db l = canon db r"
    | (two) lose where "mergeGroups db c lose n = Inr db1" "c \<noteq> lose" "{canon db l, canon db r} = {Some c, Some lose}"
proof -
  have al: "aliasCanonical db q = '''' \<longleftrightarrow> canon db q = None" "canon db q = Some k \<Longrightarrow> aliasCanonical db q = k" for q k
    using named [of q] by (auto simp: aliasCanonical_canon split: option.splits)
  show thesis
  proof (cases "canon db l"; cases "canon db r")
    assume "canon db l = None" "canon db r = None"
    with assms(3) show thesis
      by (intro new) (auto simp: l_def r_def chooseGroup_def al newGroup_def split: if_splits sum.splits)
  next
    fix k assume k: "canon db l = None" "canon db r = Some k"
    then have "chooseGroup db left right proposed at n = Inr (k, db)"
      using named [of r] by (auto simp: l_def r_def chooseGroup_def aliasCanonical_canon)
    with k assms(3) show thesis by (intro one) auto
  next
    fix k assume k: "canon db l = Some k" "canon db r = None"
    then have "chooseGroup db left right proposed at n = Inr (k, db)"
      using named [of l] by (auto simp: l_def r_def chooseGroup_def aliasCanonical_canon)
    with k assms(3) show thesis by (intro one) auto
  next
    fix k k' assume k: "canon db l = Some k" "canon db r = Some k'"
    then have ne: "k \<noteq> ''''" "k' \<noteq> ''''" using named by metis+
    show thesis
    proof (cases "k = k'")
      case True
      with k ne have "chooseGroup db left right proposed at n = Inr (k, db)"
        by (simp add: l_def r_def chooseGroup_def aliasCanonical_canon)
      with k True assms(3) show thesis by (intro one) auto
    next
      case False
      let ?w = "if bytes_less k' k then k' else k" and ?l = "if bytes_less k' k then k else k'"
      have "chooseGroup db left right proposed at n = (case mergeGroups db ?w ?l n of Inl e \<Rightarrow> Inl e | Inr db1 \<Rightarrow> Inr (?w, db1))"
        using ne False k by (simp add: l_def r_def chooseGroup_def al(2) Let_def)
      with assms(3) have "c = ?w" "mergeGroups db ?w ?l n = Inr db1" by (auto split: sum.splits)
      with False k show thesis by (intro two [of ?l]) auto
    qed
  qed
qed

lemma canon_chooseGroup:
  assumes "chooseGroup db left right proposed at n = Inr (c, db1)"
    and named: "\<And>r. canon db r \<noteq> Some ''''" and known: "\<And>r k. canon db r = Some k \<Longrightarrow> k \<in> cr_id ` set (canonicals db)"
  shows "canon db1 r = Some c \<longleftrightarrow> canon db r \<noteq> None \<and> (canon db r = canon db (c_rep left) \<or> canon db r = canon db (c_rep right))"
    and "canon db1 r = Some c \<or> canon db1 r = canon db r"
proof -
  have "(canon db1 r = Some c \<longleftrightarrow> canon db r \<noteq> None \<and> (canon db r = canon db (c_rep left) \<or> canon db r = canon db (c_rep right))) \<and>
      (canon db1 r = Some c \<or> canon db1 r = canon db r)"
    using assms(1) named
  proof (cases rule: chooseGroup_cases)
    case new
    then have "canon db1 = canon db" by (intro canon_cong) simp
    with new known [of r] show ?thesis by (auto simp: list_ex_iff)
  next
    case one
    then show ?thesis by (auto split: if_splits)
  next
    case (two lose)
    then have eq: "canon db1 r = map_option (\<lambda>x. if x = lose then c else x) (canon db r)"
      by (intro canon_mergeGroups)
    have "canon db r \<in> {Some c, Some lose} \<longleftrightarrow> canon db r = canon db (c_rep left) \<or> canon db r = canon db (c_rep right)"
      by (subst two(3) [symmetric]) auto
    with two(2) show ?thesis unfolding eq by (cases "canon db r") auto
  qed
  then show "canon db1 r = Some c \<longleftrightarrow> canon db r \<noteq> None \<and> (canon db r = canon db (c_rep left) \<or> canon db r = canon db (c_rep right))"
    and "canon db1 r = Some c \<or> canon db1 r = canon db r" by blast+
qed

lemma convergeGroupsD:
  assumes "convergeGroups db left right proposed at n = Inr (c, db')"
  obtains db1 db2 db3 where "chooseGroup db left right proposed at n = Inr (c, db1)"
    and "addRoute c at left db1 = Inr db2" and "addRoute c at right db2 = Inr db3"
    and "int (route_count db3 [c]) \<le> n"
    and "db' = db3\<lparr>canonicals := map (\<lambda>k. if cr_id k = c then k\<lparr>cr_updated := at\<rparr> else k) (canonicals db3)\<rparr>"
  using assms unfolding convergeGroups_def by (auto split: sum.splits prod.splits if_splits)

lemma canon_convergeGroups:
  assumes "convergeGroups db left right proposed at n = Inr (c, db')"
    and named: "\<And>r. canon db r \<noteq> Some ''''" and known: "\<And>r k. canon db r = Some k \<Longrightarrow> k \<in> cr_id ` set (canonicals db)"
  shows "canon db' (c_rep left) = Some c" and "canon db' (c_rep right) = Some c"
    and "same_group db' a b \<longleftrightarrow> same_group db a b \<or>
      ((same_group db a (c_rep left) \<or> same_group db a (c_rep right)) \<and>
       (same_group db b (c_rep left) \<or> same_group db b (c_rep right)))"
proof -
  obtain db1 db2 db3 where ch: "chooseGroup db left right proposed at n = Inr (c, db1)"
    and add: "addRoute c at left db1 = Inr db2" "addRoute c at right db2 = Inr db3"
    and db': "alias_rows db' = alias_rows db3"
    using assms(1) by (rule convergeGroupsD) auto
  have c': "canon db' = (canon db1)(c_rep left \<mapsto> c, c_rep right \<mapsto> c)"
    using canon_addRoute [OF add(1)] canon_addRoute [OF add(2)] canon_cong [OF db'] by simp
  then show "canon db' (c_rep left) = Some c" "canon db' (c_rep right) = Some c" by auto
  let ?J = "\<lambda>r. same_group db r (c_rep left) \<or> same_group db r (c_rep right)"
  have cg: "canon db1 r = Some c \<longleftrightarrow> canon db r \<noteq> None \<and> (canon db r = canon db (c_rep left) \<or> canon db r = canon db (c_rep right))"
    "canon db1 r = Some c \<or> canon db1 r = canon db r" for r
    by (rule canon_chooseGroup [OF ch]; use named known in blast)+
  have J: "canon db' r = Some c \<longleftrightarrow> ?J r" and notJ: "\<not> ?J r \<Longrightarrow> canon db' r = canon db r" for r
    using cg(1) [of r] cg(2) [of r] unfolding c' same_group_def by auto
  show "same_group db' a b \<longleftrightarrow> same_group db a b \<or> (?J a \<and> ?J b)"
  proof (cases "?J a \<or> ?J b")
    case True
    show ?thesis
    proof (cases "?J a \<and> ?J b")
      case both: True
      with J have "canon db' a = Some c" "canon db' b = Some c" by blast+
      with both show ?thesis by (simp add: same_group_def)
    next
      case False
      have "\<not> same_group db a b"
        using True False same_group_sym same_group_trans by metis
      moreover have "a \<noteq> b" "canon db' a \<noteq> canon db' b"
        using True False J by metis+
      ultimately show ?thesis using False by (simp add: same_group_def)
    qed
  next
    case False
    then show ?thesis using notJ [of a] notJ [of b] by (auto simp: same_group_def)
  qed
qed

subsection \<open>The invariant is kept\<close>

lemma linkedD:
  assumes "linked db" and "canon db r = Some g"
  shows "\<exists>x. rts db r = Some (g, x) \<and> c_rep x = r \<and> g \<noteq> '''' \<and> gsize db g = Some (Size x)"
  using assms unfolding linked_def by (cases "rts db r") (auto split: option.splits dest: spec [of _ r])

lemma gsize_find: "gsize db c = map_option cr_size (List.find (\<lambda>k. cr_id k = c) (canonicals db))"
proof -
  have "map_of (map (\<lambda>k. (cr_id k, cr_size k)) xs) c = map_option cr_size (List.find (\<lambda>k. cr_id k = c) xs)" for xs
    by (induction xs) auto
  then show ?thesis by (simp add: gsize_def)
qed

lemma rts_find: "rts db r = map_option (\<lambda>x. (ro_canonical x, ro_route x)) (List.find (\<lambda>x. c_rep (ro_route x) = r) (routes db))"
proof -
  have "map_of (map (\<lambda>x. (c_rep (ro_route x), (ro_canonical x, ro_route x))) xs) r =
      map_option (\<lambda>x. (ro_canonical x, ro_route x)) (List.find (\<lambda>x. c_rep (ro_route x) = r) xs)" for xs
    by (induction xs) auto
  then show ?thesis by (simp add: rts_def)
qed

lemma rts_updateRoute:
  "map_of (map (\<lambda>x. (c_rep (ro_route x), (ro_canonical x, ro_route x)))
     (map (\<lambda>x. if c_rep (ro_route x) = r then x\<lparr>ro_canonical := c, ro_verified := at\<rparr> else x) xs)) q =
   (if q = r then map_option (\<lambda>(g, x). (c, x)) (map_of (map (\<lambda>x. (c_rep (ro_route x), (ro_canonical x, ro_route x))) xs) q)
    else map_of (map (\<lambda>x. (c_rep (ro_route x), (ro_canonical x, ro_route x))) xs) q)"
  by (induction xs) auto

text \<open>Adding a route: it must have the group's size and, if the representation is known, be the known route.\<close>

lemma addRoute_maps:
  assumes "addRoute c at x db = Inr db'"
  shows "gsize db c = Some (Size x)" and "rts db (c_rep x) = None \<or> (\<exists>g. rts db (c_rep x) = Some (g, x))"
    and "rts db' = (rts db)(c_rep x \<mapsto> (c, x))" and "gsize db' = gsize db" and "spans db' = spans db"
proof -
  let ?a = "upsertAlias db c (c_rep x) at"
  have same: "routes ?a = routes db" "canonicals ?a = canonicals db" "spans ?a = spans db"
    by (simp_all add: upsertAlias_def)
  show "gsize db c = Some (Size x)"
    using assms by (auto simp: addRoute_def ensureCanonicalSize_def gsize_find split: option.splits if_splits)
  have up: "upsertRepresentationRoute ?a c x at = Inr db'"
    using assms by (auto simp: addRoute_def split: option.splits)
  then show "gsize db' = gsize db" "spans db' = spans db"
    using same by (auto simp: upsertRepresentationRoute_def gsize_def split: option.splits if_splits)
  have "(rts db (c_rep x) = None \<and> routes db' = routes db @ [\<lparr>ro_canonical = c, ro_route = x, ro_verified = at\<rparr>]) \<or>
      ((\<exists>g. rts db (c_rep x) = Some (g, x)) \<and> routes db' = map (\<lambda>y. if c_rep (ro_route y) = c_rep x
           then y\<lparr>ro_canonical := c, ro_verified := at\<rparr> else y) (routes db))"
    using up same by (auto simp: upsertRepresentationRoute_def rts_find split: option.splits if_splits)
  then show "rts db (c_rep x) = None \<or> (\<exists>g. rts db (c_rep x) = Some (g, x))" and "rts db' = (rts db)(c_rep x \<mapsto> (c, x))"
    by (auto simp: fun_eq_iff rts_def rts_updateRoute map_add_def simp del: map_map split: option.splits)
qed

lemma rts_renameGroup:
  "map_of (map (\<lambda>x. (c_rep (ro_route x), (ro_canonical x, ro_route x)))
     (map (\<lambda>x. if ro_canonical x = l then x\<lparr>ro_canonical := w\<rparr> else x) xs)) q =
   map_option (\<lambda>(g, x). (if g = l then w else g, x))
     (map_of (map (\<lambda>x. (c_rep (ro_route x), (ro_canonical x, ro_route x))) xs) q)"
  by (induction xs) auto

lemma map_of_filter_key: "map_of (map (\<lambda>k. (f k, h k)) (filter (\<lambda>k. f k \<noteq> l) xs)) q = (if q = l then None else map_of (map (\<lambda>k. (f k, h k)) xs) q)"
  by (induction xs) auto

lemma length_filter_map_le: "(\<And>x. P (f x) \<Longrightarrow> P x) \<Longrightarrow> length (filter (P \<circ> f) xs) \<le> length (filter P xs)"
  by (induction xs) (auto intro: le_SucI)

text \<open>Choosing the group renames at most one group, the one of one of the two representations.\<close>

lemma chooseGroup_maps:
  assumes "chooseGroup db left right proposed at n = Inr (c, db1)"
    and named: "\<And>r. canon db r \<noteq> Some ''''" and "proposed \<noteq> ''''"
  obtains loser where "loser = None \<or> loser = canon db (c_rep left) \<or> loser = canon db (c_rep right)"
    and "\<forall>r. rts db1 r = map_option (\<lambda>(g, x). (if Some g = loser then c else g, x)) (rts db r)"
    and "\<forall>r. canon db1 r = map_option (\<lambda>g. if Some g = loser then c else g) (canon db r)"
    and "\<forall>g. Some g \<noteq> loser \<longrightarrow> gsize db g \<noteq> None \<longrightarrow> gsize db1 g = gsize db g"
    and "unique_ids db \<longrightarrow> unique_ids db1" and "\<forall>k. k \<noteq> c \<longrightarrow> route_count db1 [k] \<le> route_count db [k]"
    and "c \<noteq> ''''" and "spans db1 = spans db"
proof -
  have id: "map_option (\<lambda>(g, x). (if Some g = None then c else g, x)) y = y" for y :: "(string \<times> LaneCandidate) option"
    by (cases y) auto
  show thesis
    using assms(1) named
  proof (cases rule: chooseGroup_cases)
    case new
    then show thesis
      using assms(3) by (intro that [of None])
        (auto simp: rts_def canon_def gsize_def unique_ids_def route_count_def list_ex_iff map_add_def option.map_id option.map_ident split: option.splits)
  next
    case one
    then have "c \<noteq> ''''" using named by (metis)
    with one show thesis by (intro that [of None]) (auto simp: id option.map_id option.map_ident)
  next
    case (two l)
    then have c: "c \<noteq> ''''" "Some l = canon db (c_rep left) \<or> Some l = canon db (c_rep right)"
      using named [of "c_rep left"] named [of "c_rep right"] by (metis insertI1 insertI2 insertE singletonD)+
    have db1: "db1 = db\<lparr>alias_rows := map (\<lambda>a. if al_canonical a = l then a\<lparr>al_canonical := c\<rparr> else a) (alias_rows db),
                  routes := map (\<lambda>x. if ro_canonical x = l then x\<lparr>ro_canonical := c\<rparr> else x) (routes db),
                  canonicals := filter (\<lambda>c. cr_id c \<noteq> l) (canonicals db)\<rparr>"
      using two(1) by (auto simp: mergeGroups_def split: if_splits)
    have ids: "map al_rep (map (\<lambda>a. if al_canonical a = l then a\<lparr>al_canonical := c\<rparr> else a) xs) = map al_rep xs"
      "map (\<lambda>x. c_rep (ro_route x)) (map (\<lambda>x. if ro_canonical x = l then x\<lparr>ro_canonical := c\<rparr> else x) ys) = map (\<lambda>x. c_rep (ro_route x)) ys"
      for xs ys by auto
    show thesis
    proof (rule that [of "Some l"])
      show "\<forall>r. rts db1 r = map_option (\<lambda>(g, x). (if Some g = Some l then c else g, x)) (rts db r)"
        by (simp add: db1 rts_def rts_renameGroup del: map_map)
      show "\<forall>r. canon db1 r = map_option (\<lambda>g. if Some g = Some l then c else g) (canon db r)"
        using canon_mergeGroups [OF two(1)] by simp
      show "\<forall>g. Some g \<noteq> Some l \<longrightarrow> gsize db g \<noteq> None \<longrightarrow> gsize db1 g = gsize db g"
        by (simp add: db1 gsize_def map_of_filter_key)
      show "unique_ids db \<longrightarrow> unique_ids db1"
        by (simp add: db1 unique_ids_def ids distinct_map_filter del: map_map)
      have "route_count db1 [k] \<le> route_count db [k]" if "k \<noteq> c" for k
        using that by (simp add: db1 route_count_def filter_map) (rule length_filter_map_le, auto split: if_splits)
      then show "\<forall>k. k \<noteq> c \<longrightarrow> route_count db1 [k] \<le> route_count db [k]" by blast
    qed (use c in \<open>auto simp: db1\<close>)
  qed
qed

lemma addRoute_unique:
  assumes "addRoute c at x db = Inr db'"
  shows "unique_ids db \<Longrightarrow> unique_ids db'" and "k \<noteq> c \<Longrightarrow> route_count db' [k] \<le> route_count db [k]"
proof -
  have al: "distinct (map al_rep (alias_rows (upsertAlias db c r at)))" if "distinct (map al_rep (alias_rows db))" for r
  proof -
    have "map al_rep (alias_rows (upsertAlias db c r at)) =
        (if list_ex (\<lambda>a. al_rep a = r) (alias_rows db) then map al_rep (alias_rows db) else map al_rep (alias_rows db) @ [r])"
      by (auto simp: upsertAlias_def)
    with that show ?thesis by (auto simp: list_ex_iff)
  qed
  have ids: "map (\<lambda>y. c_rep (ro_route y)) (map (\<lambda>y. if c_rep (ro_route y) = r then y\<lparr>ro_canonical := c, ro_verified := at\<rparr> else y) ys) =
      map (\<lambda>y. c_rep (ro_route y)) ys" for r ys by auto
  have db': "canonicals db' = canonicals db" "alias_rows db' = alias_rows (upsertAlias db c (c_rep x) at)"
    "(c_rep x \<notin> (\<lambda>y. c_rep (ro_route y)) ` set (routes db) \<and> routes db' = routes db @ [\<lparr>ro_canonical = c, ro_route = x, ro_verified = at\<rparr>]) \<or>
     routes db' = map (\<lambda>y. if c_rep (ro_route y) = c_rep x then y\<lparr>ro_canonical := c, ro_verified := at\<rparr> else y) (routes db)"
    using assms by (auto simp: addRoute_def upsertRepresentationRoute_def upsertAlias_def find_None_iff split: option.splits if_splits)
  show "unique_ids db'" if "unique_ids db"
    using db'(3) that al [of "c_rep x"] unfolding unique_ids_def db'(1,2) by (auto simp: ids simp del: map_map)
  show "route_count db' [k] \<le> route_count db [k]" if "k \<noteq> c"
    using db'(3)
  proof
    assume "routes db' = map (\<lambda>y. if c_rep (ro_route y) = c_rep x then y\<lparr>ro_canonical := c, ro_verified := at\<rparr> else y) (routes db)"
    with that show ?thesis
      by (simp add: route_count_def filter_map) (rule length_filter_map_le, auto split: if_splits)
  qed (use that in \<open>simp add: route_count_def\<close>)
qed

lemma linked_convergeGroups:
  assumes "convergeGroups db left right proposed at n = Inr (c, db')" and "linked db" and "proposed \<noteq> ''''"
    and "c_rep left \<noteq> c_rep right"
  shows "linked db'" and "c \<noteq> ''''" and "spans db' = spans db"
proof -
  have named: "canon db r \<noteq> Some ''''" for r using linkedD [OF assms(2)] by blast
  have known: "k \<in> cr_id ` set (canonicals db)" if "canon db r = Some k" for r k
    using linkedD [OF assms(2) that] by (auto simp: gsize_def dest!: map_of_SomeD)
  obtain db1 db2 db3 where ch: "chooseGroup db left right proposed at n = Inr (c, db1)"
    and add: "addRoute c at left db1 = Inr db2" "addRoute c at right db2 = Inr db3"
    and db': "db' = db3\<lparr>canonicals := map (\<lambda>k. if cr_id k = c then k\<lparr>cr_updated := at\<rparr> else k) (canonicals db3)\<rparr>"
    using assms(1) by (rule convergeGroupsD)
  obtain loser where loser: "loser = None \<or> loser = canon db (c_rep left) \<or> loser = canon db (c_rep right)"
    and rts1: "\<forall>r. rts db1 r = map_option (\<lambda>(g, x). (if Some g = loser then c else g, x)) (rts db r)"
    and cn1: "\<forall>r. canon db1 r = map_option (\<lambda>g. if Some g = loser then c else g) (canon db r)"
    and gs1: "\<forall>g. Some g \<noteq> loser \<longrightarrow> gsize db g \<noteq> None \<longrightarrow> gsize db1 g = gsize db g"
    and "unique_ids db \<longrightarrow> unique_ids db1" and "\<forall>k. k \<noteq> c \<longrightarrow> route_count db1 [k] \<le> route_count db [k]"
    and c: "c \<noteq> ''''" and sp: "spans db1 = spans db"
    by (rule chooseGroup_maps [OF ch named assms(3)])
  note a1 = addRoute_maps [OF add(1)] and a2 = addRoute_maps [OF add(2)]
  show "c \<noteq> ''''" by (rule c)
  show "spans db' = spans db" using a1(5) a2(5) sp by (simp add: db')
  have "map_of (map (\<lambda>k. (cr_id k, cr_size k)) (map (\<lambda>k. if cr_id k = c then k\<lparr>cr_updated := at\<rparr> else k) xs)) =
      map_of (map (\<lambda>k. (cr_id k, cr_size k)) xs)" for xs :: "canonical_row list"
    by (induction xs) auto
  then have gs: "gsize db' = gsize db1" and rt: "rts db' = (rts db1)(c_rep left \<mapsto> (c, left), c_rep right \<mapsto> (c, right))"
    using a1(3,4) a2(3,4) by (simp_all add: db' gsize_def rts_def del: map_map)
  have sz: "gsize db1 c = Some (Size left)" "gsize db1 c = Some (Size right)"
    using a1(1,4) a2(1) by simp_all
  have cn: "canon db' = (canon db1)(c_rep left \<mapsto> c, c_rep right \<mapsto> c)"
    using canon_addRoute [OF add(1)] canon_addRoute [OF add(2)] canon_cong [of db' db3] by (simp add: db')
  have old: "rts db (c_rep left) = Some (g, x) \<Longrightarrow> x = left" "rts db (c_rep right) = Some (g, x) \<Longrightarrow> x = right" for g x
    using a1(2,3) a2(2) rts1 [rule_format, of "c_rep left"] rts1 [rule_format, of "c_rep right"] assms(4) by (auto split: if_splits)
  have lsz: "gsize db1 c = Some (Size x)" if "loser = Some g" "rts db r = Some (g, x)" for g r x
  proof -
    have "canon db r = Some g" "gsize db g = Some (Size x)"
      using assms(2) that(2) unfolding linked_def by (auto dest!: spec [of _ r])
    moreover have "gsize db g = Some (Size left) \<or> gsize db g = Some (Size right)"
    proof -
      from loser that(1) consider "canon db (c_rep left) = Some g" | "canon db (c_rep right) = Some g" by auto
      then show ?thesis
      proof cases
        case 1
        from linkedD [OF assms(2) 1] old(1) show ?thesis by blast
      next
        case 2
        from linkedD [OF assms(2) 2] old(2) show ?thesis by blast
      qed
    qed
    ultimately show ?thesis using sz by auto
  qed
  show "linked db'"
    unfolding linked_def
  proof
    fix r
    show "case rts db' r of None \<Rightarrow> canon db' r = None
      | Some (g, x) \<Rightarrow> canon db' r = Some g \<and> c_rep x = r \<and> g \<noteq> '''' \<and> gsize db' g = Some (Size x)"
    proof (cases "r = c_rep left \<or> r = c_rep right")
      case True
      with sz c show ?thesis by (auto simp: rt cn gs)
    next
      case False
      then have same: "rts db' r = rts db1 r" "canon db' r = canon db1 r" by (simp_all add: rt cn)
      show ?thesis
      proof (cases "rts db r")
        case None
        with assms(2) have "canon db r = None" unfolding linked_def by (auto dest!: spec [of _ r])
        with None show ?thesis by (simp add: same rts1 cn1)
      next
        case (Some p)
        obtain g x where p: "p = (g, x)" by (cases p)
        with Some assms(2) have o: "canon db r = Some g" "c_rep x = r" "g \<noteq> ''''" "gsize db g = Some (Size x)"
          unfolding linked_def by (auto dest!: spec [of _ r])
        show ?thesis
        proof (cases "Some g = loser")
          case True
          then have l: "loser = Some g" by simp
          with Some p o c lsz [of g r x] show ?thesis by (simp add: same rts1 cn1 gs l)
        next
          case False
          with Some p o gs1 [rule_format, of g] show ?thesis by (simp add: same rts1 cn1 gs)
        qed
      qed
    qed
  qed
qed

lemma convergeGroups_inv:
  assumes "convergeGroups db left right proposed at n = Inr (c, db')" and "conv_inv n db" and "proposed \<noteq> ''''"
    and "c_rep left \<noteq> c_rep right"
  shows "conv_inv n db'"
proof -
  have lk: "linked db" and u: "unique_ids db" and cnt: "int (route_count db [k]) \<le> n" for k
    using assms(2) by (simp_all add: conv_inv_def)
  have named: "canon db r \<noteq> Some ''''" for r using linkedD [OF lk] by blast
  obtain db1 db2 db3 where ch: "chooseGroup db left right proposed at n = Inr (c, db1)"
    and add: "addRoute c at left db1 = Inr db2" "addRoute c at right db2 = Inr db3"
    and n: "int (route_count db3 [c]) \<le> n"
    and db': "db' = db3\<lparr>canonicals := map (\<lambda>k. if cr_id k = c then k\<lparr>cr_updated := at\<rparr> else k) (canonicals db3)\<rparr>"
    using assms(1) by (rule convergeGroupsD)
  have 1: "unique_ids db \<longrightarrow> unique_ids db1" "\<forall>k. k \<noteq> c \<longrightarrow> route_count db1 [k] \<le> route_count db [k]"
    by (rule chooseGroup_maps [OF ch named assms(3)], assumption)+
  have "unique_ids db3"
    using u 1(1) addRoute_unique(1) [OF add(1)] addRoute_unique(1) [OF add(2)] by blast
  moreover have "map cr_id (map (\<lambda>k. if cr_id k = c then k\<lparr>cr_updated := at\<rparr> else k) xs) = map cr_id xs" for xs :: "canonical_row list"
    by auto
  ultimately have "unique_ids db'" by (simp add: db' unique_ids_def del: map_map)
  moreover have "int (route_count db' [k]) \<le> n" for k
  proof (cases "k = c")
    case True
    with n show ?thesis by (simp add: db' route_count_def)
  next
    case False
    have "route_count db' [k] \<le> route_count db [k]"
      using 1(2) addRoute_unique(2) [OF add(1) False] addRoute_unique(2) [OF add(2) False] False
      by (fastforce simp: db' route_count_def)
    with cnt [of k] show ?thesis by simp
  qed
  ultimately show ?thesis
    using assms(2) linked_convergeGroups [OF assms(1) lk assms(3,4)] by (simp add: conv_inv_def)
qed

subsection \<open>Observing a verified span\<close>

text \<open>The bytes of a pair verified and not yet promoted.\<close>

definition pending :: "proof_db \<Rightarrow> string \<Rightarrow> string \<Rightarrow> int set" where
  "pending db l r = covered (map sp_span (filter (\<lambda>x. {sp_left x, sp_right x} = {l, r}) (spans db)))"

lemma pending_pair:
  assumes "conv_inv n db" and "bytes_less l r"
  shows "pending db l r = covered (map sp_span (filter (is_pair l r) (spans db)))"
proof -
  have "({sp_left x, sp_right x} = {l, r}) = is_pair l r x" if "x \<in> set (spans db)" for x
    using assms that bytes_less_asym by (auto simp: conv_inv_def is_pair_def doubleton_eq_iff)
  then have "filter (\<lambda>x. {sp_left x, sp_right x} = {l, r}) (spans db) = filter (is_pair l r) (spans db)"
    by (rule filter_cong [OF refl])
  then show ?thesis by (simp add: pending_def)
qed

lemma loaded_spans:
  assumes "conv_inv n db"
  shows "positive (loadVerificationSpans db l r)"
    and "covered (loadVerificationSpans db l r) = covered (map sp_span (filter (is_pair l r) (spans db)))"
    and "x \<in> set (loadVerificationSpans db l r) \<Longrightarrow> 0 \<le> v_offset x"
  using assms by (auto simp: loadVerificationSpans_def positive_def list_all_iff conv_inv_def covered_def)

definition store_spans :: "proof_db \<Rightarrow> string \<Rightarrow> string \<Rightarrow> instant \<Rightarrow> VerifiedSpan list \<Rightarrow> proof_db" where
  "store_spans db l r at merged = (clear_pair db l r)\<lparr>spans := spans (clear_pair db l r) @
     map (\<lambda>v. \<lparr>sp_left = l, sp_right = r, sp_span = v, sp_verified = at\<rparr>) merged\<rparr>"

lemma observePairD:
  assumes "observePair db left right span proposed at n m = Inr (c, db')"
  defines "l \<equiv> c_rep left" and "r \<equiv> c_rep right"
  defines "merged \<equiv> mergeVerifiedSpans (loadVerificationSpans db l r @ [span])"
  obtains (partial) "l \<noteq> r" "c = ''''" "db' = store_spans db l r at merged"
      "\<not> (length merged = 1 \<and> v_offset (hd merged) = 0 \<and> v_length (hd merged) = Size left)"
    | (whole) db2 where "l \<noteq> r" "length merged = 1 \<and> v_offset (hd merged) = 0 \<and> v_length (hd merged) = Size left"
      "convergeGroups (store_spans db l r at merged) left right proposed at n = Inr (c, db2)" "db' = clear_pair db2 l r"
  using assms(1) unfolding observePair_def Let_def l_def [symmetric] r_def [symmetric] merged_def [symmetric] store_spans_def [symmetric]
  by (auto split: if_splits sum.splits prod.splits)

lemma conv_inv_frame:
  assumes "conv_inv n db" and "alias_rows db' = alias_rows db" "routes db' = routes db" "canonicals db' = canonicals db"
    and "\<forall>x \<in> set (spans db'). bytes_less (sp_left x) (sp_right x) \<and> 0 \<le> v_offset (sp_span x) \<and> 0 < v_length (sp_span x)"
  shows "conv_inv n db'"
proof -
  have maps: "canon db' = canon db" "rts db' = rts db" "gsize db' = gsize db"
    by (simp_all add: canon_def rts_def gsize_def assms(2-4))
  show ?thesis
    using assms(1,5) unfolding conv_inv_def unique_ids_def linked_def route_count_def maps assms(2-4) by blast
qed

lemma store_spans_inv:
  assumes "conv_inv n db" and "bytes_less l r" and "0 \<le> v_offset span" and "0 < v_length span"
  defines "merged \<equiv> mergeVerifiedSpans (loadVerificationSpans db l r @ [span])"
  shows "conv_inv n (store_spans db l r at merged)" and "pending (store_spans db l r at merged) l r = pending db l r \<union> bytes_of span"
    and "covered merged = pending db l r \<union> bytes_of span" and "apart merged" and "positive merged"
proof -
  have pos: "positive (loadVerificationSpans db l r @ [span])"
    using loaded_spans(1) [OF assms(1)] assms(4) by (simp add: positive_def)
  note mg = mergeVerifiedSpans_correct [OF pos, folded merged_def]
  show cov: "covered merged = pending db l r \<union> bytes_of span" and "apart merged" "positive merged"
    using mg loaded_spans(2) [OF assms(1)] pending_pair [OF assms(1,2)] by simp_all
  have nonneg: "0 \<le> v_offset x" if "x \<in> set merged" for x
  proof -
    have "v_offset x \<in> covered merged"
      using that mg(3) by (auto simp: covered_def bytes_of_def positive_def list_all_iff)
    then have "v_offset x \<in> covered (loadVerificationSpans db l r @ [span])" using mg(1) by simp
    then show ?thesis using loaded_spans(3) [OF assms(1)] assms(3) by (fastforce simp: covered_def bytes_of_def)
  qed
  have "pending (store_spans db l r at merged) l r = covered merged"
  proof -
    have "filter (\<lambda>x. {sp_left x, sp_right x} = {l, r}) (spans (clear_pair db l r)) = []"
      using assms(1,2) bytes_less_asym by (auto simp: clear_pair_def filter_empty_conv is_pair_def conv_inv_def doubleton_eq_iff)
    then show ?thesis by (simp add: pending_def store_spans_def comp_def)
  qed
  with cov show "pending (store_spans db l r at merged) l r = pending db l r \<union> bytes_of span" by simp
  show "conv_inv n (store_spans db l r at merged)"
    using assms(1,2) nonneg mg(3)
    by (intro conv_inv_frame [OF assms(1)])
      (auto simp: store_spans_def clear_pair_def conv_inv_def positive_def list_all_iff)
qed

lemma same_group_cong: "alias_rows db' = alias_rows db \<Longrightarrow> same_group db' = same_group db"
  by (simp add: same_group_def canon_def fun_eq_iff)

lemma clear_pair_inv:
  assumes "conv_inv n db"
  shows "conv_inv n (clear_pair db l r)"
  using assms by (intro conv_inv_frame [OF assms]) (auto simp: clear_pair_def conv_inv_def)

lemma clear_pair_pending: "conv_inv n db \<Longrightarrow> bytes_less l r \<Longrightarrow> pending (clear_pair db l r) l r = {}"
  using pending_pair [OF clear_pair_inv] by (auto simp: clear_pair_def covered_def)

lemma observePair_spec:
  assumes "conv_inv n db" and "observePair db left right span proposed at n m = Inr (c, db')"
    and less: "bytes_less (c_rep left) (c_rep right)" and "proposed \<noteq> ''''"
    and "0 \<le> v_offset span" and "0 < v_length span" and "0 < Size left"
  defines "full \<equiv> pending db (c_rep left) (c_rep right) \<union> bytes_of span = {0..<Size left}"
  shows "conv_inv n db'" and "c \<noteq> '''' \<longleftrightarrow> full"
    and "full \<Longrightarrow> canon db' (c_rep left) = Some c \<and> canon db' (c_rep right) = Some c"
    and "pending db' (c_rep left) (c_rep right) =
      (if full then {} else pending db (c_rep left) (c_rep right) \<union> bytes_of span)"
    and "same_group db' a b \<longleftrightarrow> same_group db a b \<or> (full \<and>
      (same_group db a (c_rep left) \<or> same_group db a (c_rep right)) \<and> (same_group db b (c_rep left) \<or> same_group db b (c_rep right)))"
proof -
  let ?l = "c_rep left" and ?r = "c_rep right"
  let ?m = "mergeVerifiedSpans (loadVerificationSpans db ?l ?r @ [span])"
  let ?db1 = "store_spans db ?l ?r at ?m"
  note st = store_spans_inv [OF assms(1) less assms(5,6)]
  have whole: "length ?m = 1 \<and> v_offset (hd ?m) = 0 \<and> v_length (hd ?m) = Size left \<longleftrightarrow> full"
    using whole_iff_covered [OF st(4,5) assms(7)] st(3) by (simp add: full_def)
  have al: "alias_rows ?db1 = alias_rows db" by (simp add: store_spans_def clear_pair_def)
  have "conv_inv n db' \<and> (c \<noteq> '''' \<longleftrightarrow> full) \<and> (full \<longrightarrow> canon db' ?l = Some c \<and> canon db' ?r = Some c) \<and>
      pending db' ?l ?r = (if full then {} else pending db ?l ?r \<union> bytes_of span) \<and>
      (\<forall>a b. same_group db' a b \<longleftrightarrow> same_group db a b \<or> (full \<and> (same_group db a ?l \<or> same_group db a ?r) \<and>
        (same_group db b ?l \<or> same_group db b ?r)))"
    using assms(2)
  proof (cases rule: observePairD)
    case partial
    with whole have "\<not> full" by simp
    with partial st(1,2) same_group_cong [OF al] show ?thesis by simp
  next
    case (whole db2)
    with \<open>_ \<longleftrightarrow> full\<close> have full by simp
    have lk: "linked ?db1" using st(1) by (simp add: conv_inv_def)
    have named: "canon ?db1 r \<noteq> Some ''''" for r using linkedD [OF lk] by blast
    have known: "k \<in> cr_id ` set (canonicals ?db1)" if "canon ?db1 r = Some k" for r k
      using linkedD [OF lk that] by (auto simp: gsize_def dest!: map_of_SomeD)
    note cg = canon_convergeGroups [OF whole(3) named known]
    have inv2: "conv_inv n db2" using convergeGroups_inv [OF whole(3) st(1) assms(4) whole(1)] .
    have al2: "alias_rows db' = alias_rows db2" by (simp add: whole(4) clear_pair_def)
    have "c \<noteq> ''''" using linked_convergeGroups(2) [OF whole(3) lk assms(4) whole(1)] .
    moreover have "conv_inv n db'" "pending db' ?l ?r = {}"
      unfolding whole(4) using clear_pair_inv [OF inv2] clear_pair_pending [OF inv2 less] .
    ultimately show ?thesis
      using \<open>full\<close> cg canon_cong [OF al2] same_group_cong [OF al2] same_group_cong [OF al] by simp
  qed
  then show "conv_inv n db'" "c \<noteq> '''' \<longleftrightarrow> full" "full \<Longrightarrow> canon db' ?l = Some c \<and> canon db' ?r = Some c"
    "pending db' ?l ?r = (if full then {} else pending db ?l ?r \<union> bytes_of span)"
    "same_group db' a b \<longleftrightarrow> same_group db a b \<or> (full \<and> (same_group db a ?l \<or> same_group db a ?r) \<and>
      (same_group db b ?l \<or> same_group db b ?r))"
    by blast+
qed

lemma pending_sym: "pending db l r = pending db r l"
  by (simp add: pending_def insert_commute)

lemma ObserveConvergence_ordered:
  assumes "ObserveRepresentationConvergence db left right span proposed at n m = Inr (c, db')"
  obtains l r where "{l, r} = {left, right}" and "bytes_less (c_rep l) (c_rep r)"
    and "observePair db l r span proposed at n m = Inr (c, db')"
proof (cases "bytes_less (c_rep right) (c_rep left)")
  case True
  with assms show thesis by (intro that [of right left]) (auto simp: ObserveRepresentationConvergence_def ordered_def)
next
  case False
  with assms have o: "observePair db left right span proposed at n m = Inr (c, db')"
    by (simp add: ObserveRepresentationConvergence_def ordered_def)
  then have "c_rep left \<noteq> c_rep right" by (cases rule: observePairD) auto
  with False bytes_less_total have "bytes_less (c_rep left) (c_rep right)" by blast
  with o show thesis by (intro that [of left right]) auto
qed

lemma ObserveVerified_store:
  assumes "ObserveVerified u sha (NewConverger store_convergence) db cx now left right span decision = Inr (c, db')"
  shows "ObserveRepresentationConvergence db left right span (canonicalID sha (c_rep left) (c_rep right)) now
      DefaultMaxRoutesPerRepresentation DefaultMaxPendingSpansPerPair = Inr (c, db')"
    and "Size left = Size right" and "0 \<le> v_offset span" and "0 < v_length span" and "0 < Size left"
    and "Relation_of decision = RelationProven" and "c_rep left \<noteq> c_rep right"
proof -
  have "0 < Size left" if "validateLaneCandidate u left = None"
    using that by (auto simp: validateLaneCandidate_def split: if_splits)
  then show "ObserveRepresentationConvergence db left right span (canonicalID sha (c_rep left) (c_rep right)) now
      DefaultMaxRoutesPerRepresentation DefaultMaxPendingSpansPerPair = Inr (c, db')"
    and "Size left = Size right" and "0 \<le> v_offset span" and "0 < v_length span" and "0 < Size left"
    and "Relation_of decision = RelationProven" and "c_rep left \<noteq> c_rep right"
    using assms by (auto simp: ObserveVerified_def NewConverger_def store_convergence_def split: option.splits if_splits)
qed

text \<open>C23: convergence implements the union of equivalence classes, and only on full proof. Each accepted
  observation is a proven span; the pair is promoted (a canonical id is returned) exactly if the
  spans verified so far cover every byte of the representation; then exactly the two classes are
  united and the pair's spans are cleared, otherwise the classes stay and the span is added to what
  is pending. The invariant of the tables is kept.\<close>

theorem convergence_is_union:
  assumes "conv_inv DefaultMaxRoutesPerRepresentation db"
    and "ObserveVerified u sha (NewConverger store_convergence) db cx now left right span decision = Inr (c, db')"
  defines "L \<equiv> c_rep left" and "R \<equiv> c_rep right"
  defines "full \<equiv> pending db L R \<union> {v_offset span..<v_offset span + v_length span} = {0..<Size left}"
  shows "conv_inv DefaultMaxRoutesPerRepresentation db' \<and> Relation_of decision = RelationProven \<and>
    (c \<noteq> '''' \<longleftrightarrow> full) \<and>
    pending db' L R = (if full then {} else pending db L R \<union> {v_offset span..<v_offset span + v_length span}) \<and>
    (\<forall>a b. same_group db' a b \<longleftrightarrow> same_group db a b \<or>
       (full \<and> (same_group db a L \<or> same_group db a R) \<and> (same_group db b L \<or> same_group db b R)))"
proof -
  note o = ObserveVerified_store [OF assms(2)]
  obtain l r where lr: "{l, r} = {left, right}" and less: "bytes_less (c_rep l) (c_rep r)"
    and p: "observePair db l r span (canonicalID sha L R) now DefaultMaxRoutesPerRepresentation DefaultMaxPendingSpansPerPair = Inr (c, db')"
    using ObserveConvergence_ordered [OF o(1)] unfolding L_def R_def by metis
  have "canonicalID sha L R \<noteq> ''''" by (simp add: canonicalID_def Let_def)
  moreover have "Size l = Size left" "0 < Size l" using lr o(2,5) by (auto simp: doubleton_eq_iff)
  ultimately have spec: "conv_inv DefaultMaxRoutesPerRepresentation db'"
      "c \<noteq> '''' \<longleftrightarrow> pending db (c_rep l) (c_rep r) \<union> bytes_of span = {0..<Size left}"
      "pending db' (c_rep l) (c_rep r) = (if pending db (c_rep l) (c_rep r) \<union> bytes_of span = {0..<Size left} then {}
         else pending db (c_rep l) (c_rep r) \<union> bytes_of span)"
      "same_group db' a b \<longleftrightarrow> same_group db a b \<or> (pending db (c_rep l) (c_rep r) \<union> bytes_of span = {0..<Size left} \<and>
         (same_group db a (c_rep l) \<or> same_group db a (c_rep r)) \<and> (same_group db b (c_rep l) \<or> same_group db b (c_rep r)))" for a b
    using observePair_spec [OF assms(1) p less _ o(3,4)] by simp_all
  from lr consider "l = left" "r = right" | "l = right" "r = left" by (auto simp: doubleton_eq_iff)
  then show ?thesis
  proof cases
    case 1
    with spec o(6) show ?thesis by (simp add: L_def R_def full_def bytes_of_def)
  next
    case 2
    with spec o(6) show ?thesis
      by (simp add: L_def R_def full_def bytes_of_def pending_sym [of _ "c_rep right" "c_rep left"]) blast
  qed
qed

definition empty_db :: proof_db where
  "empty_db = \<lparr>content_proofs = [], continuity = [], canonicals = [], alias_rows = [], routes = [], spans = []\<rparr>"

lemma empty_db_inv: "0 \<le> n \<Longrightarrow> conv_inv n empty_db"
  by (simp add: conv_inv_def empty_db_def unique_ids_def linked_def rts_def canon_def route_count_def)

definition demo_proven :: "int \<Rightarrow> int \<Rightarrow> Decision" where
  "demo_proven offset len = (undecided offset len)\<lparr>Relation_of := RelationProven\<rparr>"

theorem convergence_is_union_witness:
  "\<exists>c db'. ObserveVerified ascii fit32 (NewConverger store_convergence) empty_db None 5
      (demo_candidate LaneHTTP ''a'') (demo_candidate LaneNNTP ''b'') \<lparr>v_offset = 0, v_length = 7\<rparr> (demo_proven 0 7) = Inr (c, db') \<and>
    c \<noteq> '''' \<and> same_group db' ''a'' ''b''"
proof -
  let ?o = "ObserveVerified ascii fit32 (NewConverger store_convergence) empty_db None 5
      (demo_candidate LaneHTTP ''a'') (demo_candidate LaneNNTP ''b'') \<lparr>v_offset = 0, v_length = 7\<rparr> (demo_proven 0 7)"
  have "\<not> isl ?o" by code_simp
  then obtain c db' where o: "?o = Inr (c, db')" by (metis prod.collapse sum.collapse(2))
  have inv: "conv_inv DefaultMaxRoutesPerRepresentation empty_db"
    by (rule empty_db_inv) (simp add: DefaultMaxRoutesPerRepresentation_def)
  have "pending empty_db ''a'' ''b'' = {}" by (simp add: pending_def empty_db_def)
  with convergence_is_union [OF inv o] o show ?thesis by (auto simp: demo_candidate_def)
qed

subsection \<open>Looking up aliases\<close>

lemma canon_Some_iff:
  assumes "unique_ids db"
  shows "canon db r = Some c \<longleftrightarrow> (\<exists>a \<in> set (alias_rows db). al_rep a = r \<and> al_canonical a = c)"
proof -
  have "distinct (map fst (map (\<lambda>a. (al_rep a, al_canonical a)) (alias_rows db)))"
    using assms by (simp add: unique_ids_def comp_def)
  then show ?thesis
    unfolding canon_def by (subst map_of_eq_Some_iff) auto
qed

lemma alias_count:
  assumes "conv_inv n db"
  shows "length (filter (\<lambda>a. al_canonical a = c) (alias_rows db)) = route_count db [c]"
proof -
  have u: "unique_ids db" and lk: "linked db" using assms by (simp_all add: conv_inv_def)
  have "set (map al_rep (filter (\<lambda>a. al_canonical a = c) (alias_rows db))) = {r. canon db r = Some c}"
    using canon_Some_iff [OF u] by auto
  moreover have "set (map (\<lambda>x. c_rep (ro_route x)) (filter (\<lambda>x. ro_canonical x = c) (routes db))) = {r. canon db r = Some c}"
  proof -
    have "distinct (map fst (map (\<lambda>x. (c_rep (ro_route x), (ro_canonical x, ro_route x))) (routes db)))"
      using u by (simp add: unique_ids_def comp_def)
    then have rt: "rts db r = Some (g, y) \<longleftrightarrow> (\<exists>x \<in> set (routes db). c_rep (ro_route x) = r \<and> ro_canonical x = g \<and> ro_route x = y)" for r g y
      unfolding rts_def by (subst map_of_eq_Some_iff) auto
    have "canon db r = Some c \<longleftrightarrow> (\<exists>y. rts db r = Some (c, y))" for r
      using lk linkedD [OF lk, of r c] unfolding linked_def by (auto dest!: spec [of _ r])
    with rt show ?thesis by auto
  qed
  moreover have "distinct (map al_rep (filter (\<lambda>a. al_canonical a = c) (alias_rows db)))"
    "distinct (map (\<lambda>x. c_rep (ro_route x)) (filter (\<lambda>x. ro_canonical x = c) (routes db)))"
    using u by (simp_all add: unique_ids_def distinct_map_filter)
  ultimately have "length (map al_rep (filter (\<lambda>a. al_canonical a = c) (alias_rows db))) =
      length (map (\<lambda>x. c_rep (ro_route x)) (filter (\<lambda>x. ro_canonical x = c) (routes db)))"
    by (metis distinct_card)
  then show ?thesis by (simp add: route_count_def)
qed

lemma find_first_with:
  assumes "List.find P xs = Some x" and "Q x"
  shows "List.find (\<lambda>y. P y \<and> Q y) xs = Some x"
  using assms by (induction xs) (auto split: if_splits)

lemma ListRepresentationAliases_class:
  assumes "conv_inv n db" and "0 < n" and "canon db r = Some c"
  shows "\<exists>ids. ListRepresentationAliases db r n = Inr (ids, the (gsize db c)) \<and> set ids = {x. canon db x = Some c} \<and> ids \<noteq> []"
proof -
  have u: "unique_ids db" and lk: "linked db" using assms(1) by (simp_all add: conv_inv_def)
  from assms(3) obtain a where a: "List.find (\<lambda>a. al_rep a = r) (alias_rows db) = Some a" "al_canonical a = c"
    by (auto simp: canon_find)
  from linkedD [OF lk assms(3)] obtain k where k: "List.find (\<lambda>k. cr_id k = c) (canonicals db) = Some k" "gsize db c = Some (cr_size k)"
    by (auto simp: gsize_find)
  have "list_ex (\<lambda>k. cr_id k = al_canonical a) (canonicals db)"
    using k(1) a(2) by (auto simp: list_ex_iff find_Some_iff)
  then have f: "List.find (\<lambda>a. al_rep a = r \<and> list_ex (\<lambda>k. cr_id k = al_canonical a) (canonicals db)) (alias_rows db) = Some a"
    using find_first_with [OF a(1), where Q = "\<lambda>a. list_ex (\<lambda>k. cr_id k = al_canonical a) (canonicals db)"] by simp
  let ?ids = "sortStable bytes_less (map al_rep (filter (\<lambda>b. al_canonical b = c) (alias_rows db)))"
  have len: "int (length ?ids) \<le> n"
    using alias_count [OF assms(1), of c] assms(1) by (simp add: conv_inv_def)
  then have "take (nat (n + 1)) ?ids = ?ids" by simp
  with len assms(2) f k a(2) have "ListRepresentationAliases db r n = Inr (?ids, cr_size k)"
    by (simp add: ListRepresentationAliases_def Let_def)
  moreover have "set ?ids = {x. canon db x = Some c}"
    using canon_Some_iff [OF u] by auto
  moreover from this assms(3) have "?ids \<noteq> []" by (metis empty_iff empty_set mem_Collect_eq)
  ultimately show ?thesis using k(2) by auto
qed

lemma representationAliases_class:
  assumes "conv_inv DefaultMaxRoutesPerRepresentation db"
  shows "\<exists>ids sz. representationAliases store_proofs db r = Inr (ids, sz) \<and> set ids = {x. same_group db r x} \<and>
    (canon db r = None \<longrightarrow> sz = 0) \<and> (\<forall>c. canon db r = Some c \<longrightarrow> gsize db c = Some sz)"
proof (cases "canon db r")
  case None
  then have "List.find (\<lambda>a. al_rep a = r) (alias_rows db) = None" by (simp add: canon_find)
  then have "List.find (\<lambda>a. al_rep a = r \<and> list_ex (\<lambda>k. cr_id k = al_canonical a) (canonicals db)) (alias_rows db) = None"
    by (auto simp: find_None_iff)
  then have "representationAliases store_proofs db r = Inr ([r], 0)"
    by (simp add: representationAliases_def store_proofs_def ListRepresentationAliases_def)
  with None show ?thesis by (auto simp: same_group_def)
next
  case (Some c)
  obtain ids where ids: "ListRepresentationAliases db r DefaultMaxRoutesPerRepresentation = Inr (ids, the (gsize db c))"
    "set ids = {x. canon db x = Some c}" "ids \<noteq> []"
    using ListRepresentationAliases_class [OF assms _ Some] by (auto simp: DefaultMaxRoutesPerRepresentation_def)
  from assms have "linked db" by (simp add: conv_inv_def)
  from linkedD [OF this Some] obtain sz where sz: "gsize db c = Some sz" by blast
  have "representationAliases store_proofs db r = Inr (ids, sz)"
    using ids(1,3) sz by (simp add: representationAliases_def store_proofs_def)
  moreover have "set ids = {x. same_group db r x}"
    unfolding ids(2) same_group_def using Some by auto
  ultimately show ?thesis using Some sz by simp
qed

text \<open>
  For two distinct converged representations \<open>Compare\<close> answers "proven" for any span inside their common size without consulting block
  evidence, where its comment promises "conflict" whenever comparable evidence disagrees.
\<close>

lemma converged_compare_proven:
  assumes "conv_inv DefaultMaxRoutesPerRepresentation db"
    and h: "same_group db a b" "a \<noteq> b" "validOpaqueID a" "validOpaqueID b" "canon db a = Some g" "gsize db g = Some sz"
      "0 \<le> offset" "0 < len" "offset + len \<le> sz" "sz \<le> MaxInt64"
  shows "\<exists>d. Compare \<lparr>g_repo = store_proofs, g_max = mx\<rparr> db None now a b offset len = Inr d \<and> Relation_of d = RelationProven"
proof -
  obtain la sa where la: "representationAliases store_proofs db a = Inr (la, sa)" "set la = {x. same_group db a x}"
    "\<forall>c. canon db a = Some c \<longrightarrow> gsize db c = Some sa"
    using representationAliases_class [OF assms(1), of a] by blast
  obtain lb sb where lb: "representationAliases store_proofs db b = Inr (lb, sb)" "set lb = {x. same_group db b x}"
    "\<forall>c. canon db b = Some c \<longrightarrow> gsize db c = Some sb"
    using representationAliases_class [OF assms(1), of b] by blast
  have "canon db b = Some g" using h(1,2,5) by (simp add: same_group_def)
  then have "sa = sz" "sb = sz" using la(3) lb(3) h(5,6) by auto
  moreover have "set la = set lb"
    unfolding la(2) lb(2) using h(1) same_group_sym same_group_trans by blast
  ultimately show ?thesis
    using h la(1) lb(1) by (simp add: Compare_def undecided_def)
qed

text \<open>C24: aliases are the equivalence class. In every state the store can be in, looking up the aliases
  of a representation never fails and returns exactly the representations converged with it, with the size of their group; every member
  of the class gets the same aliases and the same size.\<close>

theorem aliases_are_the_class:
  assumes "conv_inv DefaultMaxRoutesPerRepresentation db"
  shows "\<exists>ids sz. representationAliases store_proofs db a = Inr (ids, sz) \<and> set ids = {x. same_group db a x} \<and>
    (\<forall>g. canon db a = Some g \<longrightarrow> gsize db g = Some sz) \<and>
    (\<forall>b. b \<in> set ids \<longrightarrow> (\<exists>ids'. representationAliases store_proofs db b = Inr (ids', sz) \<and> set ids' = set ids))"
proof -
  obtain la sa where la: "representationAliases store_proofs db a = Inr (la, sa)" "set la = {x. same_group db a x}"
    "\<forall>c. canon db a = Some c \<longrightarrow> gsize db c = Some sa"
    using representationAliases_class [OF assms, of a] by blast
  have "\<exists>ids'. representationAliases store_proofs db b = Inr (ids', sa) \<and> set ids' = set la" if "b \<in> set la" for b
  proof (cases "b = a")
    case False
    have g: "same_group db a b" using that la(2) by simp
    with False have e: "canon db a \<noteq> None" "canon db a = canon db b" by (metis same_group_def)+
    from e(1) obtain c where c: "canon db a = Some c" by blast
    with e(2) have c': "canon db b = Some c" by metis
    obtain lb sb where lb: "representationAliases store_proofs db b = Inr (lb, sb)" "set lb = {x. same_group db b x}"
      "\<forall>c. canon db b = Some c \<longrightarrow> gsize db c = Some sb"
      using representationAliases_class [OF assms, of b] by blast
    have "set lb = set la" unfolding la(2) lb(2) using g same_group_sym same_group_trans by blast
    moreover have "sb = sa" using lb(3) la(3) c c' by auto
    ultimately show ?thesis using lb(1) by auto
  qed (use la in auto)
  with la show ?thesis by blast
qed

theorem aliases_are_the_class_witness:
  "\<exists>db'. canon db' ''a'' = canon db' ''b'' \<and> (\<exists>ids. representationAliases store_proofs db' ''a'' = Inr (ids, 7) \<and> ''b'' \<in> set ids)"
proof -
  define db' where "db' = empty_db\<lparr>canonicals := [\<lparr>cr_id = ''g'', cr_size = 7, cr_created = 0, cr_updated = 0\<rparr>],
    alias_rows := [\<lparr>al_rep = ''a'', al_canonical = ''g'', al_verified = 0\<rparr>, \<lparr>al_rep = ''b'', al_canonical = ''g'', al_verified = 0\<rparr>],
    routes := [\<lparr>ro_canonical = ''g'', ro_route = demo_candidate LaneHTTP ''a'', ro_verified = 0\<rparr>,
               \<lparr>ro_canonical = ''g'', ro_route = demo_candidate LaneNNTP ''b'', ro_verified = 0\<rparr>]\<rparr>"
  have inv: "conv_inv DefaultMaxRoutesPerRepresentation db'"
    by (simp add: conv_inv_def unique_ids_def linked_def rts_def canon_def gsize_def route_count_def db'_def empty_db_def
        demo_candidate_def DefaultMaxRoutesPerRepresentation_def split: option.splits)
  have grp: "canon db' ''a'' = Some ''g''" "canon db' ''b'' = Some ''g''" "gsize db' ''g'' = Some 7" "same_group db' ''a'' ''b''"
    by (simp_all add: canon_def gsize_def same_group_def db'_def)
  obtain ids sz where "representationAliases store_proofs db' ''a'' = Inr (ids, sz)" "set ids = {x. same_group db' ''a'' x}" "sz = 7"
    using aliases_are_the_class [OF inv, of "''a''"] grp(1,3) by auto
  then show ?thesis using grp by (intro exI [of _ db']) auto
qed

end
