(* ===== verification/ByteSources.thy ===== *)
theory ByteSources
  imports Outcome
begin

section \<open>Random-access byte sources\<close>

text \<open>
  Models \<open>internal/bytesource/bytesource.go\<close>: the interface \<open>ByteSource\<close>, the source assembled from
  chunks that are fetched on demand (\<open>NewChunked\<close>) and the in-memory source. \<open>ReadAt src off n\<close> reads
  into a buffer of \<open>n\<close> bytes and returns the bytes read and an error. The context's readings within
  one call are a sequence \<open>cx\<close>: the first check, then one before every chunk. \<open>sort.Search\<close> is the
  standard library's binary search.

  Results: both sources keep the contract of \<open>io.ReaderAt\<close>, stated as a locale; the binary search
  finds the first covering chunk; and a chunked source whose start table is exact reads precisely
  what the concatenation of its chunks would give from memory.
\<close>

datatype TailCost = TailCostUnknown | TailCostCheap | TailCostSegmented

record Capabilities =
  RangeSupport :: bool
  ExactSize :: bool
  TailCost_of :: TailCost
  Alignment :: int

record ByteSource = Capabilities +
  src_size :: int
  src_key :: string
  ReadAt :: "int \<Rightarrow> nat \<Rightarrow> string \<times> go_error option"

record Chunk =
  Index :: int
  Chunk_Key :: string
  DeclaredSize :: int

definition ErrNegativeOffset :: go_error where "ErrNegativeOffset = Plain ''bytesource: negative offset''"

definition EOF :: go_error where "EOF = Plain ''EOF''"

record chunked =
  ch_key :: string
  chunks :: "Chunk list"
  starts :: "int list"
  ch_size :: int
  ch_caps :: Capabilities
  ch_fetch :: "Chunk \<Rightarrow> (go_error, string) result"

fun nonDecreasing :: "int list \<Rightarrow> bool" where
  "nonDecreasing (a # b # r) = (\<not> b < a \<and> nonDecreasing (b # r))"
| "nonDecreasing _ = True"

definition NewChunked :: "string \<Rightarrow> Chunk list \<Rightarrow> int list \<Rightarrow> int \<Rightarrow> Capabilities \<Rightarrow> (Chunk \<Rightarrow> (go_error, string) result) option \<Rightarrow>
  (go_error, chunked) result" where
  "NewChunked key cs st sz caps fetch =
     (case fetch of
        None \<Rightarrow> Inl (Plain ''bytesource: nil fetch'')
      | Some f \<Rightarrow>
          if length st \<noteq> length cs + 1 then Inl (Plain ''bytesource: starts must have len(chunks)+1 entries'')
          else if \<not> nonDecreasing st then Inl (Plain ''bytesource: starts must be non-decreasing'')
          else Inr \<lparr>ch_key = key, chunks = cs, starts = st, ch_size = sz, ch_caps = caps, ch_fetch = f\<rparr>)"

text \<open>\<open>sort.Search\<close>.\<close>

function searchLoop :: "(nat \<Rightarrow> bool) \<Rightarrow> nat \<Rightarrow> nat \<Rightarrow> nat" where
  "searchLoop f i j =
     (if i < j then (let h = (i + j) div 2 in if \<not> f h then searchLoop f (h + 1) j else searchLoop f i h)
      else i)"
  by pat_completeness auto
termination by (relation "measure (\<lambda>(f, i, j). j - i)") auto

declare searchLoop.simps [simp del]

definition Search :: "nat \<Rightarrow> (nat \<Rightarrow> bool) \<Rightarrow> nat" where
  "Search n f = searchLoop f 0 n"

text \<open>The loop over the covering chunks; \<open>got\<close> is \<open>p[:n]\<close>. A front skip that wrapped below zero would panic.\<close>

fun readLoop :: "chunked \<Rightarrow> (nat \<Rightarrow> go_error option) \<Rightarrow> int \<Rightarrow> nat \<Rightarrow> string \<Rightarrow> nat list \<Rightarrow> string \<times> go_error option" where
  "readLoop c cx off want got [] = (got, if length got < want then Some EOF else None)"
| "readLoop c cx off want got (i # is) =
     (if \<not> length got < want then (got, None)
      else case cx (i + 1) of
        Some e \<Rightarrow> (got, Some e)
      | None \<Rightarrow>
      case ch_fetch c (chunks c ! i) of
        Inl e \<Rightarrow> (got, Some e)
      | Inr data \<Rightarrow>
          (let frontSkip = (if off > starts c ! i then wrap64 (off - starts c ! i) else 0) in
           if frontSkip \<ge> int (length data) then readLoop c cx off want got is
           else if frontSkip < 0 then (got, Some (Plain ''slice bounds out of range''))
           else readLoop c cx off want (got @ take (want - length got) (drop (nat frontSkip) data)) is))"

definition chunked_ReadAt :: "chunked \<Rightarrow> (nat \<Rightarrow> go_error option) \<Rightarrow> int \<Rightarrow> nat \<Rightarrow> string \<times> go_error option" where
  "chunked_ReadAt c cx off want =
     (if off < 0 then ([], Some ErrNegativeOffset)
      else if want = 0 then ([], None)
      else case cx 0 of
        Some e \<Rightarrow> ([], Some e)
      | None \<Rightarrow>
          if off \<ge> starts c ! length (chunks c) then ([], Some EOF)
          else readLoop c cx off want [] [Search (length (chunks c)) (\<lambda>i. starts c ! (i + 1) > off) ..< length (chunks c)])"

definition chunked_source :: "(nat \<Rightarrow> go_error option) \<Rightarrow> chunked \<Rightarrow> ByteSource" where
  "chunked_source cx c = Capabilities.extend (ch_caps c)
     (ByteSource.fields (ch_size c) (ch_key c) (chunked_ReadAt c cx))"

definition mem_ReadAt :: "string \<Rightarrow> go_error option \<Rightarrow> int \<Rightarrow> nat \<Rightarrow> string \<times> go_error option" where
  "mem_ReadAt data cx off want =
     (if off < 0 then ([], Some ErrNegativeOffset)
      else if want = 0 then ([], None)
      else case cx of
        Some e \<Rightarrow> ([], Some e)
      | None \<Rightarrow>
          if off \<ge> int (length data) then ([], Some EOF)
          else (let got = take want (drop (nat off) data) in (got, if length got < want then Some EOF else None)))"

definition MemSource :: "string \<Rightarrow> go_error option \<Rightarrow> string \<Rightarrow> ByteSource" where
  "MemSource key cx data = \<lparr>RangeSupport = True, ExactSize = True, TailCost_of = TailCostCheap, Alignment = 1,
     src_size = int (length data), src_key = key, ReadAt = mem_ReadAt data cx\<rparr>"

subsection \<open>The contract of io.ReaderAt\<close>

locale reader_at =
  fixes read :: "int \<Rightarrow> nat \<Rightarrow> string \<times> go_error option"
  assumes no_overrun: "read off n = (data, err) \<Longrightarrow> length data \<le> n"
    and short_is_error: "read off n = (data, err) \<Longrightarrow> length data < n \<Longrightarrow> err \<noteq> None"
begin

lemma full_read: "read off n = (data, None) \<Longrightarrow> length data = n"
  using no_overrun short_is_error by fastforce

end

lemma readLoop_contract:
  assumes "readLoop c cx off want got is = (data, err)" and "length got \<le> want"
  shows "length data \<le> want \<and> (length data < want \<longrightarrow> err \<noteq> None)"
  using assms
  by (induction c cx off want got "is" rule: readLoop.induct)
    (auto simp: Let_def dest: sym [of "Some _"] split: if_splits option.splits sum.splits)

interpretation chunked_reader: reader_at "chunked_ReadAt c cx"
  by unfold_locales
    (auto simp: chunked_ReadAt_def dest: readLoop_contract split: if_splits option.splits)

interpretation mem_reader: reader_at "mem_ReadAt data cx"
  by unfold_locales (auto simp: mem_ReadAt_def Let_def split: if_splits option.splits)


subsection \<open>The binary search\<close>

lemma searchLoop_first:
  assumes "i \<le> j" "j \<le> n" "\<forall>k < i. \<not> f k" "\<forall>k < n. j \<le> k \<longrightarrow> f k" "\<forall>a b. a \<le> b \<longrightarrow> b < n \<longrightarrow> f a \<longrightarrow> f b"
  shows "searchLoop f i j \<le> n \<and> (\<forall>k < n. f k \<longleftrightarrow> searchLoop f i j \<le> k)"
  using assms
proof (induction f i j rule: searchLoop.induct)
  case (1 f i j)
  note mono = "1.prems"(5)
  show ?case
  proof (cases "i < j")
    case False
    with "1.prems"(1) have "searchLoop f i j = j" "i = j" by (auto simp: searchLoop.simps)
    with "1.prems"(2-4) show ?thesis using not_le by auto
  next
    case True
    define h where "h = (i + j) div 2"
    have h: "i \<le> h" "h < j" using True by (auto simp: h_def)
    show ?thesis
    proof (cases "f h")
      case True
      have "\<forall>k < n. h \<le> k \<longrightarrow> f k" using mono True by blast
      then have "searchLoop f i h \<le> n \<and> (\<forall>k < n. f k \<longleftrightarrow> searchLoop f i h \<le> k)"
        using h(1,2) "1.prems"(2,3) mono by (intro "1.IH"(2) [OF \<open>i < j\<close> h_def]) (use True in simp_all)
      then show ?thesis using True \<open>i < j\<close> by (simp add: searchLoop.simps [of f i j] Let_def h_def [symmetric])
    next
      case False
      have "\<not> f k" if "k < h + 1" for k using mono [rule_format, of k h] False h(2) "1.prems"(2) that by auto
      then have "searchLoop f (h + 1) j \<le> n \<and> (\<forall>k < n. f k \<longleftrightarrow> searchLoop f (h + 1) j \<le> k)"
        using h(2) "1.prems"(2,4) mono by (intro "1.IH"(1) [OF \<open>i < j\<close> h_def False]) simp_all
      then show ?thesis using False \<open>i < j\<close> by (simp add: searchLoop.simps [of f i j] Let_def h_def [symmetric])
    qed
  qed
qed

lemma Search_first:
  assumes "\<forall>a b. a \<le> b \<longrightarrow> b < n \<longrightarrow> f a \<longrightarrow> f b"
  shows "Search n f \<le> n \<and> (\<forall>k < n. f k \<longleftrightarrow> Search n f \<le> k)"
  unfolding Search_def by (rule searchLoop_first) (use assms in auto)

subsection \<open>A chunked source over an exact layout reads like memory\<close>

definition offsets :: "string list \<Rightarrow> int list" where
  "offsets blocks = map (\<lambda>i. int (length (concat (take i blocks)))) [0 ..< length blocks + 1]"

lemma offsets_nth: "i \<le> length blocks \<Longrightarrow> offsets blocks ! i = int (length (concat (take i blocks)))"
  by (simp add: offsets_def del: upt_Suc)

lemma concat_take_mono: "i \<le> j \<Longrightarrow> length (concat (take i blocks)) \<le> length (concat (take j blocks))"
  by (metis concat_append le_add1 length_append take_add le_Suc_ex)

lemma readLoop_exact:
  assumes f: "\<forall>i < length blocks. ch_fetch c (chunks c ! i) = Inr (blocks ! i)"
    and st: "starts c = offsets blocks" and cx: "\<forall>i. cx i = None" and off: "0 \<le> off" "in_int64 off"
    and "i \<le> length blocks" and "got = take want (drop (nat off) (concat (take i blocks)))"
  shows "readLoop c cx off want got [i ..< length blocks] = readLoop c cx off want (take want (drop (nat off) (concat blocks))) []"
  using assms(6,7)
proof (induction "length blocks - i" arbitrary: i got)
  case 0
  then show ?case by simp
next
  case (Suc m)
  then have i: "i < length blocks" and u: "[i ..< length blocks] = i # [Suc i ..< length blocks]" by (auto simp: upt_conv_Cons)
  let ?pre = "concat (take i blocks)" and ?data = "blocks ! i"
  have cat: "concat (take (Suc i) blocks) = ?pre @ ?data" using i by (simp add: take_Suc_conv_app_nth)
  let ?skip = "if off > starts c ! i then wrap64 (off - starts c ! i) else 0"
  have s: "starts c ! i = int (length ?pre)" using st i by (simp add: offsets_nth)
  then have skip: "?skip = int (nat off - length ?pre)"
    using off by (auto simp: in_int64_def MaxInt64_def MinInt64_def intro!: wrap64_id)
  have nxt: "take want (drop (nat off) (?pre @ ?data)) = got @ take (want - length got) (drop (nat off - length ?pre) ?data)"
    using Suc.prems(2) by (simp add: min_def)
  show ?case
  proof (cases "length got < want")
    case False
    then have full: "length got = want" using Suc.prems(2) by simp
    have "concat blocks = ?pre @ concat (drop i blocks)" by (metis append_take_drop_id concat_append)
    then have "take want (drop (nat off) (concat blocks)) = got" using Suc.prems(2) full by simp
    with full show ?thesis by (simp add: u)
  next
    case True
    have "readLoop c cx off want (got @ take (want - length got) (drop (nat off - length ?pre) ?data)) [Suc i ..< length blocks] =
        readLoop c cx off want (take want (drop (nat off) (concat blocks))) []"
      using Suc.hyps(2) i by (intro Suc.hyps(1)) (simp_all add: cat nxt del: drop_append take_append)
    then show ?thesis using True f i cx skip by (auto simp: u Let_def)
  qed
qed

text \<open>C35: positioned reads over chunks are reads of the whole. When the start table of a source accepted by
  \<open>NewChunked\<close> is exact for the decoded chunks, the context lives and every fetch succeeds, a read at any offset
  and of any length returns exactly the bytes and the error that reading the concatenated chunks from
  memory would: nothing is skipped, repeated or made up, whatever the chunk sizes, empty ones included.\<close>

theorem chunked_read_refines_memory:
  assumes "NewChunked key cs (offsets blocks) sz caps (Some f) = Inr c"
    and "\<forall>i < length cs. f (cs ! i) = Inr (blocks ! i)" and "\<forall>i. cx i = None" and "in_int64 off"
  shows "chunked_ReadAt c cx off want = mem_ReadAt (concat blocks) None off want"
proof -
  have c: "chunks c = cs" "starts c = offsets blocks" "ch_fetch c = f" "length blocks = length cs"
    using assms(1) by (auto simp: NewChunked_def offsets_def split: if_splits)
  have last: "starts c ! length cs = int (length (concat blocks))" using c by (simp add: offsets_nth)
  let ?f = "\<lambda>i. starts c ! (i + 1) > off"
  have "\<forall>a b. a \<le> b \<longrightarrow> b < length cs \<longrightarrow> ?f a \<longrightarrow> ?f b"
  proof (intro allI impI)
    fix a b assume "a \<le> b" "b < length cs" "starts c ! (a + 1) > off"
    then show "starts c ! (b + 1) > off"
      using c concat_take_mono [of "a + 1" "b + 1" blocks] by (simp add: offsets_nth)
  qed
  note lo = Search_first [OF this]
  define lo where "lo = Search (length cs) ?f"
  have le: "lo \<le> length cs" using lo by (simp add: lo_def)
  have "length (concat (take lo blocks)) \<le> nat off" if "0 \<le> off"
  proof (cases lo)
    case (Suc m)
    then have "\<not> ?f m" using lo le by (auto simp: lo_def)
    with Suc le c that show ?thesis by (simp add: offsets_nth)
  qed simp
  then have "readLoop c cx off want [] [lo ..< length cs] = readLoop c cx off want (take want (drop (nat off) (concat blocks))) []"
    if "0 \<le> off"
    using readLoop_exact [of blocks c cx off lo "[]" want] assms(2-4) c le that by simp
  then show ?thesis
    using assms(3) c(1) last by (auto simp: chunked_ReadAt_def mem_ReadAt_def Let_def lo_def)
qed

theorem chunked_read_refines_memory_witness:
  "\<exists>c. NewChunked ''k'' [\<lparr>Index = 0, Chunk_Key = ''a'', DeclaredSize = 3\<rparr>, \<lparr>Index = 1, Chunk_Key = ''b'', DeclaredSize = 2\<rparr>]
      [0, 3, 5] 5 \<lparr>RangeSupport = True, ExactSize = True, TailCost_of = TailCostSegmented, Alignment = 0\<rparr>
      (Some (\<lambda>c. if Index c = 0 then Inr ''abc'' else Inr ''de'')) = Inr c \<and>
    chunked_ReadAt c (\<lambda>_. None) 2 2 = (''cd'', None)"
proof -
  let ?f = "\<lambda>c. if Index c = 0 then Inr ''abc'' else Inr ''de''"
  let ?cs = "[\<lparr>Index = 0, Chunk_Key = ''a'', DeclaredSize = 3\<rparr>, \<lparr>Index = 1, Chunk_Key = ''b'', DeclaredSize = 2\<rparr>]"
  let ?caps = "\<lparr>RangeSupport = True, ExactSize = True, TailCost_of = TailCostSegmented, Alignment = 0\<rparr>"
  have o: "offsets [''abc'', ''de''] = [0, 3, 5]" by code_simp
  obtain c where c: "NewChunked ''k'' ?cs (offsets [''abc'', ''de'']) 5 ?caps (Some ?f) = Inr c"
    unfolding o by (simp add: NewChunked_def)
  have "chunked_ReadAt c (\<lambda>_. None) 2 2 = mem_ReadAt (concat [''abc'', ''de'']) None 2 2"
    by (rule chunked_read_refines_memory [OF c])
      (auto simp: less_Suc_eq in_int64_def MaxInt64_def MinInt64_def)
  also have "\<dots> = (''cd'', None)" by code_simp
  finally show ?thesis using c unfolding o by blast
qed

end
