(* ===== verification/ProofLanes.thy ===== *)
theory ProofLanes
  imports Convergence ByteSources
begin

section \<open>The continuity ledger and the mapping of HTTP representations\<close>

text \<open>
  Models \<open>internal/contentproof/continuity.go\<close> and \<open>httpmapping.go\<close>. The readings of the context's
  error and of the clock within one call are sequences (\<open>cx i\<close>, \<open>clk i\<close> for the \<open>i\<close>-th check or
  reading), so a context may end and the clock may move between any two of them. Hash functions
  are arguments. Operations that can fail after a write return the state beside the result.
\<close>

subsection \<open>The continuity ledger\<close>

text \<open>\<open>cr_proofs\<close> is the same object seen through \<open>ListContentProofs\<close> and the optional alias lookup.\<close>

record 'r ContinuityRepository =
  cr_proofs :: "'r Repository"
  cr_latest :: "'r \<Rightarrow> string \<Rightarrow> int \<Rightarrow> int \<Rightarrow> (go_error, ContinuityEntry option) result"
  cr_append :: "'r \<Rightarrow> ContinuityEntry \<Rightarrow> int \<Rightarrow> (go_error, 'r) result"
  cr_list :: "'r \<Rightarrow> string \<Rightarrow> (go_error, ContinuityEntry list) result"

record 'r Ledger =
  l_repo :: "'r ContinuityRepository"
  l_max :: int

definition NewLedger :: "'r ContinuityRepository \<Rightarrow> int \<Rightarrow> (go_error, 'r Ledger) result" where
  "NewLedger repo mx =
     (if mx < 0 then Inl (Plain ''contentproof: negative continuity limit'')
      else Inr \<lparr>l_repo = repo, l_max = (if mx = 0 then DefaultMaxProofsPerRepresentation else mx)\<rparr>)"

definition validateObservation :: "Observation \<Rightarrow> go_error option" where
  "validateObservation ob =
     (if \<not> validOpaqueID (o_rep ob) then Some (opaqueError ''representation'')
      else if o_offset ob < 0 \<or> o_length ob \<le> 0 \<or> o_offset ob > MaxInt64 - o_length ob
        then Some (Plain ''contentproof: invalid continuity span'')
      else if length (o_digest ob) \<noteq> digestLength AlgorithmSHA256
        then Some (Plain ''contentproof: continuity digest must be SHA-256'')
      else None)"

fun latestLoop :: "'r ContinuityRepository \<Rightarrow> 'r \<Rightarrow> int \<Rightarrow> int \<Rightarrow> ContinuityEntry option \<Rightarrow> string list \<Rightarrow>
  (go_error, ContinuityEntry option) result" where
  "latestLoop repo r offset len latest [] = Inr latest"
| "latestLoop repo r offset len latest (a # as) =
     (case cr_latest repo r a offset len of
        Inl e \<Rightarrow> Inl e
      | Inr None \<Rightarrow> latestLoop repo r offset len latest as
      | Inr (Some c) \<Rightarrow>
          latestLoop repo r offset len
            (case latest of None \<Rightarrow> Some c | Some l \<Rightarrow> if ce_observed c > ce_observed l then Some c else Some l) as)"

fun relateLoop :: "ContinuityEntry \<Rightarrow> Evidence list \<Rightarrow> ContinuityEntry" where
  "relateLoop entry [] = entry"
| "relateLoop entry (p # ps) =
     (if Kind_of p \<noteq> KindAuthoritative \<or> Algorithm_of p \<noteq> AlgorithmSHA256 \<or>
         Offset p \<noteq> o_offset entry \<or> Length p \<noteq> o_length entry
      then relateLoop entry ps
      else
        (let e1 = entry\<lparr>ce_provenance := Provenance_of p\<rparr> in
         if \<not> equalBytes (Digest_of p) (o_digest entry) then e1\<lparr>ce_relation := ContinuityConflict\<rparr>
         else relateLoop (e1\<lparr>ce_relation := ContinuityAuthoritative\<rparr>) ps))"

definition Observe :: "'r Ledger \<Rightarrow> 'r \<Rightarrow> (nat \<Rightarrow> go_error option) \<Rightarrow> (nat \<Rightarrow> instant) \<Rightarrow> Observation \<Rightarrow>
  (go_error, ContinuityEntry \<times> 'r) result" where
  "Observe l r cx clk ob =
     (case cx 0 of
        Some e \<Rightarrow> Inl e
      | None \<Rightarrow>
      case validateObservation ob of
        Some e \<Rightarrow> Inl e
      | None \<Rightarrow>
      case cx 1 of
        Some e \<Rightarrow> Inl e
      | None \<Rightarrow>
      case representationAliases (cr_proofs (l_repo l)) r (o_rep ob) of
        Inl e \<Rightarrow> Inl e
      | Inr (aliases, _) \<Rightarrow>
      case latestLoop (l_repo l) r (o_offset ob) (o_length ob) None aliases of
        Inl e \<Rightarrow> Inl e
      | Inr latest \<Rightarrow>
      case ListProofs (cr_proofs (l_repo l)) r aliases (clk 1) of
        Inl e \<Rightarrow> Inl e
      | Inr proofs \<Rightarrow>
          (let entry = relateLoop \<lparr>o_rep = o_rep ob, o_offset = o_offset ob, o_length = o_length ob, o_digest = o_digest ob,
                 ce_relation = ContinuityTOFU, ce_provenance = noProvenance,
                 Mutation = (case latest of None \<Rightarrow> False | Some x \<Rightarrow> \<not> equalBytes (o_digest x) (o_digest ob)),
                 ce_observed = clk 0\<rparr> proofs
           in case cr_append (l_repo l) r entry (l_max l) of Inl e \<Rightarrow> Inl e | Inr r' \<Rightarrow> Inr (entry, r')))"

fun historyLoop :: "'r ContinuityRepository \<Rightarrow> 'r \<Rightarrow> ContinuityEntry list \<Rightarrow> string list \<Rightarrow> (go_error, ContinuityEntry list) result" where
  "historyLoop repo r acc [] = Inr acc"
| "historyLoop repo r acc (a # as) =
     (case cr_list repo r a of Inl e \<Rightarrow> Inl e | Inr es \<Rightarrow> historyLoop repo r (acc @ es) as)"

definition History :: "'r Ledger \<Rightarrow> 'r \<Rightarrow> go_error option \<Rightarrow> string \<Rightarrow> (go_error, ContinuityEntry list) result" where
  "History l r cx rid =
     (case cx of
        Some e \<Rightarrow> Inl e
      | None \<Rightarrow>
          if \<not> validOpaqueID rid then Inl (opaqueError ''representation'')
          else case representationAliases (cr_proofs (l_repo l)) r rid of
            Inl e \<Rightarrow> Inl e
          | Inr (aliases, _) \<Rightarrow>
              (case historyLoop (l_repo l) r [] aliases of
                 Inl e \<Rightarrow> Inl e
               | Inr h \<Rightarrow> Inr (sortStable (\<lambda>a b. ce_observed a < ce_observed b) h)))"

definition store_continuity :: "proof_db ContinuityRepository" where
  "store_continuity = \<lparr>cr_proofs = store_proofs, cr_latest = LatestContinuity, cr_append = AppendContinuity, cr_list = ListContinuity\<rparr>"

subsection \<open>What the ledger records\<close>

definition exactSpan :: "Observation \<Rightarrow> Evidence \<Rightarrow> bool" where
  "exactSpan ob p \<longleftrightarrow> Kind_of p = KindAuthoritative \<and> Algorithm_of p = AlgorithmSHA256 \<and>
     Offset p = o_offset ob \<and> Length p = o_length ob"

lemma relateLoop_frame:
  "o_rep (relateLoop e ps) = o_rep e" "o_offset (relateLoop e ps) = o_offset e" "o_length (relateLoop e ps) = o_length e"
  "o_digest (relateLoop e ps) = o_digest e" "Mutation (relateLoop e ps) = Mutation e" "ce_observed (relateLoop e ps) = ce_observed e"
  by (induction e ps rule: relateLoop.induct) (auto simp: Let_def)

lemma relateLoop_relation:
  "ce_relation (relateLoop e ps) =
     (if \<exists>p \<in> set ps. exactSpan (Observation.truncate e) p \<and> Digest_of p \<noteq> o_digest e then ContinuityConflict
      else if \<exists>p \<in> set ps. exactSpan (Observation.truncate e) p then ContinuityAuthoritative
      else ce_relation e)"
proof (induction e ps rule: relateLoop.induct)
  case (1 e)
  then show ?case by simp
next
  case (2 e p ps)
  show ?case
  proof (cases "exactSpan (Observation.truncate e) p")
    case False
    then have "relateLoop e (p # ps) = relateLoop e ps"
      by (auto simp: exactSpan_def Observation.truncate_def)
    with 2(1) False show ?thesis by (auto simp: exactSpan_def Observation.truncate_def)
  next
    case True
    with 2(2) [OF _ refl] show ?thesis
      by (auto simp: exactSpan_def Observation.truncate_def Let_def equalBytes_iff)
  qed
qed

definition seen :: "proof_db \<Rightarrow> string list \<Rightarrow> Observation \<Rightarrow> ContinuityEntry \<Rightarrow> bool" where
  "seen db ids ob x \<longleftrightarrow> (\<exists>i. (i, x) \<in> set (continuity db)) \<and> o_rep x \<in> set ids \<and> o_offset x = o_offset ob \<and> o_length x = o_length ob"

lemma LatestContinuity_cases:
  assumes "LatestContinuity db a offset len = Inr res"
  shows "case res of None \<Rightarrow> \<forall>(i, x) \<in> set (continuity db). \<not> same_span a offset len x
    | Some x \<Rightarrow> (\<exists>i. (i, x) \<in> set (continuity db)) \<and> same_span a offset len x"
proof -
  define sel where "sel = filter (\<lambda>(i, x). same_span a offset len x) (continuity db)"
  have res: "res = (if by_observed ce_observed sel = [] then None else Some (snd (last (by_observed ce_observed sel))))"
    using assms by (auto simp: LatestContinuity_def Let_def sel_def split: if_splits)
  have nil: "by_observed ce_observed sel = [] \<longleftrightarrow> sel = []"
    by (metis length_0_conv length_by_observed)
  show ?thesis
  proof (cases "sel = []")
    case True
    with res nil show ?thesis by (auto simp: sel_def filter_empty_conv)
  next
    case False
    with nil last_in_set [of "by_observed ce_observed sel"] have "last (by_observed ce_observed sel) \<in> set sel" by simp
    then obtain i x where "last (by_observed ce_observed sel) = (i, x)" "(i, x) \<in> set sel" by (metis prod.collapse)
    with res nil False show ?thesis by (auto simp: sel_def)
  qed
qed

lemma latestLoop_seen:
  assumes "latestLoop store_continuity db (o_offset ob) (o_length ob) latest as = Inr res"
    and "\<And>x. latest = Some x \<Longrightarrow> seen db all_ids ob x" and "set as \<subseteq> set all_ids"
  shows "(\<forall>x. res = Some x \<longrightarrow> seen db all_ids ob x) \<and>
    (res = None \<longrightarrow> latest = None \<and> (\<forall>x. \<not> seen db as ob x))"
  using assms
proof (induction as arbitrary: latest)
  case Nil
  then show ?case by (auto simp: seen_def)
next
  case (Cons a as)
  obtain c where c: "LatestContinuity db a (o_offset ob) (o_length ob) = Inr c"
    by (simp add: LatestContinuity_def Let_def)
  note cc = LatestContinuity_cases [OF c]
  show ?case
  proof (cases c)
    case None
    with Cons.prems(1) c have "latestLoop store_continuity db (o_offset ob) (o_length ob) latest as = Inr res"
      by (simp add: store_continuity_def)
    with Cons.IH [OF this Cons.prems(2)] Cons.prems(3) cc None show ?thesis
      by (fastforce simp: seen_def same_span_def)
  next
    case (Some y)
    define l2 where "l2 = (case latest of None \<Rightarrow> Some y | Some l \<Rightarrow> if ce_observed y > ce_observed l then Some y else Some l)"
    have l2: "latestLoop store_continuity db (o_offset ob) (o_length ob) l2 as = Inr res"
      using Cons.prems(1) c Some by (simp add: store_continuity_def l2_def)
    have "seen db all_ids ob y" using cc Some Cons.prems(3) by (auto simp: seen_def same_span_def)
    then have "seen db all_ids ob x" if "l2 = Some x" for x
      using that Cons.prems(2) by (auto simp: l2_def split: option.splits if_splits)
    moreover have "l2 \<noteq> None" by (simp add: l2_def split: option.splits)
    ultimately show ?thesis using Cons.IH [OF l2] Cons.prems(3) by auto
  qed
qed

text \<open>C32: the ledger tells trusted bytes from first-seen bytes and never loses a contradiction. A recorded
  observation is a conflict iff an authoritative SHA-256 assertion for exactly its span, on any alias
  of its representation, has another digest; authoritative iff there is one and all agree; and
  trust-on-first-use iff there is none. It is marked as a mutation only if an earlier entry for that
  span had another digest, and it is whenever all earlier ones had. The history of the
  representation stays within its bound.\<close>

theorem ledger_observe_decides:
  assumes "Observe \<lparr>l_repo = store_continuity, l_max = mx\<rparr> db cx clk ob = Inr (entry, db')"
    and "distinct (map fst (continuity db))" and "0 < mx"
  shows "\<exists>ids sz evs. representationAliases store_proofs db (o_rep ob) = Inr (ids, sz) \<and> ListContentProofs db ids (clk 1) = Inr evs \<and>
    (ce_relation entry = ContinuityConflict \<longleftrightarrow> (\<exists>p \<in> set evs. exactSpan ob p \<and> Digest_of p \<noteq> o_digest ob)) \<and>
    (ce_relation entry = ContinuityAuthoritative \<longleftrightarrow>
       (\<exists>p \<in> set evs. exactSpan ob p) \<and> (\<forall>p \<in> set evs. exactSpan ob p \<longrightarrow> Digest_of p = o_digest ob)) \<and>
    (Mutation entry \<longrightarrow> (\<exists>x. seen db ids ob x \<and> o_digest x \<noteq> o_digest ob)) \<and>
    ((\<exists>x. seen db ids ob x) \<and> (\<forall>x. seen db ids ob x \<longrightarrow> o_digest x \<noteq> o_digest ob) \<longrightarrow> Mutation entry) \<and>
    o_digest entry = o_digest ob \<and> o_rep entry = o_rep ob \<and>
    length (filter (\<lambda>(i, x). o_rep x = o_rep ob) (continuity db')) \<le> nat mx"
proof -
  obtain ids sz latest evs where al: "representationAliases store_proofs db (o_rep ob) = Inr (ids, sz)"
    and lt: "latestLoop store_continuity db (o_offset ob) (o_length ob) None ids = Inr latest"
    and evs: "ListContentProofs db ids (clk 1) = Inr evs"
    and e: "entry = relateLoop \<lparr>o_rep = o_rep ob, o_offset = o_offset ob, o_length = o_length ob, o_digest = o_digest ob,
                 ce_relation = ContinuityTOFU, ce_provenance = noProvenance,
                 Mutation = (case latest of None \<Rightarrow> False | Some x \<Rightarrow> \<not> equalBytes (o_digest x) (o_digest ob)),
                 ce_observed = clk 0\<rparr> evs"
    and app: "AppendContinuity db entry mx = Inr db'"
    using assms(1) by (auto simp: Observe_def Let_def store_continuity_def [THEN arg_cong [where f = cr_proofs]]
        store_continuity_def [THEN arg_cong [where f = cr_append]] store_proofs_def [THEN arg_cong [where f = ListProofs]]
        split: option.splits sum.splits)
  note fr = relateLoop_frame [of _ evs, folded e]
  have sp: "exactSpan (Observation.truncate \<lparr>o_rep = o_rep ob, o_offset = o_offset ob, o_length = o_length ob, o_digest = o_digest ob,
      ce_relation = ContinuityTOFU, ce_provenance = noProvenance, Mutation = m, ce_observed = t\<rparr>) = exactSpan ob" for m t
    by (simp add: exactSpan_def Observation.truncate_def fun_eq_iff)
  have rel: "ce_relation entry = (if \<exists>p \<in> set evs. exactSpan ob p \<and> Digest_of p \<noteq> o_digest ob then ContinuityConflict
      else if \<exists>p \<in> set evs. exactSpan ob p then ContinuityAuthoritative else ContinuityTOFU)"
    unfolding e relateLoop_relation sp by simp
  have mut: "Mutation entry = (case latest of None \<Rightarrow> False | Some x \<Rightarrow> o_digest x \<noteq> o_digest ob)"
    "o_digest entry = o_digest ob" "o_rep entry = o_rep ob"
    by (auto simp: e relateLoop_frame equalBytes_iff split: option.splits)
  have sn: "(\<forall>x. latest = Some x \<longrightarrow> seen db ids ob x) \<and> (latest = None \<longrightarrow> (\<forall>x. \<not> seen db ids ob x))"
    using latestLoop_seen [OF lt, of ids] by auto
  have "distinct (map fst (continuity db @ [(next_id (continuity db), entry)]))"
    using assms(2) next_id_fresh [of "continuity db"] by auto
  then have "length (filter (\<lambda>(i, x). o_rep x = o_rep ob) (continuity db')) \<le> nat mx"
    using keep_newest_bound [where t = "continuity db @ [(next_id (continuity db), entry)]" and limit = mx and ob = ce_observed
        and sel = "\<lambda>x. o_rep x = o_rep ob"] app assms(3) mut(3) by (auto simp: AppendContinuity_def)
  moreover have "Mutation entry \<longrightarrow> (\<exists>x. seen db ids ob x \<and> o_digest x \<noteq> o_digest ob)"
    "(\<exists>x. seen db ids ob x) \<and> (\<forall>x. seen db ids ob x \<longrightarrow> o_digest x \<noteq> o_digest ob) \<longrightarrow> Mutation entry"
    using sn mut(1) by (auto split: option.splits)
  ultimately show ?thesis
    using al evs rel mut(2,3) by (intro exI [of _ ids] exI [of _ sz] exI [of _ evs]) auto
qed

definition demo_sha :: "char \<Rightarrow> Evidence" where
  "demo_sha c = (demo_evidence ''a'' c)\<lparr>Algorithm_of := AlgorithmSHA256, Digest_of := replicate 32 c, Provenance_of := ProvenanceTorrentMerkle\<rparr>"

theorem ledger_observe_decides_witness:
  "\<exists>entry db'. Observe \<lparr>l_repo = store_continuity, l_max = 4\<rparr> (empty_db\<lparr>content_proofs := [(1, demo_sha CHR ''x'')]\<rparr>) (\<lambda>_. None) (\<lambda>_. 5)
      \<lparr>o_rep = ''a'', o_offset = 0, o_length = 4, o_digest = replicate 32 (CHR ''y'')\<rparr> = Inr (entry, db') \<and>
    \<not> Mutation entry \<and> length (filter (\<lambda>(i, x). o_rep x = ''a'') (continuity db')) \<le> 4"
proof -
  let ?db = "empty_db\<lparr>content_proofs := [(1, demo_sha CHR ''x'')]\<rparr>"
  let ?ob = "\<lparr>o_rep = ''a'', o_offset = 0, o_length = 4, o_digest = replicate 32 (CHR ''y'')\<rparr>"
  let ?o = "Observe \<lparr>l_repo = store_continuity, l_max = 4\<rparr> ?db (\<lambda>_. None) (\<lambda>_. 5) ?ob"
  have "\<not> isl ?o" by code_simp
  then obtain entry db' where o: "?o = Inr (entry, db')" by (metis prod.collapse sum.collapse(2))
  have d: "distinct (map fst (continuity ?db))" and none: "\<not> seen ?db ids ?ob x" for ids x
    by (simp_all add: empty_db_def seen_def)
  with ledger_observe_decides [OF o d] o show ?thesis by auto
qed

subsection \<open>Mapping an HTTP representation\<close>

definition MaxMappingProofBytes :: int where "MaxMappingProofBytes = 64 * 2 ^ 20"

definition ProofMatchesLane :: "Lane \<Rightarrow> Provenance \<Rightarrow> bool" where
  "ProofMatchesLane lane p =
     (case lane of
        LaneTorrent \<Rightarrow> p = ProvenanceTorrentPiece \<or> p = ProvenanceTorrentMerkle
      | LaneNNTP \<Rightarrow> p = ProvenancePAR2IFSC
      | LaneHTTP \<Rightarrow> p = ProvenanceIADigest \<or> p = ProvenanceHTTPDigest \<or> p = ProvenanceMetalink
      | OtherLane _ \<Rightarrow> False)"

record hashes =
  md5 :: "string \<Rightarrow> string"
  sha1 :: "string \<Rightarrow> string"
  sha2 :: "string \<Rightarrow> string"

text \<open>The loop of \<open>Digest\<close>: the bytes written to the hash, in chunks; \<open>cx\<close> is read before each.\<close>

definition chunkSize :: nat where "chunkSize = 65536"

function writeChunks :: "(nat \<Rightarrow> go_error option) \<Rightarrow> nat \<Rightarrow> string \<Rightarrow> string \<Rightarrow> (go_error, string) result" where
  "writeChunks cx offset written data =
     (if offset \<ge> length data then Inr written
      else case cx offset of
        Some e \<Rightarrow> Inl e
      | None \<Rightarrow>
          (let stop = (if offset + chunkSize > length data then length data else offset + chunkSize)
           in writeChunks cx (offset + chunkSize) (written @ take (stop - offset) (drop offset data)) data))"
  by pat_completeness auto
termination
  by (relation "measure (\<lambda>(cx, offset, written, data). length data - offset)") (auto simp: chunkSize_def)

declare writeChunks.simps [simp del]

definition Digest :: "hashes \<Rightarrow> (nat \<Rightarrow> go_error option) \<Rightarrow> Algorithm \<Rightarrow> string \<Rightarrow> (go_error, string) result" where
  "Digest hs cx algorithm data =
     (case (case algorithm of AlgorithmMD5 \<Rightarrow> Some (md5 hs) | AlgorithmSHA1 \<Rightarrow> Some (sha1 hs) | AlgorithmSHA256 \<Rightarrow> Some (sha2 hs) | _ \<Rightarrow> None) of
        None \<Rightarrow> Inl (Plain ''contentproof: unsupported mapping algorithm'')
      | Some h \<Rightarrow> (case writeChunks cx 0 [] data of Inl e \<Rightarrow> Inl e | Inr w \<Rightarrow> Inr (h w)))"

lemma writeChunks_all:
  assumes "writeChunks cx offset written data = Inr w" and "written = take offset data"
  shows "w = data"
  using assms
proof (induction cx offset written data rule: writeChunks.induct)
  case (1 cx offset written data)
  show ?case
  proof (cases "offset \<ge> length data")
    case True
    with 1(2,3) show ?thesis by (simp add: writeChunks.simps [of cx offset])
  next
    case False
    then have cx: "cx offset = None" using 1(2) by (auto simp: writeChunks.simps [of cx offset] split: option.splits)
    let ?stop = "if offset + chunkSize > length data then length data else offset + chunkSize"
    have "written @ take (?stop - offset) (drop offset data) = take (offset + chunkSize) data"
      using False 1(3) by (auto simp: take_add)
    moreover have "writeChunks cx (offset + chunkSize) (written @ take (?stop - offset) (drop offset data)) data = Inr w"
      using 1(2) False cx by (simp add: writeChunks.simps [of cx offset] Let_def)
    ultimately show ?thesis using 1(1) [OF False cx refl] by blast
  qed
qed

text \<open>\<open>h\<close> is called with the whole content, whatever the chunks.\<close>

lemma Digest_whole:
  assumes "Digest hs cx algorithm data = Inr d"
  shows "(algorithm = AlgorithmMD5 \<and> d = md5 hs data) \<or> (algorithm = AlgorithmSHA1 \<and> d = sha1 hs data) \<or>
    (algorithm = AlgorithmSHA256 \<and> d = sha2 hs data)"
  using assms writeChunks_all [of cx 0 "[]" data]
  by (auto simp: Digest_def split: Algorithm.splits sum.splits option.splits)

text \<open>
  Reading and hashing the candidate's bytes: \<open>Inr None\<close> is "no proof" (the source cannot serve the
  exact span).
\<close>

definition readDigest :: "hashes \<Rightarrow> (nat \<Rightarrow> go_error option) \<Rightarrow> go_error option \<Rightarrow> (string \<Rightarrow> (go_error, string) result) option \<Rightarrow>
  ByteSource option \<Rightarrow> int \<Rightarrow> Evidence \<Rightarrow> (go_error, string option) result" where
  "readDigest hs hcx cx candidateDigest source sz proof =
     (case source of
        None \<Rightarrow> Inr None
      | Some src \<Rightarrow>
          if \<not> RangeSupport src \<or> \<not> ExactSize src \<or> src_size src \<noteq> sz \<or> Length proof > MaxMappingProofBytes then Inr None
          else case ReadAt src (Offset proof) (nat (Length proof)) of (data, err) \<Rightarrow>
            if err \<noteq> None \<or> length data \<noteq> nat (Length proof)
            then (case cx of Some e \<Rightarrow> Inl e | None \<Rightarrow> Inr None)
            else (case (case candidateDigest of None \<Rightarrow> Digest hs hcx (Algorithm_of proof) data | Some f \<Rightarrow> f data) of
                    Inl e \<Rightarrow> Inl e
                  | Inr d \<Rightarrow> Inr (Some d)))"

text \<open>The checks before the graph is consulted: \<open>Inl\<close> an early return, \<open>Inr\<close> the dated proof.\<close>

definition admitMapping :: "unicode \<Rightarrow> (nat \<Rightarrow> go_error option) \<Rightarrow> (nat \<Rightarrow> instant) \<Rightarrow> LaneCandidate \<Rightarrow> LaneCandidate \<Rightarrow> Evidence \<Rightarrow>
  (go_error, Decision) result + Evidence" where
  "admitMapping u cx clk httpC proofC proof =
     (let noProof = undecided (Offset proof) (Length proof) in
      case cx 0 of
        Some e \<Rightarrow> Inl (Inl e)
      | None \<Rightarrow>
      case validateLaneCandidate u httpC of
        Some e \<Rightarrow> Inl (Inl e)
      | None \<Rightarrow>
      case validateLaneCandidate u proofC of
        Some e \<Rightarrow> Inl (Inl e)
      | None \<Rightarrow>
        if Lane_of httpC \<noteq> LaneHTTP then Inl (Inl (Plain ''contentproof: mapping source is not HTTP''))
        else if ReleaseKey_of httpC \<noteq> ReleaseKey_of proofC \<or> Size httpC \<noteq> Size proofC then Inl (Inr noProof)
        else if RepresentationID proof \<noteq> c_rep proofC \<or> Kind_of proof \<noteq> KindAuthoritative
          then Inl (Inl (Plain ''contentproof: proof does not belong to candidate''))
        else
          (let p = (if ObservedAt proof = zeroTime then proof\<lparr>ObservedAt := clk 0\<rparr> else proof) in
           case validateEvidence p of
             Some e \<Rightarrow> Inl (Inl e)
           | None \<Rightarrow>
               if \<not> ProofMatchesLane (Lane_of proofC) (Provenance_of p)
                 then Inl (Inl (Plain ''contentproof: proof provenance does not match candidate lane''))
               else if Offset p > Size proofC \<or> Length p > Size proofC - Offset p
                 then Inl (Inl (Plain ''contentproof: proof exceeds candidate size''))
               else if (case ExpiresAt p of None \<Rightarrow> False | Some t \<Rightarrow> \<not> t > clk 1) then Inl (Inr noProof)
               else Inr p))"

definition verifyFor :: "'r Graph \<Rightarrow> 'r \<Rightarrow> go_error option \<Rightarrow> instant \<Rightarrow> string \<Rightarrow> Evidence \<Rightarrow> string \<Rightarrow> (go_error, Decision) result" where
  "verifyFor g r cx now rid p digest = VerifyDigest g r cx now rid (Scope_of p) (Offset p) (Length p) (Algorithm_of p) digest"

text \<open>The second half: verify the candidate's digest, record it for the HTTP representation, compare.\<close>

definition recordHTTP :: "'r Graph \<Rightarrow> 'r \<Rightarrow> (nat \<Rightarrow> go_error option) \<Rightarrow> (nat \<Rightarrow> instant) \<Rightarrow> LaneCandidate \<Rightarrow> LaneCandidate \<Rightarrow> Evidence \<Rightarrow> string \<Rightarrow>
  (go_error, Decision) result \<times> 'r" where
  "recordHTTP g r cx clk httpC proofC p digest =
     (case verifyFor g r (cx 5) (clk 5) (c_rep proofC) p digest of
        Inl e \<Rightarrow> (Inl e, r)
      | Inr verified \<Rightarrow>
          if Relation_of verified \<noteq> RelationProven then (Inr verified, r)
          else
            (let httpProof = p\<lparr>RepresentationID := c_rep httpC, ObservedAt := clk 1\<rparr> in
             case verifyFor g r (cx 6) (clk 6) (c_rep httpC) p (Digest_of p) of
               Inl e \<Rightarrow> (Inl e, r)
             | Inr existing \<Rightarrow>
                 if Relation_of existing = RelationConflict then (Inr existing, r)
                 else
                   (case (if Relation_of existing = RelationNoProof then Record_proof g r (cx 7) (clk 7) httpProof else Inr r) of
                      Inl e \<Rightarrow> (Inl e, r)
                    | Inr r2 \<Rightarrow> (Compare g r2 (cx 8) (clk 8) (c_rep httpC) (c_rep proofC) (Offset p) (Length p), r2))))"

definition mapHTTPRepresentation :: "unicode \<Rightarrow> hashes \<Rightarrow> 'r Graph \<Rightarrow> 'r \<Rightarrow> (nat \<Rightarrow> go_error option) \<Rightarrow> (nat \<Rightarrow> go_error option) \<Rightarrow> (nat \<Rightarrow> instant) \<Rightarrow>
  ByteSource option \<Rightarrow> LaneCandidate \<Rightarrow> LaneCandidate \<Rightarrow> Evidence \<Rightarrow> (string \<Rightarrow> (go_error, string) result) option \<Rightarrow>
  (go_error, Decision) result \<times> 'r" where
  "mapHTTPRepresentation u hs g r cx hcx clk source httpC proofC proof candidateDigest =
     (let noProof = undecided (Offset proof) (Length proof) in
      case admitMapping u cx clk httpC proofC proof of
        Inl early \<Rightarrow> (early, r)
      | Inr p \<Rightarrow>
      case verifyFor g r (cx 1) (clk 2) (RepresentationID p) p (Digest_of p) of
        Inl e \<Rightarrow> (Inl e, r)
      | Inr native \<Rightarrow>
        if Relation_of native = RelationConflict then (Inr native, r)
        else
          (case (if Relation_of native = RelationNoProof then Record_proof g r (cx 2) (clk 3) p else Inr r) of
             Inl e \<Rightarrow> (Inl e, r)
           | Inr r1 \<Rightarrow>
          case Compare g r1 (cx 3) (clk 4) (c_rep httpC) (c_rep proofC) (Offset p) (Length p) of
             Inl e \<Rightarrow> (Inl e, r1)
           | Inr mapped \<Rightarrow>
               if Relation_of mapped \<noteq> RelationNoProof then (Inr mapped, r1)
               else case readDigest hs hcx (cx 4) candidateDigest source (Size httpC) p of
                 Inl e \<Rightarrow> (Inl e, r1)
               | Inr None \<Rightarrow> (Inr noProof, r1)
               | Inr (Some digest) \<Rightarrow> recordHTTP g r1 cx clk httpC proofC p digest))"

definition MapHTTPRepresentation :: "unicode \<Rightarrow> hashes \<Rightarrow> 'r Graph \<Rightarrow> 'r \<Rightarrow> (nat \<Rightarrow> go_error option) \<Rightarrow> (nat \<Rightarrow> go_error option) \<Rightarrow> (nat \<Rightarrow> instant) \<Rightarrow>
  ByteSource option \<Rightarrow> LaneCandidate \<Rightarrow> LaneCandidate \<Rightarrow> Evidence \<Rightarrow> (go_error, Decision) result \<times> 'r" where
  "MapHTTPRepresentation u hs g r cx hcx clk source httpC proofC proof =
     mapHTTPRepresentation u hs g r cx hcx clk source httpC proofC proof None"

definition MapHTTPRepresentationWithDigest :: "unicode \<Rightarrow> hashes \<Rightarrow> 'r Graph \<Rightarrow> 'r \<Rightarrow> (nat \<Rightarrow> go_error option) \<Rightarrow> (nat \<Rightarrow> go_error option) \<Rightarrow> (nat \<Rightarrow> instant) \<Rightarrow>
  ByteSource option \<Rightarrow> LaneCandidate \<Rightarrow> LaneCandidate \<Rightarrow> Evidence \<Rightarrow> (string \<Rightarrow> (go_error, string) result) option \<Rightarrow> (go_error, Decision) result \<times> 'r" where
  "MapHTTPRepresentationWithDigest u hs g r cx hcx clk source httpC proofC proof candidateDigest =
     (case candidateDigest of
        None \<Rightarrow> (Inl (Plain ''contentproof: nil native candidate digest''), r)
      | Some f \<Rightarrow> mapHTTPRepresentation u hs g r cx hcx clk source httpC proofC proof (Some f))"

subsection \<open>Only verified bytes are mapped\<close>

lemma admitMapping_ok:
  assumes "admitMapping u cx clk httpC proofC proof = Inr p"
  shows "p = (if ObservedAt proof = zeroTime then proof\<lparr>ObservedAt := clk 0\<rparr> else proof)" and "RepresentationID p = c_rep proofC"
    and "validateEvidence p = None" and "ObservedAt p \<noteq> zeroTime"
proof -
  show p: "p = (if ObservedAt proof = zeroTime then proof\<lparr>ObservedAt := clk 0\<rparr> else proof)" and v: "validateEvidence p = None"
    using assms by (auto simp: admitMapping_def Let_def split: option.splits if_splits)
  have "RepresentationID proof = c_rep proofC"
    using assms by (auto simp: admitMapping_def Let_def split: option.splits if_splits)
  then show "RepresentationID p = c_rep proofC" by (simp add: p)
  from v show "ObservedAt p \<noteq> zeroTime" by (auto simp: validateEvidence_def split: if_splits)
qed

lemma readDigest_Some:
  assumes "readDigest hs hcx cx f source sz p = Inr (Some d)"
  obtains src data where "source = Some src" and "ReadAt src (Offset p) (nat (Length p)) = (data, None)"
    and "length data = nat (Length p)" and "(case f of None \<Rightarrow> Digest hs hcx (Algorithm_of p) data | Some f \<Rightarrow> f data) = Inr d"
proof -
  from assms obtain src data err where s: "source = Some src" "ReadAt src (Offset p) (nat (Length p)) = (data, err)"
    by (cases source) (auto simp: readDigest_def split: prod.splits)
  with assms have "err = None" "length data = nat (Length p)"
    "(case f of None \<Rightarrow> Digest hs hcx (Algorithm_of p) data | Some f \<Rightarrow> f data) = Inr d"
    by (auto simp: readDigest_def split: if_splits option.splits sum.splits)
  with s show thesis by (intro that) auto
qed

context proof_repo
begin

lemma same_state_digest:
  assumes "VerifyDigest g r cx now rid scope offset len algorithm d1 = Inr v1" and "Relation_of v1 = RelationProven"
    and "VerifyDigest g r cx' now rid scope offset len algorithm d2 = Inr v2" and "Relation_of v2 = RelationProven"
  shows "d1 = d2"
proof -
  obtain ids sz evs where 1: "representationAliases (g_repo g) r rid = Inr (ids, sz)" "ListProofs (g_repo g) r ids now = Inr evs"
    "\<exists>p \<in> set evs. exact scope offset len algorithm p" "\<forall>p \<in> set evs. exact scope offset len algorithm p \<longrightarrow> Digest_of p = d1"
    using assms(2) by (rule_tac VerifyDigest_relation [OF assms(1)]) (auto split: if_splits)
  obtain ids' sz' evs' where 2: "representationAliases (g_repo g) r rid = Inr (ids', sz')" "ListProofs (g_repo g) r ids' now = Inr evs'"
    "\<forall>p \<in> set evs'. exact scope offset len algorithm p \<longrightarrow> Digest_of p = d2"
    using assms(4) by (rule_tac VerifyDigest_relation [OF assms(3)]) (auto split: if_splits)
  from 1 2 show ?thesis by auto
qed

lemma Record_other_representation:
  assumes "Record_proof \<lparr>g_repo = repo, g_max = mx\<rparr> r cx now e = Inr r'" and "RepresentationID e \<noteq> rid"
    and "ListProofs repo r [rid] now' = Inr evs" and "ListProofs repo r' [rid] now' = Inr evs'"
  shows "set evs' \<subseteq> set evs"
proof
  fix x assume x: "x \<in> set evs'"
  obtain e1 where up: "Upsert repo r e1 mx = Inr r'" and "RepresentationID e1 = RepresentationID e"
    using assms(1) by (auto simp: Record_proof_def Let_def split: option.splits if_splits)
  moreover have "RepresentationID x = rid" using list_rep [OF assms(4) x] by simp
  ultimately show "x \<in> set evs" using upsert_from [OF up assms(4,3) x] assms(2) by metis
qed

lemma mapHTTP_sound:
  assumes m: "mapHTTPRepresentation u hs \<lparr>g_repo = repo, g_max = mx\<rparr> r cx hcx clk source httpC proofC proof f = (res, r')"
    and ne: "c_rep httpC \<noteq> c_rep proofC" and nz: "clk 1 \<noteq> zeroTime"
    and evs: "ListProofs repo r [c_rep httpC] now = Inr evs" and evs': "ListProofs repo r' [c_rep httpC] now = Inr evs'"
    and x: "x \<in> set evs'" "x \<notin> set evs"
  shows "\<exists>src data digest r1 ids sz known. source = Some src \<and> ReadAt src (Offset proof) (nat (Length proof)) = (data, None) \<and>
    length data = nat (Length proof) \<and>
    (case f of None \<Rightarrow> Digest hs hcx (Algorithm_of proof) data | Some f \<Rightarrow> f data) = Inr digest \<and>
    (r1 = r \<or> (\<exists>p. RepresentationID p = c_rep proofC \<and> Record_proof \<lparr>g_repo = repo, g_max = mx\<rparr> r (cx 2) (clk 3) p = Inr r1)) \<and>
    representationAliases repo r1 (c_rep proofC) = Inr (ids, sz) \<and> ListProofs repo r1 ids (clk 5) = Inr known \<and>
    (\<exists>p \<in> set known. exact (Scope_of proof) (Offset proof) (Length proof) (Algorithm_of proof) p) \<and>
    (\<forall>p \<in> set known. exact (Scope_of proof) (Offset proof) (Length proof) (Algorithm_of proof) p \<longrightarrow> Digest_of p = digest) \<and>
    x = proof\<lparr>RepresentationID := c_rep httpC, ObservedAt := clk 1\<rparr> \<and>
    (clk 5 = clk 2 \<longrightarrow> digest = Digest_of x)"
proof -
  let ?g = "\<lparr>g_repo = repo, g_max = mx\<rparr>"
  have "r' \<noteq> r" using evs evs' x by auto
  then obtain p native where p: "admitMapping u cx clk httpC proofC proof = Inr p"
    and native: "verifyFor ?g r (cx 1) (clk 2) (RepresentationID p) p (Digest_of p) = Inr native" "Relation_of native \<noteq> RelationConflict"
    using m by (auto simp: mapHTTPRepresentation_def Let_def split: sum.splits if_splits)
  note pok = admitMapping_ok [OF p]
  obtain r1 where r1: "(if Relation_of native = RelationNoProof then Record_proof ?g r (cx 2) (clk 3) p else Inr r) = Inr r1"
    and m1: "r' = r1 \<or> (\<exists>digest. readDigest hs hcx (cx 4) f source (Size httpC) p = Inr (Some digest) \<and>
      recordHTTP ?g r1 cx clk httpC proofC p digest = (res, r'))"
    using m \<open>r' \<noteq> r\<close> native p
    by (auto simp: mapHTTPRepresentation_def Let_def split: sum.splits if_splits option.splits)
  obtain evs1 where evs1: "ListProofs repo r1 [c_rep httpC] now = Inr evs1" using list_ok by blast
  have x1: "x \<notin> set evs1"
  proof (cases "Relation_of native = RelationNoProof")
    case True
    with r1 have "Record_proof ?g r (cx 2) (clk 3) p = Inr r1" by simp
    from Record_other_representation [OF this _ evs evs1] pok(2) ne x(2) show ?thesis by auto
  qed (use r1 evs evs1 x(2) in auto)
  then have "r' \<noteq> r1" using evs1 evs' x by auto
  with m1 obtain digest where rd: "readDigest hs hcx (cx 4) f source (Size httpC) p = Inr (Some digest)"
    and rec: "recordHTTP ?g r1 cx clk httpC proofC p digest = (res, r')" by blast
  obtain verified where ver: "verifyFor ?g r1 (cx 5) (clk 5) (c_rep proofC) p digest = Inr verified" "Relation_of verified = RelationProven"
    and add: "Record_proof ?g r1 (cx 7) (clk 7) (p\<lparr>RepresentationID := c_rep httpC, ObservedAt := clk 1\<rparr>) = Inr r'"
    using rec \<open>r' \<noteq> r1\<close> by (auto simp: recordHTTP_def Let_def split: sum.splits if_splits)
  have "Upsert repo r1 (p\<lparr>RepresentationID := c_rep httpC, ObservedAt := clk 1\<rparr>) mx = Inr r'"
    using add nz by (auto simp: Record_proof_def Let_def split: option.splits)
  from upsert_from [OF this evs' evs1 x(1) x1] have xp: "x = p\<lparr>RepresentationID := c_rep httpC, ObservedAt := clk 1\<rparr>" .
  have same: "digest = Digest_of p" if "clk 5 = clk 2"
  proof (cases "Relation_of native")
    case RelationProven
    with r1 have "r1 = r" by simp
    with native ver pok(2) RelationProven that show ?thesis
      unfolding verifyFor_def by (metis same_state_digest)
  next
    case RelationNoProof
    with r1 have "Record_proof ?g r None (clk 3) p = Inr r1" by (cases "cx 2") (simp_all add: Record_proof_def)
    then have rp: "Record_proof ?g r None (clk 2) p = Inr r1" using pok(4) by (simp add: Record_proof_def)
    have "cx 1 = None" "cx 5 = None" using native ver by (auto simp: verifyFor_def VerifyDigest_def split: option.splits)
    with Record_adds_only [OF rp pok(4)] native ver pok(2) RelationNoProof that show ?thesis
      unfolding verifyFor_def by metis
  qed (use native in simp)
  have eqs: "Offset p = Offset proof" "Length p = Length proof" "Algorithm_of p = Algorithm_of proof" "Digest_of p = Digest_of proof"
    "Scope_of p = Scope_of proof" "x = proof\<lparr>RepresentationID := c_rep httpC, ObservedAt := clk 1\<rparr>"
    using pok(1) xp by (auto split: if_splits)
  obtain src data where sd: "source = Some src" "ReadAt src (Offset proof) (nat (Length proof)) = (data, None)" "length data = nat (Length proof)"
    "(case f of None \<Rightarrow> Digest hs hcx (Algorithm_of proof) data | Some f \<Rightarrow> f data) = Inr digest"
    using readDigest_Some [OF rd] eqs by metis
  obtain ids sz known where "representationAliases repo r1 (c_rep proofC) = Inr (ids, sz)" "ListProofs repo r1 ids (clk 5) = Inr known"
    "\<exists>p \<in> set known. exact (Scope_of proof) (Offset proof) (Length proof) (Algorithm_of proof) p"
    "\<forall>p \<in> set known. exact (Scope_of proof) (Offset proof) (Length proof) (Algorithm_of proof) p \<longrightarrow> Digest_of p = digest"
    using ver(2) eqs by (rule_tac VerifyDigest_relation [OF ver(1) [unfolded verifyFor_def]]) (auto split: if_splits)
  moreover have "r1 = r \<or> (\<exists>p. RepresentationID p = c_rep proofC \<and> Record_proof ?g r (cx 2) (clk 3) p = Inr r1)"
    using r1 pok(2) by (auto split: if_splits)
  ultimately show ?thesis using sd eqs(4,6) same
    by (intro exI [of _ src] exI [of _ data] exI [of _ digest] exI [of _ r1] exI [of _ ids] exI [of _ sz] exI [of _ known]) simp
qed

end


definition demo_source :: ByteSource where
  "demo_source = MemSource ''demo'' None ''ddddddd''"

lemma demo_read: "ReadAt demo_source 0 4 = (replicate 4 (CHR ''d''), None)"
  by code_simp

definition demo_hashes :: hashes where
  "demo_hashes = \<lparr>md5 = (\<lambda>m. take 16 (m @ replicate 16 (CHR ''0''))), sha1 = (\<lambda>m. take 20 (m @ replicate 20 (CHR ''0''))), sha2 = fit32\<rparr>"

definition demo_par2 :: Evidence where
  "demo_par2 = (demo_evidence ''b'' CHR ''x'')\<lparr>Digest_of := ''dddd'' @ replicate 12 (CHR ''0'')\<rparr>"


end
