(* ===== verification/CrossLane.thy ===== *)
theory CrossLane
  imports Ladder ProofLanes
begin

section \<open>Proof-gated recovery across lanes\<close>

text \<open>
  Models \<open>internal/crosslane/coordinator.go\<close>: \<open>RecoverBlock\<close> walks a ladder whose rungs read the block
  from one candidate each and accept it only if the content proof graph proves its digest.

  The variables the rungs' closures assign (\<open>verified\<close>, \<open>verifiedCandidate\<close>, \<open>lastDecision\<close>) are fields of
  the state the ladder works on, beside the outside world \<open>'w\<close> that the governor and the context act
  on. What attempt \<open>i\<close> sees of the graph's repository, the clock and its context is \<open>views i\<close>, so
  other writers may act between attempts.
\<close>

definition Operation :: string where "Operation = ''cross-source-recovery''"

record Candidate =
  Handle :: LaneCandidate
  Source :: "ByteSource option"

record Request =
  Target :: LaneCandidate
  Proof :: Evidence
  Candidates :: "Candidate list"
  CandidateDigest :: "(string \<Rightarrow> (go_error, string) result) option"

datatype recover_error = Refused go_error | RunError run_error

record Block =
  Data :: "string option"
  b_candidate :: "LaneCandidate option"
  b_decision :: Decision
  b_ladder :: "Ladder.Result option"
  CanonicalID :: string
  ConvergenceErr :: "go_error option"

record 'w recovery =
  verified :: "string option"
  verifiedCandidate :: "LaneCandidate option"
  lastDecision :: Decision
  world :: 'w

record 'r view =
  v_repo :: 'r
  v_cx :: "nat \<Rightarrow> go_error option"
  v_hcx :: "nat \<Rightarrow> go_error option"
  v_now :: instant

definition proofMayAuthorizeTarget :: "Lane \<Rightarrow> Provenance \<Rightarrow> bool" where
  "proofMayAuthorizeTarget lane p \<longleftrightarrow> ProofMatchesLane lane p \<or>
     (lane = LaneHTTP \<and> (p = ProvenanceTorrentPiece \<or> p = ProvenanceTorrentMerkle \<or> p = ProvenancePAR2IFSC))"

fun validateCandidates :: "unicode \<Rightarrow> LaneCandidate \<Rightarrow> Candidate list \<Rightarrow> go_error option" where
  "validateCandidates u target [] = None"
| "validateCandidates u target (c # cs) =
     (case validateLaneCandidate u (Handle c) of
        Some e \<Rightarrow> Some e
      | None \<Rightarrow>
          if ReleaseKey_of (Handle c) \<noteq> ReleaseKey_of target \<or> Size (Handle c) \<noteq> Size target
            then Some (Plain ''crosslane: candidate does not exactly match target'')
          else if Source c = None then Some (Plain ''crosslane: nil candidate source'')
          else validateCandidates u target cs)"

definition validateRequest :: "unicode \<Rightarrow> Request \<Rightarrow> go_error option" where
  "validateRequest u req =
     (let target = Target req; proof = Proof req in
      case validateLaneCandidate u target of
        Some e \<Rightarrow> Some e
      | None \<Rightarrow>
          if RepresentationID proof \<noteq> c_rep target \<or> Kind_of proof \<noteq> KindAuthoritative
            then Some (Plain ''crosslane: proof does not belong to target'')
          else if \<not> proofMayAuthorizeTarget (Lane_of target) (Provenance_of proof)
            then Some (Plain ''crosslane: proof provenance does not match target lane'')
          else if Offset proof < 0 \<or> Length proof \<le> 0 \<or> Length proof > MaxMappingProofBytes \<or>
                  Offset proof > Size target \<or> Length proof > Size target - Offset proof
            then Some (Plain ''crosslane: invalid proof span'')
          else if Candidates req = [] \<or> length (Candidates req) > MaxLaneCandidates
            then Some (Plain ''crosslane: invalid candidate count'')
          else validateCandidates u target (Candidates req))"

definition noProof :: "Request \<Rightarrow> Decision" where
  "noProof req = undecided (Offset (Proof req)) (Length (Proof req))"

text \<open>The closure \<open>Attempt\<close> of one rung. A nil source, which the validation excludes, would panic.\<close>

definition attemptBlock :: "hashes \<Rightarrow> 'r Graph \<Rightarrow> Request \<Rightarrow> 'r view \<Rightarrow> Candidate \<Rightarrow> 'w recovery \<Rightarrow> go_error option \<times> 'w recovery" where
  "attemptBlock hs g req v c s =
     (let p = Proof req; orCtx = (\<lambda>k e. case v_cx v k of Some ce \<Rightarrow> Some ce | None \<Rightarrow> e) in
      case Source c of
        None \<Rightarrow> (Some (Plain ''nil pointer dereference''), s)
      | Some src \<Rightarrow>
      case ReadAt src (Offset p) (nat (Length p)) of (data, readErr) \<Rightarrow>
        if readErr \<noteq> None \<or> length data \<noteq> nat (Length p)
        then (orCtx 0 (Transient (Some (Plain ''crosslane: source read failed''))), s)
        else
          (case (case CandidateDigest req of None \<Rightarrow> Digest hs (v_hcx v) (Algorithm_of p) data | Some f \<Rightarrow> f data) of
             Inl e \<Rightarrow> (orCtx 1 (Permanent (Some e)), s)
           | Inr digest \<Rightarrow>
          case VerifyDigest g (v_repo v) (v_cx v 2) (v_now v) (c_rep (Target req)) (Scope_of p) (Offset p) (Length p) (Algorithm_of p) digest of
             Inl e \<Rightarrow> (orCtx 3 (Transient (Some e)), s)
           | Inr d \<Rightarrow>
               (let s1 = s\<lparr>lastDecision := d\<rparr> in
                if Relation_of d \<noteq> RelationProven then (Permanent (Some (Plain ''crosslane: recovery block not proven'')), s1)
                else (None, s1\<lparr>verified := Some data, verifiedCandidate := Some (Handle c)\<rparr>))))"

definition laneName :: "Lane \<Rightarrow> string" where
  "laneName l = (case l of LaneTorrent \<Rightarrow> ''torrent'' | LaneNNTP \<Rightarrow> ''nntp'' | LaneHTTP \<Rightarrow> ''http'' | OtherLane s \<Rightarrow> s)"

definition recoveryRungs :: "hashes \<Rightarrow> 'r Graph \<Rightarrow> Request \<Rightarrow> (nat \<Rightarrow> 'r view) \<Rightarrow> 'w recovery Rung list" where
  "recoveryRungs hs g req views =
     map (\<lambda>(i, c). \<lparr>r_name = laneName (Lane_of (Handle c)) @ ''-'' @ itoa (int i), r_op = Operation,
            r_priority = PriorityRecovery, r_max = 1, r_attempt = attemptBlock hs g req (views i) c\<rparr>)
       (enumerate 0 (Candidates req))"

text \<open>The ladder's calls concern only the outside world.\<close>

definition onWorld :: "'w ladder_env \<Rightarrow> 'w recovery ladder_env" where
  "onWorld env = \<lparr>hasGov = hasGov env, ctxErr = (\<lambda>s. ctxErr env (world s)),
     acquire = (\<lambda>op prio session s. case acquire env op prio session (world s) of (e, w) \<Rightarrow> (e, s\<lparr>world := w\<rparr>)),
     unlease = (\<lambda>op s. s\<lparr>world := unlease env op (world s)\<rparr>)\<rparr>"

definition exactSource :: "int \<Rightarrow> Candidate \<Rightarrow> bool" where
  "exactSource sz c = (case Source c of None \<Rightarrow> False | Some src \<Rightarrow> RangeSupport src \<and> ExactSize src \<and> src_size src = sz)"

definition emptyBlock :: "Decision \<Rightarrow> Block" where
  "emptyBlock d = \<lparr>Data = None, b_candidate = None, b_decision = d, b_ladder = None, CanonicalID = '''', ConvergenceErr = None\<rparr>"

text \<open>\<open>conv\<close> is the optional converger with the repository it finds when it is called.\<close>

definition RecoverBlock :: "unicode \<Rightarrow> hashes \<Rightarrow> 'r Graph \<Rightarrow> ('r Converger \<times> 'r) option \<Rightarrow> 'w ladder_env \<Rightarrow> Request \<Rightarrow> 'r \<Rightarrow>
  (nat \<Rightarrow> go_error option) \<Rightarrow> (nat \<Rightarrow> instant) \<Rightarrow> (nat \<Rightarrow> 'r view) \<Rightarrow> 'w \<Rightarrow> (Block \<times> recover_error option) \<times> 'w \<times> 'r option" where
  "RecoverBlock u hs g conv env req r cx clk views w =
     (let p = Proof req; refuse = (\<lambda>d e. ((emptyBlock d, Some (Refused e)), w, None)) in
      case cx 0 of
        Some e \<Rightarrow> refuse (noProof req) e
      | None \<Rightarrow>
      case validateRequest u req of
        Some e \<Rightarrow> refuse (noProof req) e
      | None \<Rightarrow>
      case VerifyDigest g r (cx 1) (clk 1) (c_rep (Target req)) (Scope_of p) (Offset p) (Length p) (Algorithm_of p) (Digest_of p) of
        Inl e \<Rightarrow> refuse (noProof req) e
      | Inr decision \<Rightarrow>
          if Relation_of decision \<noteq> RelationProven then ((emptyBlock decision, None), w, None)
          else if \<not> list_all (exactSource (Size (Target req))) (Candidates req)
            then refuse decision (Plain ''crosslane: source lacks an exact bounded range'')
          else
            (case Run (onWorld env) (recoveryRungs hs g req views) (ItemID (Target req))
                    \<lparr>verified = None, verifiedCandidate = None, lastDecision = noProof req, world = w\<rparr> of
               ((lres, runErr), s) \<Rightarrow>
                 (case cx 2 of
                    Some e \<Rightarrow> (((emptyBlock (noProof req))\<lparr>b_ladder := Some lres\<rparr>, Some (Refused e)), world s, None)
                  | None \<Rightarrow>
                      (case runErr of
                         Some re \<Rightarrow> (((emptyBlock (lastDecision s))\<lparr>b_ladder := Some lres\<rparr>, Some (RunError re)), world s, None)
                       | None \<Rightarrow>
                           (let b = (emptyBlock (lastDecision s))\<lparr>Data := verified s, b_candidate := verifiedCandidate s, b_ladder := Some lres\<rparr>
                            in case (conv, verifiedCandidate s) of
                                 (Some (cv, r2), Some vc) \<Rightarrow>
                                   (case ObserveVerified u (sha2 hs) cv r2 (cx 3) (clk 3) (Target req) vc
                                           \<lparr>v_offset = Offset p, v_length = Length p\<rparr> (lastDecision s) of
                                      Inl e \<Rightarrow> ((b\<lparr>ConvergenceErr := Some e\<rparr>, None), world s, None)
                                    | Inr (canonical, r3) \<Rightarrow> ((b\<lparr>CanonicalID := canonical\<rparr>, None), world s, Some r3))
                               | _ \<Rightarrow> ((b, None), world s, None))))))"

subsection \<open>A walk that succeeds ended with a successful attempt\<close>

lemma rungLoop_success:
  assumes "rungLoop env rung session maxA attempt rr lastClass s = ((rr', '''', None), s')" and "attempt \<le> maxA"
    and "\<And>s e s2. r_attempt rung s = (Some e, s2) \<Longrightarrow> Classify (Some e) \<noteq> ''''"
  shows "\<exists>s1 s2. r_attempt rung s1 = (None, s2) \<and> s' = giveBack env rung s2"
  using assms
proof (induction env rung session maxA attempt rr lastClass s rule: rungLoop.induct)
  case (1 env rung session maxA attempt rr lastClass s)
  note run = "1.prems"(1) [unfolded rungLoop.simps [of env rung session maxA attempt rr lastClass s]]
  obtain s1 where c: "ctxErr env s = None" and l: "leaseFor env rung session s = (None, s1)"
    using run "1.prems"(2) by (auto split: option.splits prod.splits)
  obtain ae s2 where a: "r_attempt rung s1 = (ae, s2)" by fastforce
  show ?case
  proof (cases ae)
    case None
    with run "1.prems"(2) c l a show ?thesis by (auto simp: Let_def)
  next
    case (Some e)
    then have ne: "Classify (Some e) \<noteq> ''''" using "1.prems"(3) a by blast
    with run "1.prems"(2) c l a Some have again: "Classify (Some e) = ClassTransientHere" "attempt < maxA"
      by (auto simp: Let_def split: if_splits)
    then have "rungLoop env rung session maxA (attempt + 1)
        (rr\<lparr>rr_attempts := attempt, rr_class := Classify (Some e), rr_err := Some e\<rparr>)
        (Classify (Some e)) (giveBack env rung s2) = ((rr', '''', None), s')"
      using run "1.prems"(2) c l a Some by (simp add: Let_def)
    then show ?thesis
      using "1.IH" [OF _ c l [symmetric] refl a [symmetric] refl refl Some refl refl] again "1.prems"(2,3) by simp
  qed
qed

lemma walk_success:
  assumes "walk env session rungs res s = ((res', None), s')"
    and "\<And>rung s e s2. rung \<in> set rungs \<Longrightarrow> r_attempt rung s = (Some e, s2) \<Longrightarrow> Classify (Some e) \<noteq> ''''"
  shows "\<exists>rung \<in> set rungs. \<exists>s1 s2. r_attempt rung s1 = (None, s2) \<and> s' = giveBack env rung s2"
  using assms
proof (induction rungs arbitrary: res s)
  case Nil
  then show ?case by simp
next
  case (Cons rung rs)
  obtain rr clas e s1 where r: "runRung env rung session s = ((rr, clas, e), s1)" by (metis prod.collapse)
  show ?case
  proof (cases "e = None \<and> clas = ''''")
    case True
    then have "s' = s1" using Cons.prems(1) r by (simp add: Let_def)
    moreover have "\<exists>s1' s2. r_attempt rung s1' = (None, s2) \<and> s1 = giveBack env rung s2"
      using r True Cons.prems(2) unfolding runRung_def by (intro rungLoop_success) (auto simp: attempt_budget_def)
    ultimately show ?thesis by auto
  next
    case False
    then have "\<exists>res2. walk env session rs res2 s1 = ((res', None), s')"
      using Cons.prems(1) r by (auto simp: Let_def split: option.splits if_splits)
    with Cons.IH Cons.prems(2) show ?thesis by (metis list.set_intros(2))
  qed
qed

subsection \<open>What an attempt does\<close>

text \<open>The block that candidate \<open>c\<close> delivers is proven by the graph as \<open>v\<close> sees it.\<close>

definition provenBy :: "hashes \<Rightarrow> 'r Graph \<Rightarrow> Request \<Rightarrow> 'r view \<Rightarrow> Candidate \<Rightarrow> string \<Rightarrow> Decision \<Rightarrow> bool" where
  "provenBy hs g req v c data d \<longleftrightarrow>
     (\<exists>src digest. Source c = Some src \<and> ReadAt src (Offset (Proof req)) (nat (Length (Proof req))) = (data, None) \<and>
        length data = nat (Length (Proof req)) \<and>
        (case CandidateDigest req of None \<Rightarrow> Digest hs (v_hcx v) (Algorithm_of (Proof req)) data | Some f \<Rightarrow> f data) = Inr digest \<and>
        VerifyDigest g (v_repo v) (v_cx v 2) (v_now v) (c_rep (Target req)) (Scope_of (Proof req)) (Offset (Proof req))
          (Length (Proof req)) (Algorithm_of (Proof req)) digest = Inr d \<and> Relation_of d = RelationProven)"

lemma marked:
  "Transient (Some e) = Some (classified e ClassTransientHere)" "Permanent (Some e) = Some (classified e ClassPermanentHere)"
  by (simp_all add: Transient_def Permanent_def wrap_def)

lemma attemptBlock_None:
  assumes "attemptBlock hs g req v c s = (None, s2)"
  shows "\<exists>data d. provenBy hs g req v c data d \<and> verified s2 = Some data \<and> verifiedCandidate s2 = Some (Handle c) \<and> lastDecision s2 = d"
proof (cases "Source c")
  case None
  with assms show ?thesis by (simp add: attemptBlock_def Let_def)
next
  case (Some src)
  obtain data readErr where rd: "ReadAt src (Offset (Proof req)) (nat (Length (Proof req))) = (data, readErr)" by fastforce
  let ?dg = "case CandidateDigest req of None \<Rightarrow> Digest hs (v_hcx v) (Algorithm_of (Proof req)) data | Some f \<Rightarrow> f data"
  have ok: "readErr = None" "length data = nat (Length (Proof req))"
    using assms Some rd by (auto simp: attemptBlock_def Let_def marked split: if_splits option.splits)
  obtain digest where dg: "?dg = Inr digest"
    using assms Some rd ok by (auto simp: attemptBlock_def Let_def marked split: sum.splits option.splits)
  obtain d where d: "VerifyDigest g (v_repo v) (v_cx v 2) (v_now v) (c_rep (Target req)) (Scope_of (Proof req)) (Offset (Proof req))
      (Length (Proof req)) (Algorithm_of (Proof req)) digest = Inr d"
    using assms Some rd ok dg by (auto simp: attemptBlock_def Let_def marked split: sum.splits option.splits)
  with assms Some rd ok dg have "Relation_of d = RelationProven"
    "s2 = s\<lparr>lastDecision := d, verified := Some data, verifiedCandidate := Some (Handle c)\<rparr>"
    by (auto simp: attemptBlock_def Let_def marked split: if_splits)
  with Some rd ok dg d show ?thesis by (auto simp: provenBy_def)
qed

lemma attemptBlock_class:
  assumes "attemptBlock hs g req v c s = (Some e, s2)"
    and "\<And>k e. v_cx v k = Some e \<Longrightarrow> '''' \<notin> set (wrapped_classes e)"
  shows "Classify (Some e) \<noteq> ''''"
proof -
  have "(\<exists>k. v_cx v k = Some e) \<or> (\<exists>e'. e = classified e' ClassTransientHere \<or> e = classified e' ClassPermanentHere) \<or>
      e = Plain ''nil pointer dereference''"
    using assms(1) unfolding attemptBlock_def
    by (auto simp: Let_def marked split: if_splits sum.splits option.splits prod.splits)
  then show ?thesis
  proof (elim disjE exE)
    fix k assume "v_cx v k = Some e"
    with assms(2) show ?thesis using Classify_nonempty by blast
  qed (simp_all add: Classify_def)
qed

subsection \<open>What a recovery returns\<close>

lemma recoveryRungs_mem:
  assumes "rung \<in> set (recoveryRungs hs g req views)"
  obtains i where "i < length (Candidates req)" and "r_attempt rung = attemptBlock hs g req (views i) (Candidates req ! i)"
  using assms by (auto simp: recoveryRungs_def in_set_enumerate_eq)

lemma giveBack_onWorld:
  "verified (giveBack (onWorld env) rung s) = verified s" "verifiedCandidate (giveBack (onWorld env) rung s) = verifiedCandidate s"
  "lastDecision (giveBack (onWorld env) rung s) = lastDecision s"
  by (simp_all add: giveBack_def onWorld_def)

lemma recovery_run:
  assumes "Run (onWorld env) (recoveryRungs hs g req views) session s0 = ((lres, None), s)"
    and "\<forall>i k e. v_cx (views i) k = Some e \<longrightarrow> '''' \<notin> set (wrapped_classes e)"
  shows "\<exists>i < length (Candidates req). \<exists>data d. provenBy hs g req (views i) (Candidates req ! i) data d \<and>
    verified s = Some data \<and> verifiedCandidate s = Some (Handle (Candidates req ! i)) \<and> lastDecision s = d"
proof -
  have cls: "Classify (Some e) \<noteq> ''''" if "rung \<in> set (recoveryRungs hs g req views)" "r_attempt rung t = (Some e, t2)" for rung t e t2
  proof -
    from that(1) obtain i where "r_attempt rung = attemptBlock hs g req (views i) (Candidates req ! i)" by (rule recoveryRungs_mem)
    with that(2) have "attemptBlock hs g req (views i) (Candidates req ! i) t = (Some e, t2)" by simp
    then show ?thesis using assms(2) by (intro attemptBlock_class) blast+
  qed
  have "\<exists>rung \<in> set (recoveryRungs hs g req views). \<exists>s1 s2. r_attempt rung s1 = (None, s2) \<and> s = giveBack (onWorld env) rung s2"
    by (rule walk_success [OF assms(1) [unfolded Run_def]]) (rule cls)
  then obtain rung s1 s2 where r: "rung \<in> set (recoveryRungs hs g req views)" "r_attempt rung s1 = (None, s2)"
    and s: "s = giveBack (onWorld env) rung s2" by blast
  from r(1) obtain i where "i < length (Candidates req)" "attemptBlock hs g req (views i) (Candidates req ! i) s1 = (None, s2)"
    using r(2) by (elim recoveryRungs_mem) auto
  with attemptBlock_None show ?thesis unfolding s giveBack_onWorld by blast
qed

text \<open>C34: recovery never emits unproven bytes. A block with data is returned only without an error, and then
  its bytes are the exact span of the target's proof as some candidate's source delivered them, and the digest of those bytes equals every
  authoritative assertion for exactly that span and algorithm that the graph listed for the target
  at that attempt, of which there is at least one. With an error there is no data.\<close>

theorem recovered_block_is_proven:
  assumes "RecoverBlock u hs g conv env req r cx clk views w = ((b, err), w', r')"
    and "\<forall>i k e. v_cx (views i) k = Some e \<longrightarrow> '''' \<notin> set (wrapped_classes e)"
  shows "(err \<noteq> None \<longrightarrow> Data b = None) \<and>
    (\<forall>data. Data b = Some data \<longrightarrow>
       (\<exists>i < length (Candidates req). \<exists>src digest ids sz evs.
          Source (Candidates req ! i) = Some src \<and> ReadAt src (Offset (Proof req)) (nat (Length (Proof req))) = (data, None) \<and>
          length data = nat (Length (Proof req)) \<and> b_candidate b = Some (Handle (Candidates req ! i)) \<and>
          (case CandidateDigest req of None \<Rightarrow> Digest hs (v_hcx (views i)) (Algorithm_of (Proof req)) data | Some f \<Rightarrow> f data) = Inr digest \<and>
          representationAliases (g_repo g) (v_repo (views i)) (c_rep (Target req)) = Inr (ids, sz) \<and>
          ListProofs (g_repo g) (v_repo (views i)) ids (v_now (views i)) = Inr evs \<and>
          (\<exists>p \<in> set evs. exact (Scope_of (Proof req)) (Offset (Proof req)) (Length (Proof req)) (Algorithm_of (Proof req)) p) \<and>
          (\<forall>p \<in> set evs. exact (Scope_of (Proof req)) (Offset (Proof req)) (Length (Proof req)) (Algorithm_of (Proof req)) p \<longrightarrow>
             Digest_of p = digest)))"
proof (cases "Data b")
  case None
  then show ?thesis by simp
next
  case (Some data)
  from assms(1) Some obtain lres s where run: "Run (onWorld env) (recoveryRungs hs g req views) (ItemID (Target req))
      \<lparr>verified = None, verifiedCandidate = None, lastDecision = noProof req, world = w\<rparr> = ((lres, None), s)"
    and b: "Data b = verified s" "b_candidate b = verifiedCandidate s" "err = None"
    by (auto simp: RecoverBlock_def Let_def emptyBlock_def split: option.splits sum.splits prod.splits if_splits)
  obtain i d where i: "i < length (Candidates req)" "provenBy hs g req (views i) (Candidates req ! i) data d"
    "verifiedCandidate s = Some (Handle (Candidates req ! i))"
    using recovery_run [OF run assms(2)] Some b(1) by auto
  from i(2) obtain src digest where pb: "Source (Candidates req ! i) = Some src"
    "ReadAt src (Offset (Proof req)) (nat (Length (Proof req))) = (data, None)" "length data = nat (Length (Proof req))"
    "(case CandidateDigest req of None \<Rightarrow> Digest hs (v_hcx (views i)) (Algorithm_of (Proof req)) data | Some f \<Rightarrow> f data) = Inr digest"
    and v: "VerifyDigest g (v_repo (views i)) (v_cx (views i) 2) (v_now (views i)) (c_rep (Target req)) (Scope_of (Proof req)) (Offset (Proof req))
          (Length (Proof req)) (Algorithm_of (Proof req)) digest = Inr d" and pr: "Relation_of d = RelationProven"
    unfolding provenBy_def by blast
  obtain ids sz evs where "representationAliases (g_repo g) (v_repo (views i)) (c_rep (Target req)) = Inr (ids, sz)"
    "ListProofs (g_repo g) (v_repo (views i)) ids (v_now (views i)) = Inr evs"
    "\<exists>p \<in> set evs. exact (Scope_of (Proof req)) (Offset (Proof req)) (Length (Proof req)) (Algorithm_of (Proof req)) p"
    "\<forall>p \<in> set evs. exact (Scope_of (Proof req)) (Offset (Proof req)) (Length (Proof req)) (Algorithm_of (Proof req)) p \<longrightarrow> Digest_of p = digest"
    using pr by (rule_tac VerifyDigest_relation [OF v]) (auto split: if_splits)
  moreover have "b_candidate b = Some (Handle (Candidates req ! i))" using i(3) b(2) by simp
  ultimately show ?thesis using i(1) pb b(3) Some by (intro conjI allI impI) (simp, intro exI [of _ i] exI [of _ src] exI [of _ digest] exI [of _ ids] exI [of _ sz] exI [of _ evs], auto)
qed

definition demo_request :: Request where
  "demo_request = \<lparr>Target = demo_candidate LaneNNTP ''b'', Proof = demo_par2,
     Candidates = [\<lparr>Handle = demo_candidate LaneHTTP ''a'', Source = Some demo_source\<rparr>],
     CandidateDigest = Some (\<lambda>data. Inr (md5 demo_hashes data))\<rparr>"

definition no_governor :: "unit ladder_env" where
  "no_governor = \<lparr>hasGov = False, ctxErr = (\<lambda>_. None), acquire = (\<lambda>_ _ _ s. (None, s)), unlease = (\<lambda>_ s. s)\<rparr>"

theorem recovered_block_is_proven_witness:
  "\<exists>b err w' r'. RecoverBlock ascii demo_hashes demo_graph None no_governor demo_request (empty_db\<lparr>content_proofs := [(1, demo_par2)]\<rparr>)
      (\<lambda>_. None) (\<lambda>_. 0) (\<lambda>_. \<lparr>v_repo = empty_db\<lparr>content_proofs := [(1, demo_par2)]\<rparr>, v_cx = (\<lambda>_. None), v_hcx = (\<lambda>_. None), v_now = 0\<rparr>) () =
      ((b, err), w', r') \<and> Data b = Some (replicate 4 (CHR ''d'')) \<and>
    md5 demo_hashes (replicate 4 (CHR ''d'')) = Digest_of demo_par2"
proof -
  let ?db = "empty_db\<lparr>content_proofs := [(1, demo_par2)]\<rparr>"
  let ?v = "\<lambda>_ :: nat. \<lparr>v_repo = ?db, v_cx = (\<lambda>_. None), v_hcx = (\<lambda>_. None), v_now = 0\<rparr>"
  let ?r = "RecoverBlock ascii demo_hashes demo_graph None no_governor demo_request ?db (\<lambda>_. None) (\<lambda>_. 0) ?v ()"
  have d: "Data (fst (fst ?r)) = Some (replicate 4 (CHR ''d''))" by code_simp
  obtain b err w' r' where r: "?r = ((b, err), w', r')" by (metis prod.collapse)
  have db: "Data b = Some (replicate 4 (CHR ''d''))" using d unfolding r by simp
  have evs: "ListContentProofs ?db [''b''] 0 = Inr [demo_par2]" and al: "representationAliases store_proofs ?db ''b'' = Inr ([''b''], 0)"
    by code_simp+
  have "\<forall>p \<in> set [demo_par2]. exact ScopeBlock 0 4 AlgorithmMD5 p \<longrightarrow>
      Digest_of p = md5 demo_hashes (replicate 4 (CHR ''d''))"
    using recovered_block_is_proven [OF r] db evs al
    by (auto simp: demo_request_def demo_graph_def store_proofs_def demo_candidate_def demo_par2_def demo_evidence_def)
  moreover have "exact ScopeBlock 0 4 AlgorithmMD5 demo_par2" by (simp add: exact_def demo_par2_def demo_evidence_def)
  ultimately have "md5 demo_hashes (replicate 4 (CHR ''d'')) = Digest_of demo_par2" by simp
  then show ?thesis using db r by blast
qed

end
