(* ===== verification/Bencode.thy ===== *)
theory Bencode
  imports DH_Prelude
begin

section \<open>The bencode decoder\<close>

text \<open>
  Models \<open>internal/torrentmeta/bencode.go\<close>. The decoder's state is its position \<open>pos\<close> and the rest
  of the buffer from there on. Its recursion is bounded by \<open>maxDecodeDepth\<close>, so \<open>decode\<close> recurses on
  the levels that are left; the loops of lists and dictionaries run on fuel equal to the rest of the
  input, and no decode ever runs out of it because every element consumes at least one byte.
  A Go dictionary is an association list in insertion order in which a repeated key replaces the
  earlier value.

  Results: decoding always returns; it inverts the reference encoder on everything within the
  bounds; and the span recorded at a node is exactly the node's own encoding.
\<close>

definition maxDecodeDepth :: nat where "maxDecodeDepth = 64"
definition maxContainerLen :: nat where "maxContainerLen = 200000"

datatype ben_error =
    DepthExceeded | UnexpectedEnd | InvalidType char nat | InvalidInteger | UnterminatedInteger
  | IntegerRange | InvalidLength string | ExpectedColon | LengthExceedsInput
  | UnterminatedList | ListTooLarge | UnterminatedDict | DictKey ben_error | KeyNotString
  | DictTooLarge | OutOfFuel

datatype bvalue =
    kInt int nat nat
  | kBytes string nat nat
  | kList "bvalue list" nat nat
  | kDict "(string \<times> bvalue) list" nat nat

fun v_start :: "bvalue \<Rightarrow> nat" where
  "v_start (kInt i s e) = s" | "v_start (kBytes b s e) = s" | "v_start (kList l s e) = s" | "v_start (kDict d s e) = s"

fun v_end :: "bvalue \<Rightarrow> nat" where
  "v_end (kInt i s e) = e" | "v_end (kBytes b s e) = e" | "v_end (kList l s e) = e" | "v_end (kDict d s e) = e"

type_synonym 'a decoded = "(ben_error, 'a \<times> nat \<times> string) result"

text \<open>\<open>dict[key] = v\<close>.\<close>

fun put :: "string \<Rightarrow> 'v \<Rightarrow> (string \<times> 'v) list \<Rightarrow> (string \<times> 'v) list" where
  "put k v [] = [(k, v)]"
| "put k v ((k', v') # d) = (if k' = k then (k, v) # d else (k', v') # put k v d)"

definition decodeInt :: "nat \<Rightarrow> string \<Rightarrow> bvalue decoded" where
  "decodeInt pos rest =
     (let body = tl rest;
          sign = (if body \<noteq> [] \<and> hd body = CHR ''-'' then [CHR ''-''] else []);
          r = drop (length sign) body;
          digits = takeWhile is_digit r;
          after = dropWhile is_digit r
      in if digits = [] then Inl InvalidInteger
         else if after = [] \<or> hd after \<noteq> CHR ''e'' then Inl UnterminatedInteger
         else case ParseInt 64 (sign @ digits) of
           None \<Rightarrow> Inl IntegerRange
         | Some n \<Rightarrow>
             (let pos' = pos + 1 + length sign + length digits + 1
              in Inr (kInt n pos pos', pos', tl after)))"

definition decodeBytes :: "nat \<Rightarrow> string \<Rightarrow> bvalue decoded" where
  "decodeBytes pos rest =
     (let lenStr = takeWhile is_digit rest;
          after = dropWhile is_digit rest
      in case ParseInt 63 lenStr of
           None \<Rightarrow> Inl (InvalidLength lenStr)
         | Some n \<Rightarrow>
             if n < 0 then Inl (InvalidLength lenStr)
             else if after = [] \<or> hd after \<noteq> CHR '':'' then Inl ExpectedColon
             else if n > int (length (tl after)) then Inl LengthExceedsInput
             else
               (let pos' = pos + length lenStr + 1 + nat n
                in Inr (kBytes (take (nat n) (tl after)) pos pos', pos', drop (nat n) (tl after))))"

fun listLoop :: "nat \<Rightarrow> (nat \<Rightarrow> string \<Rightarrow> bvalue decoded) \<Rightarrow> nat \<Rightarrow> string \<Rightarrow> bvalue list \<Rightarrow> bvalue list decoded" where
  "listLoop 0 f pos rest acc = Inl OutOfFuel"
| "listLoop (Suc n) f pos rest acc =
     (case rest of
        [] \<Rightarrow> Inl UnterminatedList
      | c # r \<Rightarrow>
          if c = CHR ''e'' then Inr (acc, pos + 1, r)
          else case f pos rest of
            Inl e \<Rightarrow> Inl e
          | Inr (v, pos', rest') \<Rightarrow>
              if length (acc @ [v]) > maxContainerLen then Inl ListTooLarge
              else listLoop n f pos' rest' (acc @ [v]))"

fun dictLoop :: "nat \<Rightarrow> (nat \<Rightarrow> string \<Rightarrow> bvalue decoded) \<Rightarrow> nat \<Rightarrow> string \<Rightarrow> (string \<times> bvalue) list \<Rightarrow>
  (string \<times> bvalue) list decoded" where
  "dictLoop 0 f pos rest acc = Inl OutOfFuel"
| "dictLoop (Suc n) f pos rest acc =
     (case rest of
        [] \<Rightarrow> Inl UnterminatedDict
      | c # r \<Rightarrow>
          if c = CHR ''e'' then Inr (acc, pos + 1, r)
          else case f pos rest of
            Inl e \<Rightarrow> Inl (DictKey e)
          | Inr (keyVal, pos1, rest1) \<Rightarrow>
              (case keyVal of
                 kBytes key ks ke \<Rightarrow>
                   (case f pos1 rest1 of
                      Inl e \<Rightarrow> Inl e
                    | Inr (v, pos2, rest2) \<Rightarrow>
                        if length (put key v acc) > maxContainerLen then Inl DictTooLarge
                        else dictLoop n f pos2 rest2 (put key v acc))
               | _ \<Rightarrow> Inl KeyNotString))"

text \<open>\<open>decode levels\<close> is the call at depth \<open>maxDecodeDepth + 1 - levels\<close>.\<close>

fun decode :: "nat \<Rightarrow> nat \<Rightarrow> string \<Rightarrow> bvalue decoded" where
  "decode 0 pos rest = Inl DepthExceeded"
| "decode (Suc levels) pos rest =
     (case rest of
        [] \<Rightarrow> Inl UnexpectedEnd
      | c # r \<Rightarrow>
          if c = CHR ''i'' then decodeInt pos rest
          else if c = CHR ''l'' then
            (case listLoop (length rest) (decode levels) (pos + 1) r [] of
               Inl e \<Rightarrow> Inl e
             | Inr (vs, pos', rest') \<Rightarrow> Inr (kList vs pos pos', pos', rest'))
          else if c = CHR ''d'' then
            (case dictLoop (length rest) (decode levels) (pos + 1) r [] of
               Inl e \<Rightarrow> Inl e
             | Inr (kvs, pos', rest') \<Rightarrow> Inr (kDict kvs pos pos', pos', rest'))
          else if is_digit c then decodeBytes pos rest
          else Inl (InvalidType c pos))"

definition decodeTop :: "string \<Rightarrow> (ben_error, bvalue) result" where
  "decodeTop data =
     (case decode (maxDecodeDepth + 1) 0 data of
        Inl e \<Rightarrow> Inl e
      | Inr (v, _) \<Rightarrow> Inr v)"

subsection \<open>Values without positions, and their encoding\<close>

datatype bval = BInt int | BStr string | BList "bval list" | BDict "(string \<times> bval) list"

fun erase :: "bvalue \<Rightarrow> bval" where
  "erase (kInt i s e) = BInt i"
| "erase (kBytes b s e) = BStr b"
| "erase (kList l s e) = BList (map erase l)"
| "erase (kDict d s e) = BDict (map (\<lambda>(k, v). (k, erase v)) d)"

fun benc :: "bval \<Rightarrow> string" where
  "benc (BInt i) = CHR ''i'' # itoa i @ [CHR ''e'']"
| "benc (BStr s) = dec (length s) @ CHR '':'' # s"
| "benc (BList l) = CHR ''l'' # concat (map benc l) @ [CHR ''e'']"
| "benc (BDict d) = CHR ''d'' # concat (map (\<lambda>(k, v). (dec (length k) @ CHR '':'' # k) @ benc v) d) @ [CHR ''e'']"

text \<open>What fits the decoder's bounds within a number of levels.\<close>

fun benc_ok :: "nat \<Rightarrow> bval \<Rightarrow> bool" where
  "benc_ok 0 b = False"
| "benc_ok (Suc k) (BInt i) = in_int64 i"
| "benc_ok (Suc k) (BStr s) = (int (length s) < 2 ^ 62)"
| "benc_ok (Suc k) (BList l) = (length l \<le> maxContainerLen \<and> list_all (benc_ok k) l)"
| "benc_ok (Suc k) (BDict d) =
     (length d \<le> maxContainerLen \<and> distinct (map fst d) \<and>
      list_all (\<lambda>(key, v). 0 < k \<and> int (length key) < 2 ^ 62 \<and> benc_ok k v) d)"

subsection \<open>Digits\<close>

lemma takeWhile_digits: "list_all is_digit ds \<Longrightarrow> \<not> is_digit c \<Longrightarrow> takeWhile is_digit (ds @ c # r) = ds"
  by (simp add: list_all_iff takeWhile_append2)

lemma dropWhile_digits: "list_all is_digit ds \<Longrightarrow> \<not> is_digit c \<Longrightarrow> dropWhile is_digit (ds @ c # r) = c # r"
  by (simp add: list_all_iff dropWhile_append2)

lemma all_digits_dec: "list_all is_digit (dec n)"
  by (simp add: list_all_iff dec_digits)

lemma all_digits_takeWhile: "list_all is_digit (takeWhile is_digit r)"
  by (auto simp: list_all_iff dest: set_takeWhileD)

lemma not_digits [simp]: "\<not> is_digit (CHR ''e'')" "\<not> is_digit (CHR '':'')" "\<not> is_digit (CHR ''-'')"
  "\<not> is_digit (CHR ''i'')" "\<not> is_digit (CHR ''l'')" "\<not> is_digit (CHR ''d'')"
  by (simp_all add: is_digit_def)

subsection \<open>Decoding consumes exactly one encoding\<close>

definition consumes_one :: "(nat \<Rightarrow> string \<Rightarrow> bvalue decoded) \<Rightarrow> bool" where
  "consumes_one f \<longleftrightarrow> (\<forall>pos x v pos' s. f pos x = Inr (v, pos', s) \<longrightarrow>
     (\<exists>y. x = y @ s \<and> y \<noteq> [] \<and> pos' = pos + length y \<and> v_start v = pos \<and> v_end v = pos' \<and>
        (\<forall>p2 s2. \<exists>v2. f p2 (y @ s2) = Inr (v2, p2 + length y, s2) \<and> erase v2 = erase v)))"

lemma consumes_oneD:
  assumes "consumes_one f" and "f pos x = Inr (v, pos', s)"
  obtains y where "x = y @ s" "y \<noteq> []" "pos' = pos + length y" "v_start v = pos" "v_end v = pos'"
    "\<And>p2 s2. \<exists>v2. f p2 (y @ s2) = Inr (v2, p2 + length y, s2) \<and> erase v2 = erase v"
  using assms unfolding consumes_one_def by blast

lemma decodeInt_consumes:
  assumes "decodeInt pos (CHR ''i'' # body) = Inr (v, pos', s)"
  shows "\<exists>y. CHR ''i'' # body = y @ s \<and> y \<noteq> [] \<and> pos' = pos + length y \<and> v_start v = pos \<and> v_end v = pos' \<and>
    hd y = CHR ''i'' \<and> (\<forall>p2 s2. \<exists>v2. decodeInt p2 (y @ s2) = Inr (v2, p2 + length y, s2) \<and> erase v2 = erase v)"
proof -
  define sign where "sign = (if body \<noteq> [] \<and> hd body = CHR ''-'' then [CHR ''-''] else [])"
  define r where "r = drop (length sign) body"
  define digits where "digits = takeWhile is_digit r"
  define after where "after = dropWhile is_digit r"
  have ok: "digits \<noteq> []" "after \<noteq> []" "hd after = CHR ''e''"
    and n: "\<exists>n. ParseInt 64 (sign @ digits) = Some n \<and> v = kInt n pos pos'"
    and out: "pos' = pos + 1 + length sign + length digits + 1" "s = tl after"
    using assms unfolding decodeInt_def Let_def sign_def r_def digits_def after_def list.sel
    by (auto split: if_splits option.splits)
  have body: "body = sign @ digits @ CHR ''e'' # s"
  proof -
    have "after = CHR ''e'' # s" using ok out(2) by (metis list.collapse)
    moreover have "body = sign @ r" by (cases body) (auto simp: sign_def r_def)
    moreover have "r = digits @ after" by (simp add: digits_def after_def)
    ultimately show ?thesis by simp
  qed
  have dig: "list_all is_digit digits" by (simp add: digits_def all_digits_takeWhile)
  have sgn: "(if sign @ digits @ t \<noteq> [] \<and> hd (sign @ digits @ t) = CHR ''-'' then [CHR ''-''] else []) = sign" for t
    using ok(1) dig by (cases digits) (auto simp: sign_def)
  have "\<exists>v2. decodeInt p2 ((CHR ''i'' # sign @ digits @ [CHR ''e'']) @ s2) =
      Inr (v2, p2 + length (CHR ''i'' # sign @ digits @ [CHR ''e'']), s2) \<and> erase v2 = erase v" for p2 s2
    using n ok(1) dig sgn [of "CHR ''e'' # s2"]
    by (auto simp: decodeInt_def takeWhile_digits dropWhile_digits)
  with n body out show ?thesis
    by (intro exI [of _ "CHR ''i'' # sign @ digits @ [CHR ''e'']"]) auto
qed

lemma decodeBytes_consumes:
  assumes "decodeBytes pos (c # r) = Inr (v, pos', s)" and "is_digit c"
  shows "\<exists>y. c # r = y @ s \<and> y \<noteq> [] \<and> pos' = pos + length y \<and> v_start v = pos \<and> v_end v = pos' \<and>
    hd y = c \<and> (\<forall>p2 s2. \<exists>v2. decodeBytes p2 (y @ s2) = Inr (v2, p2 + length y, s2) \<and> erase v2 = erase v)"
proof -
  define lenStr where "lenStr = takeWhile is_digit (c # r)"
  define after where "after = dropWhile is_digit (c # r)"
  obtain n where n: "ParseInt 63 lenStr = Some n" "0 \<le> n" "n \<le> int (length (tl after))"
    and ok: "after \<noteq> []" "hd after = CHR '':''"
    and out: "pos' = pos + length lenStr + 1 + nat n" "s = drop (nat n) (tl after)"
      "v = kBytes (take (nat n) (tl after)) pos pos'"
    using assms(1) unfolding decodeBytes_def Let_def lenStr_def after_def
    by (auto split: if_splits option.splits)
  have dig: "list_all is_digit lenStr" unfolding lenStr_def by (rule all_digits_takeWhile)
  have ne: "lenStr \<noteq> []" "hd lenStr = c" using assms(2) by (auto simp: lenStr_def)
  let ?b = "take (nat n) (tl after)"
  let ?y = "lenStr @ CHR '':'' # ?b"
  have len: "length ?b = nat n" using n by simp
  have cr: "c # r = ?y @ s"
  proof -
    have "c # r = lenStr @ after" by (simp add: lenStr_def after_def)
    also have "after = CHR '':'' # tl after" using ok by (metis list.collapse)
    also have "tl after = ?b @ s" by (simp add: out(2))
    finally show ?thesis by simp
  qed
  have "\<exists>v2. decodeBytes p2 (?y @ s2) = Inr (v2, p2 + length ?y, s2) \<and> erase v2 = erase v" for p2 s2
    using n dig len out(3) by (simp add: decodeBytes_def takeWhile_digits dropWhile_digits)
  with cr ne out len show ?thesis
    by (intro exI [of _ ?y]) auto
qed

lemma listLoop_consumes:
  assumes "consumes_one f" and "listLoop n f pos x acc = Inr (vs, pos', s)"
  shows "\<exists>y. x = y @ s \<and> y \<noteq> [] \<and> pos' = pos + length y \<and>
    (\<forall>n2 p2 s2 acc2. map erase acc2 = map erase acc \<longrightarrow> length y \<le> n2 \<longrightarrow>
       (\<exists>vs2. listLoop n2 f p2 (y @ s2) acc2 = Inr (vs2, p2 + length y, s2) \<and> map erase vs2 = map erase vs))"
  using assms(2)
proof (induction n arbitrary: pos x acc)
  case 0
  then show ?case by simp
next
  case (Suc n)
  then obtain c r where x: "x = c # r" by (cases x) auto
  show ?case
  proof (cases "c = CHR ''e''")
    case True
    with Suc.prems x have o: "vs = acc" "pos' = pos + 1" "s = r" by auto
    have "\<exists>vs2. listLoop n2 f p2 ([CHR ''e''] @ s2) acc2 = Inr (vs2, p2 + length [CHR ''e''], s2) \<and>
        map erase vs2 = map erase vs"
      if "map erase acc2 = map erase acc" "length [CHR ''e''] \<le> n2" for n2 p2 s2 acc2
      using that o by (cases n2) auto
    with True x o show ?thesis by (intro exI [of _ "[CHR ''e'']"]) auto
  next
    case False
    obtain v p1 r1 where d: "f pos x = Inr (v, p1, r1)" "length (acc @ [v]) \<le> maxContainerLen"
      "listLoop n f p1 r1 (acc @ [v]) = Inr (vs, pos', s)"
      using Suc.prems x False by (auto split: sum.splits if_splits)
    obtain y1 where y1: "x = y1 @ r1" "y1 \<noteq> []" "p1 = pos + length y1"
      "\<And>p2 s2. \<exists>v2. f p2 (y1 @ s2) = Inr (v2, p2 + length y1, s2) \<and> erase v2 = erase v"
      using consumes_oneD [OF assms(1) d(1)] by metis
    from Suc.IH [OF d(3)] obtain y where y: "r1 = y @ s" "y \<noteq> []" "pos' = p1 + length y"
      and again: "\<And>n2 p2 s2 acc2. map erase acc2 = map erase (acc @ [v]) \<Longrightarrow> length y \<le> n2 \<Longrightarrow>
        \<exists>vs2. listLoop n2 f p2 (y @ s2) acc2 = Inr (vs2, p2 + length y, s2) \<and> map erase vs2 = map erase vs"
      by blast
    obtain z where z: "y1 = c # z" using y1(1,2) x by (cases y1) auto
    have "\<exists>vs2. listLoop n2 f p2 ((y1 @ y) @ s2) acc2 = Inr (vs2, p2 + length (y1 @ y), s2) \<and> map erase vs2 = map erase vs"
      if a: "map erase acc2 = map erase acc" "length (y1 @ y) \<le> n2" for n2 p2 s2 acc2
    proof -
      obtain m where m: "n2 = Suc m" "length y \<le> m" using a(2) y1(2) by (cases n2; cases y1) auto
      obtain v2 where v2: "f p2 (y1 @ (y @ s2)) = Inr (v2, p2 + length y1, y @ s2)" "erase v2 = erase v"
        using y1(4) by blast
      have len: "length acc2 = length acc" using a(1) by (metis length_map)
      have "map erase (acc2 @ [v2]) = map erase (acc @ [v])" using a(1) v2(2) by simp
      from again [OF this m(2), of "p2 + length y1" s2] obtain vs2 where
        "listLoop m f (p2 + length y1) (y @ s2) (acc2 @ [v2]) = Inr (vs2, p2 + length y1 + length y, s2)"
        "map erase vs2 = map erase vs" by blast
      then show ?thesis using m(1) v2(1) False d(2) len unfolding z by (simp add: add.assoc)
    qed
    with y1 y show ?thesis by (intro exI [of _ "y1 @ y"]) auto
  qed
qed

definition erase_dict :: "(string \<times> bvalue) list \<Rightarrow> (string \<times> bval) list" where
  "erase_dict d = map (\<lambda>(k, v). (k, erase v)) d"

lemma put_erase: "erase_dict (put k v d) = put k (erase v) (erase_dict d)"
  by (induction d) (auto simp: erase_dict_def)

lemma erase_dict_length: "erase_dict d = erase_dict d' \<Longrightarrow> length d = length d'"
  unfolding erase_dict_def by (metis length_map)

lemma dictLoop_consumes:
  assumes "consumes_one f" and "dictLoop n f pos x acc = Inr (vs, pos', s)"
  shows "\<exists>y. x = y @ s \<and> y \<noteq> [] \<and> pos' = pos + length y \<and>
    (\<forall>n2 p2 s2 acc2. erase_dict acc2 = erase_dict acc \<longrightarrow> length y \<le> n2 \<longrightarrow>
       (\<exists>vs2. dictLoop n2 f p2 (y @ s2) acc2 = Inr (vs2, p2 + length y, s2) \<and> erase_dict vs2 = erase_dict vs))"
  using assms(2)
proof (induction n arbitrary: pos x acc)
  case 0
  then show ?case by simp
next
  case (Suc n)
  then obtain c r where x: "x = c # r" by (cases x) auto
  show ?case
  proof (cases "c = CHR ''e''")
    case True
    with Suc.prems x have o: "vs = acc" "pos' = pos + 1" "s = r" by auto
    have "\<exists>vs2. dictLoop n2 f p2 ([CHR ''e''] @ s2) acc2 = Inr (vs2, p2 + length [CHR ''e''], s2) \<and>
        erase_dict vs2 = erase_dict vs"
      if "erase_dict acc2 = erase_dict acc" "length [CHR ''e''] \<le> n2" for n2 p2 s2 acc2
      using that o by (cases n2) auto
    with True x o show ?thesis by (intro exI [of _ "[CHR ''e'']"]) auto
  next
    case False
    obtain k ks ke p0 r0 v p1 r1 where d: "f pos x = Inr (kBytes k ks ke, p0, r0)" "f p0 r0 = Inr (v, p1, r1)"
      "length (put k v acc) \<le> maxContainerLen" "dictLoop n f p1 r1 (put k v acc) = Inr (vs, pos', s)"
      using Suc.prems x False by (auto split: sum.splits if_splits bvalue.splits)
    obtain y0 where y0: "x = y0 @ r0" "y0 \<noteq> []" "p0 = pos + length y0"
      "\<And>p2 s2. \<exists>v2. f p2 (y0 @ s2) = Inr (v2, p2 + length y0, s2) \<and> erase v2 = erase (kBytes k ks ke)"
      using consumes_oneD [OF assms(1) d(1)] by metis
    obtain y1 where y1: "r0 = y1 @ r1" "y1 \<noteq> []" "p1 = p0 + length y1"
      "\<And>p2 s2. \<exists>v2. f p2 (y1 @ s2) = Inr (v2, p2 + length y1, s2) \<and> erase v2 = erase v"
      using consumes_oneD [OF assms(1) d(2)] by metis
    from Suc.IH [OF d(4)] obtain y where y: "r1 = y @ s" "y \<noteq> []" "pos' = p1 + length y"
      and again: "\<And>n2 p2 s2 acc2. erase_dict acc2 = erase_dict (put k v acc) \<Longrightarrow> length y \<le> n2 \<Longrightarrow>
        \<exists>vs2. dictLoop n2 f p2 (y @ s2) acc2 = Inr (vs2, p2 + length y, s2) \<and> erase_dict vs2 = erase_dict vs"
      by blast
    obtain z where z: "y0 = c # z" using y0(1,2) x by (cases y0) auto
    have "\<exists>vs2. dictLoop n2 f p2 ((y0 @ y1 @ y) @ s2) acc2 = Inr (vs2, p2 + length (y0 @ y1 @ y), s2) \<and>
        erase_dict vs2 = erase_dict vs"
      if a: "erase_dict acc2 = erase_dict acc" "length (y0 @ y1 @ y) \<le> n2" for n2 p2 s2 acc2
    proof -
      obtain m where m: "n2 = Suc m" "length y \<le> m" using a(2) y0(2) by (cases n2; cases y0) auto
      obtain k2 where k2: "f p2 (y0 @ (y1 @ y @ s2)) = Inr (k2, p2 + length y0, y1 @ y @ s2)" "erase k2 = BStr k"
        using y0(4) by fastforce
      then obtain a1 b1 where kb: "k2 = kBytes k a1 b1" by (cases k2) auto
      obtain v2 where v2: "f (p2 + length y0) (y1 @ (y @ s2)) = Inr (v2, p2 + length y0 + length y1, y @ s2)" "erase v2 = erase v"
        using y1(4) by blast
      have e: "erase_dict (put k v2 acc2) = erase_dict (put k v acc)" using a(1) v2(2) by (simp add: put_erase)
      from again [OF e m(2), of "p2 + length y0 + length y1" s2] obtain vs2 where
        "dictLoop m f (p2 + length y0 + length y1) (y @ s2) (put k v2 acc2) =
           Inr (vs2, p2 + length y0 + length y1 + length y, s2)"
        "erase_dict vs2 = erase_dict vs" by blast
      then show ?thesis
        using m(1) k2(1) kb v2(1) False d(3) erase_dict_length [OF e] unfolding z by (simp add: add.assoc)
    qed
    with y0 y1 y show ?thesis by (intro exI [of _ "y0 @ y1 @ y"]) auto
  qed
qed

lemma decode_consumes: "consumes_one (decode k)"
proof (induction k)
  case 0
  then show ?case by (simp add: consumes_one_def)
next
  case (Suc k)
  show ?case
    unfolding consumes_one_def
  proof (intro allI impI)
    fix pos x v pos' s
    assume run: "decode (Suc k) pos x = Inr (v, pos', s)"
    then obtain c r where x: "x = c # r" by (cases x) auto
    consider (int) "c = CHR ''i''" | (list) "c = CHR ''l''" | (dict) "c = CHR ''d''" | (bytes) "is_digit c"
      using run x by (auto split: if_splits)
    then show "\<exists>y. x = y @ s \<and> y \<noteq> [] \<and> pos' = pos + length y \<and> v_start v = pos \<and> v_end v = pos' \<and>
        (\<forall>p2 s2. \<exists>v2. decode (Suc k) p2 (y @ s2) = Inr (v2, p2 + length y, s2) \<and> erase v2 = erase v)"
    proof cases
      case int
      with run x have "decodeInt pos (CHR ''i'' # r) = Inr (v, pos', s)" by simp
      from decodeInt_consumes [OF this] obtain y where y: "CHR ''i'' # r = y @ s" "y \<noteq> []" "pos' = pos + length y"
        "v_start v = pos" "v_end v = pos'" "hd y = CHR ''i''"
        "\<And>p2 s2. \<exists>v2. decodeInt p2 (y @ s2) = Inr (v2, p2 + length y, s2) \<and> erase v2 = erase v" by blast
      have "decode (Suc k) p2 (y @ s2) = decodeInt p2 (y @ s2)" for p2 s2
        using y(2,6) by (cases y) auto
      with y x int show ?thesis by (intro exI [of _ y]) auto
    next
      case list
      obtain vs where l: "listLoop (length x) (decode k) (pos + 1) r [] = Inr (vs, pos', s)" "v = kList vs pos pos'"
        using run x list by (auto split: sum.splits)
      from listLoop_consumes [OF Suc.IH l(1)] obtain y where y: "r = y @ s" "y \<noteq> []" "pos' = pos + 1 + length y"
        and again: "\<And>n2 p2 s2. length y \<le> n2 \<Longrightarrow>
          \<exists>vs2. listLoop n2 (decode k) p2 (y @ s2) [] = Inr (vs2, p2 + length y, s2) \<and> map erase vs2 = map erase vs"
        by fastforce
      have "\<exists>v2. decode (Suc k) p2 ((CHR ''l'' # y) @ s2) = Inr (v2, p2 + length (CHR ''l'' # y), s2) \<and> erase v2 = erase v" for p2 s2
        using again [of "length (CHR ''l'' # y @ s2)" "p2 + 1" s2] l(2) by auto
      with y x list l(2) show ?thesis by (intro exI [of _ "CHR ''l'' # y"]) auto
    next
      case dict
      obtain vs where l: "dictLoop (length x) (decode k) (pos + 1) r [] = Inr (vs, pos', s)" "v = kDict vs pos pos'"
        using run x dict by (auto split: sum.splits)
      from dictLoop_consumes [OF Suc.IH l(1)] obtain y where y: "r = y @ s" "y \<noteq> []" "pos' = pos + 1 + length y"
        and again: "\<And>n2 p2 s2. length y \<le> n2 \<Longrightarrow>
          \<exists>vs2. dictLoop n2 (decode k) p2 (y @ s2) [] = Inr (vs2, p2 + length y, s2) \<and> erase_dict vs2 = erase_dict vs"
        by fastforce
      have "\<exists>v2. decode (Suc k) p2 ((CHR ''d'' # y) @ s2) = Inr (v2, p2 + length (CHR ''d'' # y), s2) \<and> erase v2 = erase v" for p2 s2
        using again [of "length (CHR ''d'' # y @ s2)" "p2 + 1" s2] l(2) by (auto simp: erase_dict_def)
      with y x dict l(2) show ?thesis by (intro exI [of _ "CHR ''d'' # y"]) auto
    next
      case bytes
      then have ne: "c \<noteq> CHR ''i''" "c \<noteq> CHR ''l''" "c \<noteq> CHR ''d''" by auto
      with run x bytes have "decodeBytes pos (c # r) = Inr (v, pos', s)" by simp
      from decodeBytes_consumes [OF this bytes] obtain y where y: "c # r = y @ s" "y \<noteq> []" "pos' = pos + length y"
        "v_start v = pos" "v_end v = pos'" "hd y = c"
        "\<And>p2 s2. \<exists>v2. decodeBytes p2 (y @ s2) = Inr (v2, p2 + length y, s2) \<and> erase v2 = erase v" by blast
      have "decode (Suc k) p2 (y @ s2) = decodeBytes p2 (y @ s2)" for p2 s2
        using y(2,6) ne bytes by (cases y) auto
      with y x show ?thesis by (intro exI [of _ y]) auto
    qed
  qed
qed

subsection \<open>Decoding always returns\<close>

text \<open>Fuel can only run out inside the loops; a wrapped error is looked through.\<close>

fun ran_out :: "ben_error \<Rightarrow> bool" where
  "ran_out OutOfFuel = True"
| "ran_out (DictKey e) = ran_out e"
| "ran_out e = False"

lemma listLoop_fuel:
  assumes "consumes_one f" and "\<And>p y e. f p y = Inl e \<Longrightarrow> \<not> ran_out e"
  shows "length x < n \<Longrightarrow> listLoop n f pos x acc = Inl e \<Longrightarrow> \<not> ran_out e"
proof (induction n arbitrary: pos x acc)
  case 0
  then show ?case by simp
next
  case (Suc n)
  show ?case
  proof (cases "f pos x")
    case (Inl e')
    with Suc.prems assms(2) [OF Inl] show ?thesis by (auto split: list.splits if_splits)
  next
    case (Inr w)
    obtain v p1 r1 where w: "w = (v, p1, r1)" by (cases w) auto
    then obtain y where "x = y @ r1" "y \<noteq> []" using consumes_oneD [OF assms(1)] Inr by metis
    then have "length r1 < n" using Suc.prems(1) by (cases y) auto
    with Suc Inr w show ?thesis by (auto split: list.splits if_splits)
  qed
qed

lemma dictLoop_fuel:
  assumes "consumes_one f" and "\<And>p y e. f p y = Inl e \<Longrightarrow> \<not> ran_out e"
  shows "length x < n \<Longrightarrow> dictLoop n f pos x acc = Inl e \<Longrightarrow> \<not> ran_out e"
proof (induction n arbitrary: pos x acc)
  case 0
  then show ?case by simp
next
  case (Suc n)
  show ?case
  proof (cases "f pos x")
    case (Inl e')
    with Suc.prems assms(2) [OF Inl] show ?thesis by (auto split: list.splits if_splits)
  next
    case (Inr w)
    obtain k p1 r1 where w: "w = (k, p1, r1)" by (cases w) auto
    obtain y where y: "x = y @ r1" "y \<noteq> []" using consumes_oneD [OF assms(1)] Inr w by metis
    show ?thesis
    proof (cases "f p1 r1")
      case (Inl e')
      with Suc.prems assms(2) [OF Inl] \<open>f pos x = Inr w\<close> w show ?thesis
        by (auto split: list.splits if_splits bvalue.splits)
    next
      case inner: (Inr w2)
      obtain v p2 r2 where w2: "w2 = (v, p2, r2)" by (cases w2) auto
      obtain y2 where "r1 = y2 @ r2" "y2 \<noteq> []" using consumes_oneD [OF assms(1)] inner w2 by metis
      with y have "length r2 < n" using Suc.prems(1) by (cases y) auto
      with Suc \<open>f pos x = Inr w\<close> w inner w2 show ?thesis
        by (auto split: list.splits if_splits bvalue.splits)
    qed
  qed
qed

lemma decode_fuel: "decode k pos x = Inl e \<Longrightarrow> \<not> ran_out e"
proof (induction k arbitrary: pos x e)
  case 0
  then show ?case by auto
next
  case (Suc k)
  show ?case
  proof (cases x)
    case Nil
    with Suc.prems show ?thesis by auto
  next
    case (Cons c r)
    consider "c = CHR ''l''" | "c = CHR ''d''" | "c \<noteq> CHR ''l''" "c \<noteq> CHR ''d''" by blast
    then show ?thesis
    proof cases
      case 1
      with Suc.prems Cons have "listLoop (length x) (decode k) (pos + 1) r [] = Inl e" by (auto split: sum.splits)
      from listLoop_fuel [OF decode_consumes _ _ this] Suc.IH Cons show ?thesis by auto
    next
      case 2
      with Suc.prems Cons have "dictLoop (length x) (decode k) (pos + 1) r [] = Inl e" by (auto split: sum.splits)
      from dictLoop_fuel [OF decode_consumes _ _ this] Suc.IH Cons show ?thesis by auto
    next
      case 3
      with Suc.prems Cons show ?thesis
        by (auto simp: decodeInt_def decodeBytes_def Let_def split: if_splits option.splits)
    qed
  qed
qed

subsection \<open>Decoding inverts encoding\<close>

lemma benc_head: "\<exists>c r. benc b = c # r \<and> c \<noteq> CHR ''e''"
proof (cases b)
  case (BStr s)
  obtain c r where "dec (length s) = c # r" by (cases "dec (length s)") auto
  with dec_digits [of c "length s"] BStr show ?thesis by (auto simp: is_digit_def)
qed auto

lemma decodeInt_benc:
  assumes "in_int64 i"
  shows "decodeInt pos (benc (BInt i) @ s) = Inr (kInt i pos (pos + length (benc (BInt i))), pos + length (benc (BInt i)), s)"
proof -
  define m where "m = dec (nat \<bar>i\<bar>)"
  have it: "itoa i = (if i < 0 then [CHR ''-''] else []) @ m" by (simp add: itoa_def m_def)
  have dig: "list_all is_digit m" and ne: "m \<noteq> []" by (simp_all add: m_def all_digits_dec)
  have hd: "hd (m @ t) \<noteq> CHR ''-''" for t
    using dig ne by (cases m) auto
  have "ParseInt 64 ((if i < 0 then [CHR ''-''] else []) @ m) = Some i"
    using ParseInt_itoa [OF assms] it by simp
  with dig ne hd [of "CHR ''e'' # s"] show ?thesis
    by (auto simp: decodeInt_def it takeWhile_digits dropWhile_digits)
qed

lemma decodeBytes_benc:
  assumes "int (length b) < 2 ^ 62"
  shows "decodeBytes pos ((dec (length b) @ CHR '':'' # b) @ s) =
    Inr (kBytes b pos (pos + length (dec (length b) @ CHR '':'' # b)), pos + length (dec (length b) @ CHR '':'' # b), s)"
  using ParseInt_dec [of "length b" 63] assms
  by (simp add: decodeBytes_def takeWhile_digits dropWhile_digits all_digits_dec Let_def add.assoc)

lemma decode_string:
  assumes "int (length b) < 2 ^ 62"
  shows "decode (Suc k) pos ((dec (length b) @ CHR '':'' # b) @ s) =
    Inr (kBytes b pos (pos + length (dec (length b) @ CHR '':'' # b)), pos + length (dec (length b) @ CHR '':'' # b), s)"
proof -
  obtain c r where c: "dec (length b) = c # r" by (cases "dec (length b)") auto
  then have d: "is_digit c" using dec_digits [of c "length b"] by simp
  then have "c \<noteq> CHR ''i''" "c \<noteq> CHR ''l''" "c \<noteq> CHR ''d''" by auto
  with d c have "decode (Suc k) pos ((dec (length b) @ CHR '':'' # b) @ s) = decodeBytes pos ((dec (length b) @ CHR '':'' # b) @ s)"
    by simp
  with decodeBytes_benc [OF assms] show ?thesis by simp
qed

definition inverts :: "(nat \<Rightarrow> string \<Rightarrow> bvalue decoded) \<Rightarrow> bval \<Rightarrow> bool" where
  "inverts f b \<longleftrightarrow> (\<forall>p s. \<exists>v. f p (benc b @ s) = Inr (v, p + length (benc b), s) \<and> erase v = b)"

lemma listLoop_inverts:
  assumes "\<forall>b \<in> set bs. inverts f b" and "length acc + length bs \<le> maxContainerLen" and "length bs < n"
  shows "\<exists>vs. listLoop n f pos (concat (map benc bs) @ CHR ''e'' # s) acc =
      Inr (acc @ vs, pos + length (concat (map benc bs)) + 1, s) \<and> map erase vs = bs"
  using assms
proof (induction bs arbitrary: n pos acc)
  case Nil
  then show ?case by (cases n) auto
next
  case (Cons b bs)
  obtain m where m: "n = Suc m" "length bs < m" using Cons.prems(3) by (cases n) auto
  let ?rest = "concat (map benc bs) @ CHR ''e'' # s"
  obtain v where v: "f pos (benc b @ ?rest) = Inr (v, pos + length (benc b), ?rest)" "erase v = b"
    using Cons.prems(1) by (auto simp: inverts_def)
  obtain vs where vs: "listLoop m f (pos + length (benc b)) ?rest (acc @ [v]) =
      Inr ((acc @ [v]) @ vs, pos + length (benc b) + length (concat (map benc bs)) + 1, s)" "map erase vs = bs"
    using Cons.IH [of "acc @ [v]" m] Cons.prems m by auto
  obtain c r where c: "benc b = c # r" "c \<noteq> CHR ''e''" using benc_head by blast
  have "listLoop n f pos (benc b @ ?rest) acc =
      Inr (acc @ (v # vs), pos + length (benc b) + length (concat (map benc bs)) + 1, s)"
    using v vs Cons.prems(2) c unfolding m(1) by simp
  with v vs show ?case by (intro exI [of _ "v # vs"]) (simp add: add.assoc)
qed

lemma put_fresh: "k \<notin> fst ` set d \<Longrightarrow> put k v d = d @ [(k, v)]"
  by (induction d) auto

lemma dictLoop_inverts:
  assumes "\<forall>(k, b) \<in> set d. inverts (decode (Suc l)) b \<and> int (length k) < 2 ^ 62"
    and "length acc + length d \<le> maxContainerLen" and "length d < n"
    and "distinct (map fst d)" and "fst ` set acc \<inter> fst ` set d = {}"
  shows "\<exists>vs. dictLoop n (decode (Suc l)) pos
      (concat (map (\<lambda>(k, v). (dec (length k) @ CHR '':'' # k) @ benc v) d) @ CHR ''e'' # s) acc =
    Inr (acc @ vs, pos + length (concat (map (\<lambda>(k, v). (dec (length k) @ CHR '':'' # k) @ benc v) d)) + 1, s) \<and>
    erase_dict vs = d"
  using assms
proof (induction d arbitrary: n pos acc)
  case Nil
  then show ?case by (cases n) (auto simp: erase_dict_def)
next
  case (Cons kb d)
  obtain k b where kb: "kb = (k, b)" by (cases kb) auto
  obtain m where m: "n = Suc m" "length d < m" using Cons.prems(3) by (cases n) auto
  let ?enc = "\<lambda>d. concat (map (\<lambda>(k, v). (dec (length k) @ CHR '':'' # k) @ benc v) d)"
  let ?key = "dec (length k) @ CHR '':'' # k" and ?rest = "?enc d @ CHR ''e'' # s"
  have key: "decode (Suc l) pos (?key @ (benc b @ ?rest)) =
      Inr (kBytes k pos (pos + length ?key), pos + length ?key, benc b @ ?rest)"
    using Cons.prems(1) kb by (intro decode_string) auto
  have "inverts (decode (Suc l)) b" using Cons.prems(1) kb by (auto simp del: decode.simps)
  then obtain v where v: "decode (Suc l) (pos + length ?key) (benc b @ ?rest) =
      Inr (v, pos + length ?key + length (benc b), ?rest)" "erase v = b"
    unfolding inverts_def by blast
  have fresh: "put k v acc = acc @ [(k, v)]" using Cons.prems(5) kb by (intro put_fresh) auto
  have "\<forall>(k, b) \<in> set d. inverts (decode (Suc l)) b \<and> int (length k) < 2 ^ 62"
    "length (acc @ [(k, v)]) + length d \<le> maxContainerLen" "distinct (map fst d)"
    "fst ` set (acc @ [(k, v)]) \<inter> fst ` set d = {}"
    using Cons.prems kb by (auto simp del: decode.simps)
  from Cons.IH [OF this(1,2) m(2) this(3,4), of "pos + length ?key + length (benc b)"] obtain vs where
    vs: "dictLoop m (decode (Suc l)) (pos + length ?key + length (benc b)) ?rest (acc @ [(k, v)]) =
      Inr ((acc @ [(k, v)]) @ vs, pos + length ?key + length (benc b) + length (?enc d) + 1, s)" "erase_dict vs = d"
    by blast
  obtain c r where c: "?key = c # r" by (cases ?key) auto
  have ce: "c \<noteq> CHR ''e''"
  proof -
    have "c \<in> set (dec (length k))" using c by (cases "dec (length k)") auto
    then have "is_digit c" by (rule dec_digits)
    then show ?thesis by auto
  qed
  have "dictLoop n (decode (Suc l)) pos (?key @ benc b @ ?rest) acc =
      Inr (acc @ ((k, v) # vs), pos + length ?key + length (benc b) + length (?enc d) + 1, s)"
    using key v(1) vs(1) fresh Cons.prems(2) ce unfolding m(1) c by (simp del: decode.simps)
  with v(2) vs(2) kb show ?case
    by (intro exI [of _ "(k, v) # vs"]) (simp add: erase_dict_def add.assoc del: decode.simps)
qed

lemma length_concat_ge: "\<forall>x \<in> set xs. f x \<noteq> [] \<Longrightarrow> length xs \<le> length (concat (map f xs))"
proof (induction xs)
  case (Cons x xs)
  then have "1 \<le> length (f x)" by (cases "f x") auto
  moreover have "length xs \<le> length (concat (map f xs))" using Cons by simp
  ultimately show ?case by simp
qed simp

lemma decode_inverts: "benc_ok k b \<Longrightarrow> inverts (decode k) b"
proof (induction k arbitrary: b)
  case 0
  then show ?case by simp
next
  case (Suc k)
  show ?case
  proof (cases b)
    case (BInt i)
    with Suc.prems decodeInt_benc [of i] show ?thesis by (auto simp: inverts_def)
  next
    case (BStr s)
    with Suc.prems decode_string [of s k] show ?thesis by (auto simp: inverts_def simp del: decode.simps)
  next
    case (BList l)
    have inv: "\<forall>b \<in> set l. inverts (decode k) b" using Suc BList by (auto simp: list_all_iff)
    have "length l \<le> length (concat (map benc l))"
      by (rule length_concat_ge) (metis benc_head list.distinct(1))
    then have fuel: "length l < length (benc b @ s)" for s
      using BList by simp
    show ?thesis
      unfolding inverts_def
    proof (intro allI)
      fix p s
      obtain vs where "listLoop (length (benc b @ s)) (decode k) (p + 1) (concat (map benc l) @ CHR ''e'' # s) [] =
          Inr ([] @ vs, p + 1 + length (concat (map benc l)) + 1, s)" "map erase vs = l"
        using listLoop_inverts [OF inv _ fuel, of "[]" s "p + 1" s] Suc.prems BList by auto
      then show "\<exists>v. decode (Suc k) p (benc b @ s) = Inr (v, p + length (benc b), s) \<and> erase v = b"
        using BList by simp
    qed
  next
    case (BDict d)
    let ?f = "\<lambda>(k, v). (dec (length k) @ CHR '':'' # k) @ benc v"
    show ?thesis
    proof (cases k)
      case 0
      with Suc.prems BDict have "d = []" by (cases d) auto
      with BDict show ?thesis by (auto simp: inverts_def)
    next
      case (Suc l)
      have inv: "\<forall>(key, b) \<in> set d. inverts (decode (Suc l)) b \<and> int (length key) < 2 ^ 62"
        using Suc.IH Suc.prems BDict Suc by (fastforce simp: list_all_iff simp del: decode.simps)
      have "length d \<le> length (concat (map ?f d))"
        by (rule length_concat_ge) auto
      then have fuel: "length d < length (benc b @ s)" for s
        using BDict by simp
      show ?thesis
        unfolding inverts_def
      proof (intro allI)
        fix p s
        obtain vs where "dictLoop (length (benc b @ s)) (decode k) (p + 1) (concat (map ?f d) @ CHR ''e'' # s) [] =
            Inr ([] @ vs, p + 1 + length (concat (map ?f d)) + 1, s)" "erase_dict vs = d"
          using dictLoop_inverts [OF inv _ fuel, of "[]" s "p + 1" s] Suc.prems BDict Suc by auto
        then show "\<exists>v. decode (Suc k) p (benc b @ s) = Inr (v, p + length (benc b), s) \<and> erase v = b"
          using BDict by (simp add: erase_dict_def)
      qed
    qed
  qed
qed

text \<open>C19: decoding inverts encoding. Every value within the decoder's bounds (64-bit integers, at most 64
  levels of nesting, at most 200000 entries per container, distinct keys) is decoded from its
  bencode representation, whatever bytes follow it; and on every input whatsoever the decoder
  returns a value or one of its own errors, never for lack of fuel.\<close>

theorem bencode_roundtrip:
  "(benc_ok (maxDecodeDepth + 1) b \<longrightarrow> (\<exists>v. decodeTop (benc b @ trailing) = Inr v \<and> erase v = b)) \<and>
   (decodeTop data = Inl e \<longrightarrow> \<not> ran_out e)"
proof -
  have "\<exists>v. decodeTop (benc b @ trailing) = Inr v \<and> erase v = b" if ok: "benc_ok (maxDecodeDepth + 1) b"
  proof -
    obtain v where "decode (maxDecodeDepth + 1) 0 (benc b @ trailing) = Inr (v, 0 + length (benc b), trailing)" "erase v = b"
      using decode_inverts [OF ok] unfolding inverts_def by blast
    then show ?thesis by (simp add: decodeTop_def del: decode.simps)
  qed
  moreover have "\<not> ran_out e" if "decodeTop data = Inl e"
    using that decode_fuel [of "maxDecodeDepth + 1" 0 data] by (auto simp: decodeTop_def simp del: decode.simps split: sum.splits)
  ultimately show ?thesis by blast
qed

theorem bencode_roundtrip_witness:
  "\<exists>v. decodeTop (benc (BDict [(''info'', BList [BInt (- 3), BStr ''x''])]) @ ''junk'') = Inr v \<and>
     erase v = BDict [(''info'', BList [BInt (- 3), BStr ''x''])]"
proof -
  have levels: "maxDecodeDepth + 1 = Suc (Suc (Suc 62))" by (simp add: maxDecodeDepth_def)
  have "benc_ok (maxDecodeDepth + 1) (BDict [(''info'', BList [BInt (- 3), BStr ''x''])])"
    by (simp only: levels benc_ok.simps list.pred_inject prod.case) (simp add: maxContainerLen_def in_int64_def MinInt64_def MaxInt64_def)
  then show ?thesis
    using bencode_roundtrip [of "BDict [(''info'', BList [BInt (- 3), BStr ''x''])]" "''junk''" "''''" OutOfFuel]
    by blast
qed

subsection \<open>Spans\<close>

fun nodes :: "bvalue \<Rightarrow> bvalue list" where
  "nodes (kInt i s e) = [kInt i s e]"
| "nodes (kBytes b s e) = [kBytes b s e]"
| "nodes (kList l s e) = kList l s e # concat (map nodes l)"
| "nodes (kDict d s e) = kDict d s e # concat (map (\<lambda>(k, v). nodes v) d)"

definition spanned :: "nat \<Rightarrow> string \<Rightarrow> bvalue \<Rightarrow> bool" where
  "spanned k buf v \<longleftrightarrow> v_end v \<le> length buf \<and>
     (\<exists>j \<le> k. decode j (v_start v) (drop (v_start v) buf) = Inr (v, v_end v, drop (v_end v) buf))"

lemma spanned_mono: "spanned k buf v \<Longrightarrow> k \<le> k' \<Longrightarrow> spanned k' buf v"
  unfolding spanned_def using le_trans by blast

lemma node_self: "v \<in> set (nodes v)"
  by (cases v) auto

lemma drop_consumed:
  assumes "drop pos buf = y @ r" and "pos \<le> length buf"
  shows "r = drop (pos + length y) buf" and "pos + length y \<le> length buf"
proof -
  show "r = drop (pos + length y) buf"
    using assms(1) by (metis add.commute append_eq_conv_conj drop_drop)
  show "pos + length y \<le> length buf"
    using arg_cong [OF assms(1), of length] assms(2) by simp
qed

lemma listLoop_spans:
  assumes "consumes_one f" and "\<And>p v p' r. f p (drop p buf) = Inr (v, p', r) \<Longrightarrow> p \<le> length buf \<Longrightarrow> \<forall>w \<in> set (nodes v). P w"
    and "listLoop n f pos (drop pos buf) acc = Inr (vs, pos', s)" and "pos \<le> length buf"
    and "\<forall>v \<in> set acc. \<forall>w \<in> set (nodes v). P w"
  shows "\<forall>v \<in> set vs. \<forall>w \<in> set (nodes v). P w"
  using assms(3-5)
proof (induction n arbitrary: pos acc)
  case 0
  then show ?case by simp
next
  case (Suc n)
  obtain c r where x: "drop pos buf = c # r" using Suc.prems(1) by (cases "drop pos buf") auto
  show ?case
  proof (cases "c = CHR ''e''")
    case True
    with Suc.prems x show ?thesis by auto
  next
    case False
    obtain v p1 r1 where d: "f pos (drop pos buf) = Inr (v, p1, r1)" "listLoop n f p1 r1 (acc @ [v]) = Inr (vs, pos', s)"
      using Suc.prems(1) x False by (auto split: sum.splits if_splits)
    obtain y where y: "drop pos buf = y @ r1" "p1 = pos + length y"
      using consumes_oneD [OF assms(1) d(1)] by metis
    have "r1 = drop p1 buf" "p1 \<le> length buf"
      using drop_consumed [OF y(1) Suc.prems(2)] y(2) by auto
    with Suc.IH [of p1 "acc @ [v]"] d Suc.prems(3) assms(2) [OF d(1) Suc.prems(2)] show ?thesis by auto
  qed
qed

lemma dict_nodes_put:
  "\<forall>(k, v) \<in> set acc. \<forall>w \<in> set (nodes v). P w \<Longrightarrow> \<forall>w \<in> set (nodes v). P w \<Longrightarrow>
   \<forall>(k, v) \<in> set (put k v acc). \<forall>w \<in> set (nodes v). P w"
  by (induction acc) (fastforce split: if_splits)+

lemma dictLoop_spans:
  assumes "consumes_one f" and "\<And>p v p' r. f p (drop p buf) = Inr (v, p', r) \<Longrightarrow> p \<le> length buf \<Longrightarrow> \<forall>w \<in> set (nodes v). P w"
    and "dictLoop n f pos (drop pos buf) acc = Inr (vs, pos', s)" and "pos \<le> length buf"
    and "\<forall>(k, v) \<in> set acc. \<forall>w \<in> set (nodes v). P w"
  shows "\<forall>(k, v) \<in> set vs. \<forall>w \<in> set (nodes v). P w"
  using assms(3-5)
proof (induction n arbitrary: pos acc)
  case 0
  then show ?case by simp
next
  case (Suc n)
  obtain c r where x: "drop pos buf = c # r" using Suc.prems(1) by (cases "drop pos buf") auto
  show ?case
  proof (cases "c = CHR ''e''")
    case True
    with Suc.prems x show ?thesis by auto
  next
    case False
    obtain k ks ke p0 r0 v p1 r1 where d: "f pos (drop pos buf) = Inr (kBytes k ks ke, p0, r0)"
      "f p0 r0 = Inr (v, p1, r1)" "dictLoop n f p1 r1 (put k v acc) = Inr (vs, pos', s)"
      using Suc.prems(1) x False by (auto split: sum.splits if_splits bvalue.splits)
    obtain y0 where y0: "drop pos buf = y0 @ r0" "p0 = pos + length y0"
      using consumes_oneD [OF assms(1) d(1)] by metis
    have r0: "r0 = drop p0 buf" "p0 \<le> length buf"
      using drop_consumed [OF y0(1) Suc.prems(2)] y0(2) by auto
    obtain y1 where y1: "drop p0 buf = y1 @ r1" "p1 = p0 + length y1"
      using consumes_oneD [OF assms(1) d(2)] r0(1) by metis
    have r1: "r1 = drop p1 buf" "p1 \<le> length buf"
      using drop_consumed [OF y1(1) r0(2)] y1(2) by auto
    have "\<forall>w \<in> set (nodes v). P w" using assms(2) d(2) r0 by blast
    from dict_nodes_put [OF Suc.prems(3) this] Suc.IH [of p1 "put k v acc"] d(3) r1 show ?thesis by blast
  qed
qed

lemma decode_spans:
  "decode k pos (drop pos buf) = Inr (v, pos', r) \<Longrightarrow> pos \<le> length buf \<Longrightarrow> \<forall>w \<in> set (nodes v). spanned k buf w"
proof (induction k arbitrary: pos v pos' r)
  case 0
  then show ?case by simp
next
  case (Suc k)
  obtain y where y: "drop pos buf = y @ r" "pos' = pos + length y" "v_start v = pos" "v_end v = pos'"
    using consumes_oneD [OF decode_consumes Suc.prems(1)] by metis
  have "r = drop pos' buf" "pos' \<le> length buf"
    using drop_consumed [OF y(1) Suc.prems(2)] y(2) by auto
  with y Suc.prems(1) have self: "spanned (Suc k) buf v"
    unfolding spanned_def by (intro conjI exI [of _ "Suc k"]) simp_all
  have below: "\<forall>w \<in> set (nodes u). spanned (Suc k) buf w"
    if "decode k p (drop p buf) = Inr (u, p', s)" "p \<le> length buf" for p u p' s
    using Suc.IH [OF that] spanned_mono [of k buf _ "Suc k"] by auto
  obtain c x where x: "drop pos buf = c # x" using Suc.prems(1) by (cases "drop pos buf") auto
  then have x': "x = drop (pos + 1) buf" "pos + 1 \<le> length buf"
    using drop_consumed [of pos buf "[c]" x] Suc.prems(2) by auto
  show ?case
  proof (cases v)
    case (kList l a b)
    then have "c = CHR ''l''"
      using Suc.prems(1) x by (auto simp: decodeInt_def decodeBytes_def Let_def split: if_splits sum.splits option.splits)
    then have "listLoop (length (drop pos buf)) (decode k) (pos + 1) (drop (pos + 1) buf) [] = Inr (l, pos', r)"
      using Suc.prems(1) x kList unfolding x'(1) [symmetric] by (auto split: sum.splits)
    from listLoop_spans [OF decode_consumes below this x'(2)] self kList show ?thesis by auto
  next
    case (kDict d a b)
    then have "c = CHR ''d''"
      using Suc.prems(1) x by (auto simp: decodeInt_def decodeBytes_def Let_def split: if_splits sum.splits option.splits)
    then have "dictLoop (length (drop pos buf)) (decode k) (pos + 1) (drop (pos + 1) buf) [] = Inr (d, pos', r)"
      using Suc.prems(1) x kDict unfolding x'(1) [symmetric] by (auto split: sum.splits)
    from dictLoop_spans [OF decode_consumes below this x'(2)] self kDict show ?thesis by fastforce
  qed (use self in auto)
qed

text \<open>More levels never change what decodes.\<close>

lemma listLoop_more:
  assumes "\<And>p x w. f p x = Inr w \<Longrightarrow> g p x = Inr w"
  shows "listLoop n f pos x acc = Inr w \<Longrightarrow> listLoop n g pos x acc = Inr w"
  using assms by (induction n arbitrary: pos x acc) (auto split: list.splits if_splits sum.splits)

lemma dictLoop_more:
  assumes "\<And>p x w. f p x = Inr w \<Longrightarrow> g p x = Inr w"
  shows "dictLoop n f pos x acc = Inr w \<Longrightarrow> dictLoop n g pos x acc = Inr w"
  using assms by (induction n arbitrary: pos x acc) (auto split: list.splits if_splits sum.splits bvalue.splits)

lemma decode_Suc: "decode k pos x = Inr w \<Longrightarrow> decode (Suc k) pos x = Inr w"
proof (induction k arbitrary: pos x w)
  case 0
  then show ?case by simp
next
  case (Suc k)
  show ?case
  proof (cases x)
    case Nil
    with Suc.prems show ?thesis by simp
  next
    case (Cons c r)
    consider (list) "c = CHR ''l''" | (dict) "c = CHR ''d''" | (leaf) "c \<noteq> CHR ''l''" "c \<noteq> CHR ''d''" by blast
    then show ?thesis
    proof cases
      case list
      obtain vs p t where l: "listLoop (length x) (decode k) (pos + 1) r [] = Inr (vs, p, t)" "w = (kList vs pos p, p, t)"
        using Suc.prems Cons list by (auto split: sum.splits)
      have "listLoop (length x) (decode (Suc k)) (pos + 1) r [] = Inr (vs, p, t)"
        by (rule listLoop_more [OF _ l(1)]) (rule Suc.IH)
      with l(2) Cons list show ?thesis by (subst decode.simps) (simp del: decode.simps)
    next
      case dict
      obtain vs p t where l: "dictLoop (length x) (decode k) (pos + 1) r [] = Inr (vs, p, t)" "w = (kDict vs pos p, p, t)"
        using Suc.prems Cons dict by (auto split: sum.splits)
      have "dictLoop (length x) (decode (Suc k)) (pos + 1) r [] = Inr (vs, p, t)"
        by (rule dictLoop_more [OF _ l(1)]) (rule Suc.IH)
      with l(2) Cons dict show ?thesis by (subst decode.simps) (simp del: decode.simps)
    next
      case leaf
      with Suc.prems Cons show ?thesis by (auto split: if_splits)
    qed
  qed
qed

lemma decode_more: "decode k pos x = Inr w \<Longrightarrow> k \<le> k' \<Longrightarrow> decode k' pos x = Inr w"
  by (induction k') (auto simp: le_Suc_eq simp del: decode.simps(2) dest: decode_Suc)

lemma span_is_own_encoding:
  assumes "decodeTop data = Inr root" and "w \<in> set (nodes root)"
  shows "v_start w < v_end w \<and> v_end w \<le> length data \<and>
    (\<exists>w'. decodeTop (take (v_end w - v_start w) (drop (v_start w) data)) = Inr w' \<and> erase w' = erase w \<and>
       v_start w' = 0 \<and> v_end w' = v_end w - v_start w)"
proof -
  let ?top = "maxDecodeDepth + 1" and ?n = "v_end w - v_start w"
  obtain p r where "decode ?top 0 (drop 0 data) = Inr (root, p, r)"
    using assms(1) by (auto simp: decodeTop_def split: sum.splits)
  from decode_spans [OF this] assms(2) have "spanned ?top data w" by auto
  then obtain j where le: "v_end w \<le> length data" and j: "j \<le> ?top"
    "decode j (v_start w) (drop (v_start w) data) = Inr (w, v_end w, drop (v_end w) data)"
    by (auto simp: spanned_def)
  obtain y where y: "drop (v_start w) data = y @ drop (v_end w) data" "y \<noteq> []" "v_end w = v_start w + length y"
    "\<And>p2 s2. \<exists>v2. decode j p2 (y @ s2) = Inr (v2, p2 + length y, s2) \<and> erase v2 = erase w"
    using consumes_oneD [OF decode_consumes j(2)] by metis
  obtain w' where w': "decode j 0 (y @ []) = Inr (w', 0 + length y, [])" "erase w' = erase w"
    using y(4) by blast
  have "v_start w' = 0" "v_end w' = length y"
    using consumes_oneD [OF decode_consumes w'(1)] by auto
  moreover have "decode ?top 0 (y @ []) = Inr (w', 0 + length y, [])"
    by (rule decode_more [OF w'(1) j(1)])
  then have "decodeTop y = Inr w'" by (simp add: decodeTop_def del: decode.simps)
  moreover have "take ?n (drop (v_start w) data) = y" using y(1,3) by simp
  ultimately show ?thesis using y le w'(2) by auto
qed

end
