(* ===== verification/TorrentMeta.thy ===== *)
theory TorrentMeta
  imports Bencode StableSort
begin

section \<open>Torrent metadata\<close>

text \<open>
  Models \<open>internal/torrentmeta/torrentmeta.go\<close> over the decoder of \<open>Bencode\<close>. The hash functions are
  arguments. Offsets and sizes are \<open>int64\<close> and wrap. Go maps are association lists in insertion order;
  iterating over one with \<open>range\<close> is modelled in that order, which only decides which of several
  errors is reported.

  Results: every record that leaves \<open>Parse\<close> is well-formed, its paths in particular, and the info
  hashes are the hashes of exactly the info dictionary's own encoding.
\<close>

definition maxTorrentBytes :: int where "maxTorrentBytes = 16 * 2 ^ 20"
definition maxFileEntries :: nat where "maxFileEntries = 100000"

record FileEntry =
  Path :: string
  fe_Size :: int
  StartOffset :: int
  EndOffset :: int

record TorrentMeta =
  meta_Name :: string
  InfoHashV1 :: string
  InfoHashV2 :: string
  MetaVersion :: int
  PieceLength :: int
  Files :: "FileEntry list"
  PieceHashesV1 :: string
  V2MerkleRoots :: "(string \<times> string) list"
  PieceLayers :: "(string \<times> string) list"

datatype segment_error = EmptySegment | InvalidSegment string

datatype meta_error =
    EmptyInput | InputTooLarge | DecodeError ben_error | RootNotDict | MissingInfo
  | NameNotString | NameError segment_error | BadPieceLength | BadMetaVersion | BadPieces
  | FileTreeNotDict | FilesNotList | TooManyFiles nat | BadLength | MissingName | NoLayout
  | LayersNotDict | BadLayerKey | BadLayerValue | NoInfoHash | NoFiles
  | EntryNotDict | EntryLength | EntryPath | SegmentNotString | EmptyPath | PathError segment_error
  | NodeNotDict | LeafLength | BadPiecesRoot | FileTreeError segment_error

text \<open>\<open>v.dict[key]\<close>: the map of a value of another kind is nil, and looking up in it finds nothing.\<close>

fun dict_of :: "bvalue \<Rightarrow> (string \<times> bvalue) list" where
  "dict_of (kDict d s e) = d"
| "dict_of _ = []"

abbreviation field :: "bvalue \<Rightarrow> string \<Rightarrow> bvalue option" where
  "field v key \<equiv> map_of (dict_of v) key"

definition fieldPresent :: "bvalue \<Rightarrow> string \<Rightarrow> bool" where
  "fieldPresent v key = (field v key \<noteq> None)"

subsection \<open>Paths\<close>

definition sanitizeSegment :: "string \<Rightarrow> (segment_error, string) result" where
  "sanitizeSegment s =
     (let seg = TrimSpace s in
      if seg = '''' then Inl EmptySegment
      else if seg = ''.'' \<or> seg = ''..'' then Inl (InvalidSegment seg)
      else if CHR ''/'' \<in> set seg \<or> CHR 0x5C \<in> set seg \<or> CHR 0x00 \<in> set seg then Inl (InvalidSegment seg)
      else Inr seg)"

fun sanitizeLoop :: "string list \<Rightarrow> string list \<Rightarrow> (meta_error, string list) result" where
  "sanitizeLoop clean [] = Inr clean"
| "sanitizeLoop clean (seg # segs) =
     (case sanitizeSegment seg of Inl e \<Rightarrow> Inl (PathError e) | Inr s \<Rightarrow> sanitizeLoop (clean @ [s]) segs)"

definition sanitizePathSegments :: "string list \<Rightarrow> (meta_error, string) result" where
  "sanitizePathSegments segs =
     (if segs = [] then Inl EmptyPath
      else case sanitizeLoop [] segs of Inl e \<Rightarrow> Inl e | Inr clean \<Rightarrow> Inr (Join clean (CHR ''/'')))"

subsection \<open>The list of files\<close>

fun segmentsOf :: "string list \<Rightarrow> bvalue list \<Rightarrow> (meta_error, string list) result" where
  "segmentsOf segs [] = Inr segs"
| "segmentsOf segs (seg # r) =
     (case seg of kBytes b _ _ \<Rightarrow> segmentsOf (segs @ [b]) r | _ \<Rightarrow> Inl SegmentNotString)"

fun filesLoop :: "string \<Rightarrow> int \<Rightarrow> FileEntry list \<Rightarrow> bvalue list \<Rightarrow> (meta_error, FileEntry list) result" where
  "filesLoop name offset files [] = Inr files"
| "filesLoop name offset files (fv # fvs) =
     (case fv of
        kDict _ _ _ \<Rightarrow>
          (case field fv ''length'' of
             Some (kInt len _ _) \<Rightarrow>
               if len < 0 then Inl EntryLength
               else
                 (case field fv ''path'' of
                    Some (kList l _ _) \<Rightarrow>
                      if l = [] then Inl EntryPath
                      else
                        (case segmentsOf (if name \<noteq> '''' then [name] else []) l of
                           Inl e \<Rightarrow> Inl e
                         | Inr segs \<Rightarrow>
                        case sanitizePathSegments segs of
                           Inl e \<Rightarrow> Inl e
                         | Inr path \<Rightarrow>
                             filesLoop name (wrap64 (offset + len))
                               (files @ [\<lparr>Path = path, fe_Size = len, StartOffset = offset, EndOffset = wrap64 (offset + len)\<rparr>]) fvs)
                  | _ \<Rightarrow> Inl EntryPath)
           | _ \<Rightarrow> Inl EntryLength)
      | _ \<Rightarrow> Inl EntryNotDict)"

definition parseV1FilesList :: "bvalue list \<Rightarrow> string \<Rightarrow> (meta_error, FileEntry list) result" where
  "parseV1FilesList l name = filesLoop name 0 [] l"

subsection \<open>The file tree\<close>

record v2Leaf =
  leaf_path :: string
  leaf_size :: int
  leaf_root :: string

definition leafAt :: "bvalue \<Rightarrow> string list \<Rightarrow> (meta_error, v2Leaf) result" where
  "leafAt child prefix =
     (case field child ''length'' of
        Some (kInt len _ _) \<Rightarrow>
          if len < 0 then Inl LeafLength
          else
            (case sanitizePathSegments prefix of
               Inl e \<Rightarrow> Inl e
             | Inr path \<Rightarrow>
                 (case field child ''pieces root'' of
                    None \<Rightarrow> Inr \<lparr>leaf_path = path, leaf_size = len, leaf_root = ''''\<rparr>
                  | Some (kBytes b _ _) \<Rightarrow>
                      if length b \<noteq> 32 then Inl BadPiecesRoot
                      else Inr \<lparr>leaf_path = path, leaf_size = len, leaf_root = EncodeToString b\<rparr>
                  | Some _ \<Rightarrow> Inl BadPiecesRoot))
      | _ \<Rightarrow> Inl LeafLength)"

fun weight :: "bvalue \<Rightarrow> nat" where
  "weight (kDict d s e) = Suc (sum_list (map (\<lambda>(k, v). Suc (weight v)) d))"
| "weight _ = 0"

definition byKey :: "(string \<times> bvalue) list \<Rightarrow> (string \<times> bvalue) list" where
  "byKey = sortStable (\<lambda>a b. bytes_less (fst a) (fst b))"

lemma byKey_weight: "sum_list (map (\<lambda>(k, v). Suc (weight v)) (byKey d)) = sum_list (map (\<lambda>(k, v). Suc (weight v)) d)"
proof -
  have "sum_mset (mset (map f (byKey d))) = sum_mset (mset (map f d))" for f :: "string \<times> bvalue \<Rightarrow> nat"
    by (simp add: byKey_def)
  then show ?thesis unfolding sum_mset_sum_list .
qed

function walkFileTreeLeaves :: "bvalue \<Rightarrow> string list \<Rightarrow> (meta_error, v2Leaf list) result"
  and walkLoop :: "(string \<times> bvalue) list \<Rightarrow> string list \<Rightarrow> v2Leaf list \<Rightarrow> (meta_error, v2Leaf list) result" where
  "walkFileTreeLeaves node prefix =
     (case node of kDict d _ _ \<Rightarrow> walkLoop (byKey d) prefix [] | _ \<Rightarrow> Inl NodeNotDict)"
| "walkLoop [] prefix out = Inr out"
| "walkLoop ((key, child) # rest) prefix out =
     (if key = '''' then
        (case leafAt child prefix of Inl e \<Rightarrow> Inl e | Inr leaf \<Rightarrow> walkLoop rest prefix (out @ [leaf]))
      else case sanitizeSegment key of
        Inl e \<Rightarrow> Inl (FileTreeError e)
      | Inr _ \<Rightarrow>
      case walkFileTreeLeaves child (prefix @ [key]) of
        Inl e \<Rightarrow> Inl e
      | Inr children \<Rightarrow> walkLoop rest prefix (out @ children))"
  by pat_completeness auto
termination
  by (relation "measure (\<lambda>x. case x of Inl (node, _) \<Rightarrow> weight node
        | Inr (kvs, _, _) \<Rightarrow> sum_list (map (\<lambda>(k, v). Suc (weight v)) kvs))")
    (auto simp: byKey_weight)

declare walkFileTreeLeaves.simps [simp del]

fun layoutLeaves :: "int \<Rightarrow> v2Leaf list \<Rightarrow> FileEntry list" where
  "layoutLeaves offset [] = []"
| "layoutLeaves offset (l # ls) =
     \<lparr>Path = leaf_path l, fe_Size = leaf_size l, StartOffset = offset, EndOffset = wrap64 (offset + leaf_size l)\<rparr>
     # layoutLeaves (wrap64 (offset + leaf_size l)) ls"

definition rootsOf :: "v2Leaf list \<Rightarrow> (string \<times> string) list" where
  "rootsOf leaves = fold (\<lambda>l m. if leaf_root l \<noteq> '''' then put (leaf_path l) (leaf_root l) m else m) leaves []"

fun layersLoop :: "(string \<times> string) list \<Rightarrow> (string \<times> bvalue) list \<Rightarrow> (meta_error, (string \<times> string) list) result" where
  "layersLoop layers [] = Inr layers"
| "layersLoop layers ((k, v) # r) =
     (if length k \<noteq> 32 then Inl BadLayerKey
      else case v of
        kBytes b _ _ \<Rightarrow>
          if b = [] \<or> length b mod 32 \<noteq> 0 then Inl BadLayerValue
          else layersLoop (put (EncodeToString k) b layers) r
      | _ \<Rightarrow> Inl BadLayerValue)"


subsection \<open>Parse\<close>

definition parseName :: "bvalue \<Rightarrow> (meta_error, string) result" where
  "parseName info =
     (case field info ''name'' of
        None \<Rightarrow> Inr ''''
      | Some (kBytes b _ _) \<Rightarrow> (case sanitizeSegment b of Inl e \<Rightarrow> Inl (NameError e) | Inr n \<Rightarrow> Inr n)
      | Some _ \<Rightarrow> Inl NameNotString)"

definition parsePieces :: "bvalue \<Rightarrow> (meta_error, string option) result" where
  "parsePieces info =
     (case field info ''pieces'' of
        None \<Rightarrow> Inr None
      | Some (kBytes b _ _) \<Rightarrow> if b = [] \<or> length b mod 20 \<noteq> 0 then Inl BadPieces else Inr (Some b)
      | Some _ \<Rightarrow> Inl BadPieces)"

definition parseTree :: "bvalue \<Rightarrow> (meta_error, bvalue option) result" where
  "parseTree info =
     (case field info ''file tree'' of
        None \<Rightarrow> Inr None
      | Some v \<Rightarrow> (case v of kDict _ _ _ \<Rightarrow> Inr (Some v) | _ \<Rightarrow> Inl FileTreeNotDict))"

definition parseFiles :: "bvalue \<Rightarrow> string \<Rightarrow> bvalue option \<Rightarrow> (meta_error, FileEntry list) result" where
  "parseFiles info name tree =
     (if fieldPresent info ''files'' then
        (case field info ''files'' of
           Some (kList l _ _) \<Rightarrow> if length l > maxFileEntries then Inl (TooManyFiles (length l)) else parseV1FilesList l name
         | _ \<Rightarrow> Inl FilesNotList)
      else if fieldPresent info ''length'' then
        (case field info ''length'' of
           Some (kInt len _ _) \<Rightarrow>
             if len < 0 then Inl BadLength
             else if name = '''' then Inl MissingName
             else Inr [\<lparr>Path = name, fe_Size = len, StartOffset = 0, EndOffset = len\<rparr>]
         | _ \<Rightarrow> Inl BadLength)
      else case tree of
        Some t \<Rightarrow>
          (case walkFileTreeLeaves t [] of
             Inl e \<Rightarrow> Inl e
           | Inr leaves \<Rightarrow>
               if length leaves > maxFileEntries then Inl (TooManyFiles (length leaves))
               else Inr (layoutLeaves 0 leaves))
      | None \<Rightarrow> Inl NoLayout)"

definition parseRoots :: "bvalue option \<Rightarrow> (meta_error, (string \<times> string) list) result" where
  "parseRoots tree =
     (case tree of
        None \<Rightarrow> Inr []
      | Some t \<Rightarrow> (case walkFileTreeLeaves t [] of Inl e \<Rightarrow> Inl e | Inr leaves \<Rightarrow> Inr (rootsOf leaves)))"

definition parseLayers :: "bvalue \<Rightarrow> (meta_error, (string \<times> string) list) result" where
  "parseLayers info =
     (case field info ''piece layers'' of
        None \<Rightarrow> Inr []
      | Some (kDict d _ _) \<Rightarrow> layersLoop [] d
      | Some _ \<Rightarrow> Inl LayersNotDict)"

definition parseMetaVersion :: "bvalue \<Rightarrow> (meta_error, int) result" where
  "parseMetaVersion info =
     (case field info ''meta version'' of None \<Rightarrow> Inr 1 | Some (kInt mv _ _) \<Rightarrow> Inr mv | Some _ \<Rightarrow> Inl BadMetaVersion)"

definition assembleMeta :: "(string \<Rightarrow> string) \<Rightarrow> (string \<Rightarrow> string) \<Rightarrow> string \<Rightarrow> string \<Rightarrow> int \<Rightarrow> string option \<Rightarrow> bool \<Rightarrow> FileEntry list \<Rightarrow>
  (string \<times> string) list \<Rightarrow> (string \<times> string) list \<Rightarrow> (meta_error, TorrentMeta) result" where
  "assembleMeta sha1 sha2 rawInfo name pl pieces two files roots layers =
     (let h1 = (case pieces of None \<Rightarrow> '''' | Some _ \<Rightarrow> EncodeToString (sha1 rawInfo));
          h2 = (if two then EncodeToString (sha2 rawInfo) else '''')
      in if h1 = '''' \<and> h2 = '''' then Inl NoInfoHash
         else if files = [] then Inl NoFiles
         else Inr \<lparr>meta_Name = name, InfoHashV1 = h1, InfoHashV2 = h2, MetaVersion = (if two then 2 else 1),
                PieceLength = pl, Files = files, PieceHashesV1 = (case pieces of None \<Rightarrow> [] | Some b \<Rightarrow> b),
                V2MerkleRoots = roots, PieceLayers = layers\<rparr>)"

definition parseInfo :: "(string \<Rightarrow> string) \<Rightarrow> (string \<Rightarrow> string) \<Rightarrow> string \<Rightarrow> bvalue \<Rightarrow> (meta_error, TorrentMeta) result" where
  "parseInfo sha1 sha2 rawInfo info =
     (case parseName info of
        Inl e \<Rightarrow> Inl e
      | Inr name \<Rightarrow>
      case field info ''piece length'' of
        Some (kInt pl _ _) \<Rightarrow>
          if pl \<le> 0 then Inl BadPieceLength
          else
            (case parseMetaVersion info of
               Inl e \<Rightarrow> Inl e
             | Inr metaVersion \<Rightarrow>
            case parsePieces info of
               Inl e \<Rightarrow> Inl e
             | Inr pieces \<Rightarrow>
            case parseTree info of
               Inl e \<Rightarrow> Inl e
             | Inr tree \<Rightarrow>
            case parseFiles info name tree of
               Inl e \<Rightarrow> Inl e
             | Inr files \<Rightarrow>
            case parseRoots tree of
               Inl e \<Rightarrow> Inl e
             | Inr roots \<Rightarrow>
            case parseLayers info of
               Inl e \<Rightarrow> Inl e
             | Inr layers \<Rightarrow>
                 assembleMeta sha1 sha2 rawInfo name pl pieces (metaVersion = 2 \<or> tree \<noteq> None) files roots layers)
      | _ \<Rightarrow> Inl BadPieceLength)"

definition Parse :: "(string \<Rightarrow> string) \<Rightarrow> (string \<Rightarrow> string) \<Rightarrow> string \<Rightarrow> (meta_error, TorrentMeta) result" where
  "Parse sha1 sha2 data =
     (if data = [] then Inl EmptyInput
      else if int (length data) > maxTorrentBytes then Inl InputTooLarge
      else case decodeTop data of
        Inl e \<Rightarrow> Inl (DecodeError e)
      | Inr root \<Rightarrow>
          (case root of
             kDict _ _ _ \<Rightarrow>
               (case field root ''info'' of
                  Some (kDict d s e) \<Rightarrow> parseInfo sha1 sha2 (take (e - s) (drop s data)) (kDict d s e)
                | _ \<Rightarrow> Inl MissingInfo)
           | _ \<Rightarrow> Inl RootNotDict))"

subsection \<open>What leaves Parse is well-formed\<close>

definition safe_segment :: "string \<Rightarrow> bool" where
  "safe_segment s \<longleftrightarrow> s \<noteq> '''' \<and> s \<noteq> ''.'' \<and> s \<noteq> ''..'' \<and> CHR ''/'' \<notin> set s \<and> CHR 0x5C \<notin> set s \<and> CHR 0x00 \<notin> set s"

definition safe_path :: "string \<Rightarrow> bool" where
  "safe_path p \<longleftrightarrow> (\<exists>segs. segs \<noteq> [] \<and> p = Join segs (CHR ''/'') \<and> list_all safe_segment segs)"

text \<open>The extents follow each other from \<open>offset\<close> on, in the wrapped arithmetic of the code.\<close>

fun laid_out :: "int \<Rightarrow> FileEntry list \<Rightarrow> bool" where
  "laid_out offset [] = True"
| "laid_out offset (f # fs) = (StartOffset f = offset \<and> 0 \<le> fe_Size f \<and> in_int64 (fe_Size f) \<and> EndOffset f = wrap64 (offset + fe_Size f) \<and> laid_out (EndOffset f) fs)"

lemma sanitizeSegment_safe: "sanitizeSegment s = Inr t \<Longrightarrow> safe_segment t"
  by (auto simp: sanitizeSegment_def safe_segment_def Let_def split: if_splits)

lemma sanitizeLoop_safe:
  "sanitizeLoop clean segs = Inr out \<Longrightarrow> list_all safe_segment clean \<Longrightarrow> list_all safe_segment out \<and> length out = length clean + length segs"
  by (induction clean segs rule: sanitizeLoop.induct) (auto dest: sanitizeSegment_safe split: sum.splits)

lemma sanitizePathSegments_safe:
  assumes "sanitizePathSegments segs = Inr p"
  shows "safe_path p"
proof -
  obtain clean where "segs \<noteq> []" "sanitizeLoop [] segs = Inr clean" "p = Join clean (CHR ''/'')"
    using assms by (auto simp: sanitizePathSegments_def split: if_splits sum.splits)
  with sanitizeLoop_safe [of "[]" segs clean] show ?thesis
    unfolding safe_path_def by (intro exI [of _ clean]) auto
qed

text \<open>Every integer in a decoded value is an \<open>int64\<close>.\<close>

definition int_ok :: "bvalue \<Rightarrow> bool" where
  "int_ok v \<longleftrightarrow> (\<forall>n s e. kInt n s e \<in> set (nodes v) \<longrightarrow> in_int64 n)"

lemma decode_int_range:
  assumes "decode k pos x = Inr (kInt n s e, q)"
  shows "in_int64 n"
proof -
  obtain j c r where "k = Suc j" "x = c # r" "decodeInt pos x = Inr (kInt n s e, q)"
    using assms by (cases k; cases x) (auto simp: decodeBytes_def Let_def split: if_splits sum.splits option.splits)
  then obtain t where "ParseInt 64 t = Some n"
    by (auto simp: decodeInt_def Let_def split: if_splits option.splits)
  from ParseInt_range [OF this] show ?thesis by (simp add: in_int64_def MaxInt64_def MinInt64_def)
qed

lemma decodeTop_int_ok:
  assumes "decodeTop data = Inr root"
  shows "int_ok root"
proof -
  obtain p r where "decode (maxDecodeDepth + 1) 0 (drop 0 data) = Inr (root, p, r)"
    using assms by (auto simp: decodeTop_def split: sum.splits)
  from decode_spans [OF this] show ?thesis unfolding int_ok_def spanned_def by (fastforce dest: decode_int_range)
qed

lemma int_ok_simps [simp]:
  "int_ok (kInt n s e) \<longleftrightarrow> in_int64 n"
  "int_ok (kList l s e) \<longleftrightarrow> (\<forall>v \<in> set l. int_ok v)"
  "int_ok (kDict d s e) \<longleftrightarrow> (\<forall>(k, v) \<in> set d. int_ok v)"
proof -
  show "int_ok (kInt n s e) \<longleftrightarrow> in_int64 n" "int_ok (kList l s e) \<longleftrightarrow> (\<forall>v \<in> set l. int_ok v)"
    by (auto simp: int_ok_def)
  have "kInt n s' e' \<in> set (nodes (kDict d s e)) \<longleftrightarrow> (\<exists>(k, v) \<in> set d. kInt n s' e' \<in> set (nodes v))" for n s' e'
    by force
  then show "int_ok (kDict d s e) \<longleftrightarrow> (\<forall>(k, v) \<in> set d. int_ok v)" unfolding int_ok_def by blast
qed

lemma int_ok_field: "int_ok v \<Longrightarrow> field v key = Some w \<Longrightarrow> int_ok w"
  by (cases v) (auto dest!: map_of_SomeD)

lemma laid_out_append:
  "laid_out offset fs \<Longrightarrow> laid_out (if fs = [] then offset else EndOffset (last fs)) gs \<Longrightarrow> laid_out offset (fs @ gs)"
  by (induction offset fs rule: laid_out.induct) (auto split: if_splits)

definition files_ok :: "FileEntry list \<Rightarrow> bool" where
  "files_ok fs \<longleftrightarrow> laid_out 0 fs \<and> (\<forall>f \<in> set fs. safe_path (Path f))"

lemma files_ok_snoc:
  assumes "files_ok fs" and "offset = (if fs = [] then 0 else EndOffset (last fs))" and "0 \<le> len" "in_int64 len" "safe_path path"
  shows "files_ok (fs @ [\<lparr>Path = path, fe_Size = len, StartOffset = offset, EndOffset = wrap64 (offset + len)\<rparr>])"
  using assms unfolding files_ok_def by (auto intro!: laid_out_append)

lemma filesLoop_Cons:
  assumes "filesLoop name offset files (fv # fvs) = Inr out" and "int_ok fv"
  obtains len path where "0 \<le> len" "in_int64 len" "safe_path path"
    "filesLoop name (wrap64 (offset + len))
        (files @ [\<lparr>Path = path, fe_Size = len, StartOffset = offset, EndOffset = wrap64 (offset + len)\<rparr>]) fvs = Inr out"
proof -
  obtain len s e path segs where len: "field fv ''length'' = Some (kInt len s e)" "0 \<le> len"
    and path: "sanitizePathSegments segs = Inr path"
    and rec: "filesLoop name (wrap64 (offset + len))
        (files @ [\<lparr>Path = path, fe_Size = len, StartOffset = offset, EndOffset = wrap64 (offset + len)\<rparr>]) fvs = Inr out"
    using assms(1) by (auto split: bvalue.splits option.splits if_splits sum.splits)
  from int_ok_field [OF assms(2) len(1)] have "in_int64 len" by simp
  from that [OF len(2) this sanitizePathSegments_safe [OF path] rec] show thesis .
qed

lemma filesLoop_ok:
  assumes "filesLoop name offset files fvs = Inr out" and "files_ok files"
    and "offset = (if files = [] then 0 else EndOffset (last files))" and "\<forall>fv \<in> set fvs. int_ok fv"
  shows "files_ok out \<and> length out = length files + length fvs"
  using assms
proof (induction fvs arbitrary: offset files)
  case (Cons fv fvs)
  from Cons.prems(1) obtain len path where *: "0 \<le> len" "in_int64 len" "safe_path path"
    "filesLoop name (wrap64 (offset + len))
        (files @ [\<lparr>Path = path, fe_Size = len, StartOffset = offset, EndOffset = wrap64 (offset + len)\<rparr>]) fvs = Inr out"
    using Cons.prems(4) by (elim filesLoop_Cons) auto
  from Cons.IH [OF *(4) files_ok_snoc [OF Cons.prems(2,3) *(1-3)]] Cons.prems(4) show ?case by simp
qed simp

definition leaf_ok :: "v2Leaf \<Rightarrow> bool" where
  "leaf_ok l \<longleftrightarrow> safe_path (leaf_path l) \<and> 0 \<le> leaf_size l \<and> in_int64 (leaf_size l) \<and> (leaf_root l = '''' \<or> length (leaf_root l) = 64)"

lemma leafAt_ok: "leafAt child prefix = Inr l \<Longrightarrow> int_ok child \<Longrightarrow> leaf_ok l"
  by (auto simp: leafAt_def leaf_ok_def dest: sanitizePathSegments_safe int_ok_field split: option.splits bvalue.splits if_splits sum.splits)

lemma walk_ok:
  "walkFileTreeLeaves node prefix = Inr ls \<Longrightarrow> int_ok node \<Longrightarrow> list_all leaf_ok ls"
  "walkLoop kvs prefix out = Inr ls \<Longrightarrow> \<forall>(k, v) \<in> set kvs. int_ok v \<Longrightarrow> list_all leaf_ok out \<Longrightarrow> list_all leaf_ok ls"
proof (induction node prefix and kvs prefix out arbitrary: ls and ls rule: walkFileTreeLeaves_walkLoop.induct)
  case (1 node prefix)
  then show ?case by (cases node) (auto simp: walkFileTreeLeaves.simps byKey_def)
next
  case (3 key child rest prefix out)
  have ch: "int_ok child" and rest: "\<forall>(k, v) \<in> set rest. int_ok v" using "3.prems"(2) by auto
  show ?case
  proof (cases "key = ''''")
    case True
    with "3.prems"(1) obtain leaf where l: "leafAt child prefix = Inr leaf" "walkLoop rest prefix (out @ [leaf]) = Inr ls"
      by (auto split: sum.splits)
    from "3.IH"(1) [OF True l rest] "3.prems"(3) leafAt_ok [OF l(1) ch] show ?thesis by simp
  next
    case False
    with "3.prems"(1) obtain s children where c: "sanitizeSegment key = Inr s" "walkFileTreeLeaves child (prefix @ [key]) = Inr children"
      "walkLoop rest prefix (out @ children) = Inr ls" by (auto split: sum.splits)
    from "3.IH"(2) [OF False c(1,2) ch] have "list_all leaf_ok children" .
    with "3.IH"(3) [OF False c rest] "3.prems"(3) show ?thesis by simp
  qed
qed auto

lemma layoutLeaves_ok:
  "list_all leaf_ok ls \<Longrightarrow> laid_out offset (layoutLeaves offset ls) \<and> (\<forall>f \<in> set (layoutLeaves offset ls). safe_path (Path f)) \<and>
     length (layoutLeaves offset ls) = length ls"
  by (induction offset ls rule: layoutLeaves.induct) (auto simp: leaf_ok_def)

lemma put_entries: "(k, v) \<in> set (put k' v' d) \<Longrightarrow> (k, v) = (k', v') \<or> (k, v) \<in> set d"
  by (induction d) (auto split: if_splits)

lemma put_distinct: "distinct (map fst d) \<Longrightarrow> distinct (map fst (put k v d))"
proof (induction d)
  case (Cons e d)
  obtain k' v' where e: "e = (k', v')" by fastforce
  have "fst ` set (put k v d) \<subseteq> insert k (fst ` set d)"
    using put_entries by fastforce
  with Cons e show ?case by auto
qed simp

lemma rootsOf_ok:
  assumes "list_all leaf_ok ls"
  shows "distinct (map fst (rootsOf ls)) \<and> (\<forall>(p, r) \<in> set (rootsOf ls). safe_path p \<and> length r = 64)"
proof -
  let ?step = "\<lambda>l m. if leaf_root l \<noteq> '''' then put (leaf_path l) (leaf_root l) m else m"
  have "distinct (map fst (fold ?step ls m)) \<and> (\<forall>(p, r) \<in> set (fold ?step ls m). safe_path p \<and> length r = 64)"
    if "distinct (map fst m) \<and> (\<forall>(p, r) \<in> set m. safe_path p \<and> length r = 64)" for m
    using assms that
  proof (induction ls arbitrary: m)
    case (Cons l ls)
    have "distinct (map fst (?step l m)) \<and> (\<forall>(p, r) \<in> set (?step l m). safe_path p \<and> length r = 64)"
      using Cons.prems by (auto simp: leaf_ok_def put_distinct dest: put_entries)
    with Cons show ?case by simp
  qed simp
  from this [of "[]"] show ?thesis by (simp add: rootsOf_def)
qed

lemma layersLoop_ok:
  assumes "layersLoop layers d = Inr out" and "\<forall>(k, v) \<in> set layers. length k = 64 \<and> v \<noteq> [] \<and> length v mod 32 = 0"
  shows "\<forall>(k, v) \<in> set out. length k = 64 \<and> v \<noteq> [] \<and> length v mod 32 = 0"
  using assms
  by (induction layers d rule: layersLoop.induct) (fastforce dest: put_entries split: if_splits bvalue.splits)+

lemma parseFiles_ok:
  assumes "parseFiles info name tree = Inr files" and "name = '''' \<or> safe_segment name"
    and "int_ok info" and "\<And>t. tree = Some t \<Longrightarrow> int_ok t"
  shows "files_ok files \<and> length files \<le> maxFileEntries"
proof -
  consider (v1) l s e where "field info ''files'' = Some (kList l s e)" "length l \<le> maxFileEntries" "parseV1FilesList l name = Inr files"
    | (single) len s e where "field info ''length'' = Some (kInt len s e)" "0 \<le> len" "name \<noteq> ''''" "files = [\<lparr>Path = name, fe_Size = len, StartOffset = 0, EndOffset = len\<rparr>]"
    | (tree) t leaves where "tree = Some t" "walkFileTreeLeaves t [] = Inr leaves" "length leaves \<le> maxFileEntries" "files = layoutLeaves 0 leaves"
    using assms(1) by (auto simp: parseFiles_def fieldPresent_def split: if_splits option.splits bvalue.splits sum.splits)
  then show ?thesis
  proof cases
    case v1
    then show ?thesis using filesLoop_ok [of name 0 "[]" l files] int_ok_field [OF assms(3) v1(1)]
      by (simp add: parseV1FilesList_def files_ok_def)
  next
    case single
    have "safe_path name" unfolding safe_path_def by (rule exI [of _ "[name]"]) (use single assms(2) in simp)
    with single int_ok_field [OF assms(3) single(1)] show ?thesis
      by (simp add: files_ok_def wrap64_id maxFileEntries_def)
  next
    case tree
    then show ?thesis using layoutLeaves_ok [OF walk_ok(1), of t "[]" leaves 0] assms(4) by (simp add: files_ok_def)
  qed
qed


definition meta_wrapped :: "TorrentMeta \<Rightarrow> bool" where
  "meta_wrapped m \<longleftrightarrow> 0 < PieceLength m \<and> in_int64 (PieceLength m) \<and>
     files_ok (Files m) \<and> Files m \<noteq> [] \<and> length (Files m) \<le> maxFileEntries \<and>
     (meta_Name m = '''' \<or> safe_segment (meta_Name m)) \<and>
     length (PieceHashesV1 m) mod 20 = 0 \<and> MetaVersion m \<in> {1, 2} \<and> (InfoHashV1 m \<noteq> '''' \<or> InfoHashV2 m \<noteq> '''') \<and>
     distinct (map fst (V2MerkleRoots m)) \<and> (\<forall>(p, r) \<in> set (V2MerkleRoots m). safe_path p \<and> length r = 64) \<and>
     (\<forall>(k, v) \<in> set (PieceLayers m). length k = 64 \<and> v \<noteq> [] \<and> length v mod 32 = 0)"

lemma parseInfo_parts:
  assumes "parseInfo sha1 sha2 raw info = Inr m"
  obtains name pl s e two pieces tree files roots layers where "parseName info = Inr name"
    "field info ''piece length'' = Some (kInt pl s e)" "0 < pl" "parsePieces info = Inr pieces"
    "parseTree info = Inr tree" "parseFiles info name tree = Inr files" "parseRoots tree = Inr roots" "parseLayers info = Inr layers"
    "assembleMeta sha1 sha2 raw name pl pieces two files roots layers = Inr m"
  using assms unfolding parseInfo_def
  by (auto split: sum.splits option.splits bvalue.splits if_splits)

lemma assembleMeta_parts:
  assumes "assembleMeta sha1 sha2 raw name pl pieces two files roots layers = Inr m"
  shows "meta_Name m = name" "PieceLength m = pl" "Files m = files" "files \<noteq> []" "V2MerkleRoots m = roots" "PieceLayers m = layers"
    "PieceHashesV1 m = (case pieces of None \<Rightarrow> [] | Some b \<Rightarrow> b)" "MetaVersion m = (if two then 2 else 1)"
    "InfoHashV1 m = (case pieces of None \<Rightarrow> '''' | Some _ \<Rightarrow> EncodeToString (sha1 raw))"
    "InfoHashV2 m = (if two then EncodeToString (sha2 raw) else '''')" "InfoHashV1 m \<noteq> '''' \<or> InfoHashV2 m \<noteq> ''''"
  using assms by (auto simp: assembleMeta_def Let_def split: if_splits)

lemma Parse_parts:
  assumes "Parse sha1 sha2 data = Inr m"
  obtains root d s e where "decodeTop data = Inr root" "field root ''info'' = Some (kDict d s e)"
    "parseInfo sha1 sha2 (take (e - s) (drop s data)) (kDict d s e) = Inr m"
  using assms by (auto simp: Parse_def split: if_splits sum.splits bvalue.splits option.splits)


lemma parse_fields:
  "parseName info = Inr name \<Longrightarrow> name = '''' \<or> safe_segment name"
  "parsePieces info = Inr pieces \<Longrightarrow> length (case pieces of None \<Rightarrow> [] | Some b \<Rightarrow> b) mod 20 = 0"
  "parseTree info = Inr (Some t) \<Longrightarrow> field info ''file tree'' = Some t"
  by (auto simp: parseName_def parsePieces_def parseTree_def dest: sanitizeSegment_safe
      split: option.splits bvalue.splits if_splits sum.splits)

lemma parseRoots_ok:
  "parseRoots tree = Inr roots \<Longrightarrow> (\<And>t. tree = Some t \<Longrightarrow> int_ok t) \<Longrightarrow>
   distinct (map fst roots) \<and> (\<forall>(p, r) \<in> set roots. safe_path p \<and> length r = 64)"
  by (cases tree) (auto simp: parseRoots_def rootsOf_ok [THEN conjunct1] dest!: walk_ok(1) rootsOf_ok split: sum.splits)

lemma parseLayers_ok: "parseLayers info = Inr layers \<Longrightarrow> \<forall>(k, v) \<in> set layers. length k = 64 \<and> v \<noteq> [] \<and> length v mod 32 = 0"
  by (auto simp: parseLayers_def split: option.splits bvalue.splits dest!: layersLoop_ok)

lemma parseInfo_ok:
  assumes "parseInfo sha1 sha2 raw info = Inr m" and "int_ok info"
  shows "meta_wrapped m"
proof -
  from assms(1) obtain name pl s e two pieces tree files roots layers where p: "parseName info = Inr name"
    "field info ''piece length'' = Some (kInt pl s e)" "0 < pl" "parsePieces info = Inr pieces"
    "parseTree info = Inr tree" "parseFiles info name tree = Inr files" "parseRoots tree = Inr roots" "parseLayers info = Inr layers"
    and a: "assembleMeta sha1 sha2 raw name pl pieces two files roots layers = Inr m"
    by (rule parseInfo_parts)
  have t: "int_ok t" if "tree = Some t" for t
    using parse_fields(3) [OF p(5) [unfolded that]] by (rule int_ok_field [OF assms(2)])
  note parts = assembleMeta_parts [OF a]
  have "in_int64 pl" using int_ok_field [OF assms(2) p(2)] by simp
  moreover note parseFiles_ok [OF p(6) parse_fields(1) [OF p(1)] assms(2) t] parseRoots_ok [OF p(7) t]
    parse_fields(1) [OF p(1)] parse_fields(2) [OF p(4)] parseLayers_ok [OF p(8)]
  ultimately show ?thesis using p(3) parts unfolding meta_wrapped_def by auto
qed

lemma bounds_code [code_unfold]:
  "maxContainerLen < n \<longleftrightarrow> (200000 :: int) < int n" "maxFileEntries < n \<longleftrightarrow> (100000 :: int) < int n"
  by (auto simp: maxContainerLen_def maxFileEntries_def)

definition demo_torrent :: string where
  "demo_torrent = ''d4:infod6:lengthi5e4:name5:a.mkv12:piece lengthi4e6:pieces40:'' @ replicate 40 (CHR ''h'') @ ''ee''"

definition demo_meta :: TorrentMeta where
  "demo_meta = \<lparr>meta_Name = ''a.mkv'', InfoHashV1 = EncodeToString ''d6'', InfoHashV2 = '''', MetaVersion = 1, PieceLength = 4,
     Files = [\<lparr>Path = ''a.mkv'', fe_Size = 5, StartOffset = 0, EndOffset = 5\<rparr>], PieceHashesV1 = replicate 40 (CHR ''h''),
     V2MerkleRoots = [], PieceLayers = []\<rparr>"

lemma demo_parsed: "Parse (take 2) (take 3) demo_torrent = Inr demo_meta"
  by code_simp

text \<open>The extents follow each other from \<open>offset\<close> on, exactly.\<close>

fun contiguous :: "int \<Rightarrow> FileEntry list \<Rightarrow> bool" where
  "contiguous offset [] = True"
| "contiguous offset (f # fs) = (StartOffset f = offset \<and> EndOffset f = offset + fe_Size f \<and> contiguous (offset + fe_Size f) fs)"

definition meta_ok :: "TorrentMeta \<Rightarrow> bool" where
  "meta_ok m \<longleftrightarrow> 0 < PieceLength m \<and> in_int64 (PieceLength m) \<and>
     (\<forall>f \<in> set (Files m). safe_path (Path f) \<and> 0 \<le> fe_Size f \<and> in_int64 (fe_Size f)) \<and>
     (sum_list (map fe_Size (Files m)) \<le> MaxInt64 \<longrightarrow> contiguous 0 (Files m)) \<and> Files m \<noteq> [] \<and> length (Files m) \<le> maxFileEntries \<and>
     (meta_Name m = '''' \<or> safe_segment (meta_Name m)) \<and>
     length (PieceHashesV1 m) mod 20 = 0 \<and> MetaVersion m \<in> {1, 2} \<and> (InfoHashV1 m \<noteq> '''' \<or> InfoHashV2 m \<noteq> '''') \<and>
     distinct (map fst (V2MerkleRoots m)) \<and> (\<forall>(p, r) \<in> set (V2MerkleRoots m). safe_path p \<and> length r = 64) \<and>
     (\<forall>(k, v) \<in> set (PieceLayers m). length k = 64 \<and> v \<noteq> [] \<and> length v mod 32 = 0)"

lemma laid_out_sizes: "laid_out offset fs \<Longrightarrow> f \<in> set fs \<Longrightarrow> 0 \<le> fe_Size f \<and> in_int64 (fe_Size f)"
  by (induction offset fs rule: laid_out.induct) auto

lemma laid_out_contiguous:
  "laid_out offset fs \<Longrightarrow> 0 \<le> offset \<Longrightarrow> offset + sum_list (map fe_Size fs) \<le> MaxInt64 \<Longrightarrow> contiguous offset fs"
proof (induction offset fs rule: laid_out.induct)
  case (2 offset f fs)
  have "0 \<le> sum_list (map fe_Size fs)" using 2(2) laid_out_sizes by (intro sum_list_nonneg) auto
  then have "wrap64 (offset + fe_Size f) = offset + fe_Size f" using 2(2-4) by (intro wrap64_small) auto
  with 2 show ?case by (auto simp: add.assoc)
qed simp

lemma meta_wrapped_ok: "meta_wrapped m \<Longrightarrow> meta_ok m"
  using laid_out_sizes [of 0 "Files m"] laid_out_contiguous [of 0 "Files m"] unfolding meta_wrapped_def meta_ok_def files_ok_def by auto

text \<open>C36: every metadata record that leaves \<open>Parse\<close> is well-formed. The piece length is positive; there is at least
  one file and no more than the bound; names and all file paths, also those keying the Merkle roots, are built from
  segments that are not empty, not a dot or two, and hold no separator or NUL, so no upload can name a
  path outside its root; sizes are not negative, and if they add up to an \<open>int64\<close> the extents follow each other exactly from zero; hash tables have whole entries;
  the roots have distinct paths; and there is an info hash.\<close>

theorem parsed_meta_well_formed:
  assumes "Parse sha1 sha2 data = Inr m"
  shows "meta_ok m"
  using assms
proof (rule Parse_parts)
  fix root d s e
  assume d: "decodeTop data = Inr root" "field root ''info'' = Some (kDict d s e)"
    and i: "parseInfo sha1 sha2 (take (e - s) (drop s data)) (kDict d s e) = Inr m"
  show ?thesis by (rule meta_wrapped_ok [OF parseInfo_ok [OF i int_ok_field [OF decodeTop_int_ok [OF d(1)] d(2)]]])
qed

theorem parsed_meta_well_formed_witness:
  "meta_ok demo_meta \<and> safe_path ''a.mkv''"
  using parsed_meta_well_formed [OF demo_parsed] by (simp add: meta_ok_def demo_meta_def)

text \<open>C37: the info hashes identify exactly the bytes of the info dictionary. For every metadata record that leaves
  \<open>Parse\<close> there is a contiguous piece of the upload that is, byte for byte, the encoding of the value under
  \<open>info\<close>: decoded on its own it is consumed whole and gives that same value. The v1 hash is present iff there are pieces and is the SHA-1 of
  that piece of the upload, the v2 hash is present iff the version is 2 and is its SHA-256.\<close>

theorem infohash_covers_info_exactly:
  assumes "Parse sha1 sha2 data = Inr m"
  shows "\<exists>pre raw post root info v. data = pre @ raw @ post \<and> decodeTop data = Inr root \<and> field root ''info'' = Some info \<and>
    decodeTop raw = Inr v \<and> erase v = erase info \<and> v_start v = 0 \<and> v_end v = length raw \<and>
    InfoHashV1 m = (if fieldPresent info ''pieces'' then EncodeToString (sha1 raw) else '''') \<and>
    InfoHashV2 m = (if MetaVersion m = 2 then EncodeToString (sha2 raw) else '''')"
  using assms
proof (rule Parse_parts)
  fix root d s e
  assume d: "decodeTop data = Inr root" "field root ''info'' = Some (kDict d s e)"
    and i: "parseInfo sha1 sha2 (take (e - s) (drop s data)) (kDict d s e) = Inr m"
  let ?raw = "take (e - s) (drop s data)"
  have "kDict d s e \<in> set (nodes root)"
    using d(2) by (cases root) (force dest!: map_of_SomeD intro: node_self)+
  from span_is_own_encoding [OF d(1) this] obtain v where v: "s < e" "e \<le> length data" "decodeTop ?raw = Inr v"
    "erase v = erase (kDict d s e)" "v_start v = 0" "v_end v = e - s" by auto
  have split: "data = take s data @ ?raw @ drop e data"
    using v(1,2) append_take_drop_id [of "e - s" "drop s data"] by simp
  from i obtain name pl s' e' two pieces tree files roots layers where p: "parsePieces (kDict d s e) = Inr pieces"
    and a: "assembleMeta sha1 sha2 ?raw name pl pieces two files roots layers = Inr m"
    by (rule parseInfo_parts)
  from p have "pieces \<noteq> None \<longleftrightarrow> fieldPresent (kDict d s e) ''pieces''"
    by (auto simp: parsePieces_def fieldPresent_def split: option.splits bvalue.splits if_splits)
  with assembleMeta_parts(8-10) [OF a]
  have h: "InfoHashV1 m = (if fieldPresent (kDict d s e) ''pieces'' then EncodeToString (sha1 ?raw) else '''')"
    "InfoHashV2 m = (if MetaVersion m = 2 then EncodeToString (sha2 ?raw) else '''')"
    by (auto split: option.splits)
  have len: "v_end v = length ?raw" using v(1,2,6) by simp
  show ?thesis using split d v(3-5) len h by blast
qed


theorem infohash_covers_info_exactly_witness:
  "\<exists>pre raw post v. demo_torrent = pre @ raw @ post \<and> decodeTop raw = Inr v \<and> v_end v = length raw \<and> EncodeToString (take 2 raw) = InfoHashV1 demo_meta"
proof -
  have "InfoHashV1 demo_meta \<noteq> ''''" by (simp add: demo_meta_def EncodeToString_def)
  with infohash_covers_info_exactly [OF demo_parsed] show ?thesis by (metis (full_types))
qed

end
