(* ===== verification/TorrentVerify.thy ===== *)
theory TorrentVerify
  imports TorrentMeta
begin

section \<open>Opportunistic verification of torrent bytes\<close>

text \<open>
  Models \<open>internal/torrentmeta/verify.go\<close>: \<open>VerifyWindow\<close> checks the whole pieces of a window of bytes
  against the v1 piece hashes or the v2 piece layer, and \<open>computeV2PieceHash\<close> builds the hash tree of
  one v2 piece. SHA-1 and SHA-256 are arguments; offsets wrap as \<open>int64\<close>.

  Results: the loop over the levels of the tree ends after as many rounds as the tree is deep with
  the recursively defined root, and the verdict on a window is right about exactly the pieces that
  lie inside it.
\<close>

definition v2BlockSize :: nat where "v2BlockSize = 16384"

text \<open>The loop over the whole pieces of a window: \<open>first\<close> is the index of the piece the window starts with,
  \<open>size\<close> the length of one hash in \<open>table\<close>. The result is the count of checked pieces, whether all
  matched, and the index of the first that did not.\<close>

fun checkPieces :: "(string \<Rightarrow> string) \<Rightarrow> nat \<Rightarrow> string \<Rightarrow> int \<Rightarrow> nat \<Rightarrow> string \<Rightarrow> nat \<Rightarrow> nat list \<Rightarrow> nat \<times> bool \<times> int" where
  "checkPieces h hlen table first pl data checked [] = (checked, True, 0)"
| "checkPieces h hlen table first pl data checked (i # is) =
     (let idx = wrap64 (first + int i) in
      if idx < 0 \<or> idx \<ge> int (length table div hlen) then checkPieces h hlen table first pl data checked is
      else if h (take pl (drop (i * pl) data)) \<noteq> take hlen (drop (nat idx * hlen) table) then (checked + 1, False, idx)
      else checkPieces h hlen table first pl data (checked + 1) is)"

definition verifyWindowV1 :: "(string \<Rightarrow> string) \<Rightarrow> TorrentMeta \<Rightarrow> FileEntry \<Rightarrow> int \<Rightarrow> string \<Rightarrow> int \<Rightarrow> nat \<times> bool \<times> int" where
  "verifyWindowV1 sha1 meta fe off data pl =
     (let absStart = wrap64 (StartOffset fe + off) in
      checkPieces sha1 20 (PieceHashesV1 meta) (go_div absStart pl) (nat pl) data 0 [0 ..< length data div nat pl])"

text \<open>Pairwise reduction of the levels; \<open>cx\<close> is read before each. Go would panic on an empty level.\<close>

fun pairUp :: "(string \<Rightarrow> string) \<Rightarrow> string list \<Rightarrow> string list" where
  "pairUp h (a # b # r) = h (a @ b) # pairUp h r"
| "pairUp h _ = []"

lemma length_pairUp [simp]: "length (pairUp h l) = length l div 2"
  by (induction h l rule: pairUp.induct) auto

function merkleRootContext :: "(string \<Rightarrow> string) \<Rightarrow> (nat \<Rightarrow> 'e option) \<Rightarrow> nat \<Rightarrow> string list \<Rightarrow> ('e, string) result" where
  "merkleRootContext h cx k level =
     (if length level > 1 then
        (case cx k of Some e \<Rightarrow> Inl e | None \<Rightarrow> merkleRootContext h cx (k + 1) (pairUp h level))
      else Inr (hd level))"
  by pat_completeness auto
termination by (relation "measure (\<lambda>(h, cx, k, level). length level)") auto

declare merkleRootContext.simps [simp del]

text \<open>The leaves: one hash per block, at most \<open>need\<close> of them. \<open>cx\<close> is read before each.\<close>

function leavesLoop :: "(string \<Rightarrow> string) \<Rightarrow> (nat \<Rightarrow> 'e option) \<Rightarrow> nat \<Rightarrow> string list \<Rightarrow> string \<Rightarrow> ('e, string list) result" where
  "leavesLoop h cx need leaves data =
     (if data \<noteq> [] \<and> length leaves < need then
        (case cx (length leaves) of
           Some e \<Rightarrow> Inl e
         | None \<Rightarrow> leavesLoop h cx need (leaves @ [h (take v2BlockSize data)]) (drop v2BlockSize data))
      else Inr leaves)"
  by pat_completeness auto
termination by (relation "measure (\<lambda>(h, cx, need, leaves, data). need - length leaves)") auto

declare leavesLoop.simps [simp del]

definition zeroBlockHash :: "(string \<Rightarrow> string) \<Rightarrow> string" where
  "zeroBlockHash h = h (replicate v2BlockSize (CHR 0x00))"

definition leavesNeeded :: "int \<Rightarrow> nat" where
  "leavesNeeded pl = (let n = go_div pl (int v2BlockSize) in if n < 1 then 1 else nat n)"

definition computeV2PieceHashContext :: "(string \<Rightarrow> string) \<Rightarrow> (nat \<Rightarrow> 'e option) \<Rightarrow> (nat \<Rightarrow> 'e option) \<Rightarrow> string \<Rightarrow> int \<Rightarrow> ('e, string) result" where
  "computeV2PieceHashContext h cx cx2 pieceData pl =
     (case leavesLoop h cx (leavesNeeded pl) [] pieceData of
        Inl e \<Rightarrow> Inl e
      | Inr leaves \<Rightarrow>
          merkleRootContext h cx2 0 (leaves @ replicate (leavesNeeded pl - length leaves) (zeroBlockHash h)))"

definition computeV2PieceHash :: "(string \<Rightarrow> string) \<Rightarrow> string \<Rightarrow> int \<Rightarrow> string" where
  "computeV2PieceHash h pieceData pl =
     (case computeV2PieceHashContext h (\<lambda>_. None :: unit option) (\<lambda>_. None) pieceData pl of
        Inl _ \<Rightarrow> replicate 32 (CHR 0x00) | Inr root \<Rightarrow> root)"

definition verifyWindowV2 :: "(string \<Rightarrow> string) \<Rightarrow> TorrentMeta \<Rightarrow> FileEntry \<Rightarrow> int \<Rightarrow> string \<Rightarrow> int \<Rightarrow> nat \<times> bool \<times> int" where
  "verifyWindowV2 sha2 meta fe off data pl =
     (case map_of (V2MerkleRoots meta) (Path fe) of
        None \<Rightarrow> (0, True, 0)
      | Some rootHex \<Rightarrow>
          (case map_of (PieceLayers meta) rootHex of
             None \<Rightarrow> (0, True, 0)
           | Some layer \<Rightarrow>
               checkPieces (\<lambda>d. computeV2PieceHash sha2 d pl) 32 layer (go_div off pl) (nat pl) data 0 [0 ..< length data div nat pl]))"

definition VerifyWindow :: "(string \<Rightarrow> string) \<Rightarrow> (string \<Rightarrow> string) \<Rightarrow> TorrentMeta option \<Rightarrow> FileEntry option \<Rightarrow> int \<Rightarrow> string \<Rightarrow> nat \<times> bool \<times> int" where
  "VerifyWindow sha1 sha2 metap filep off data =
     (case (metap, filep) of
        (Some meta, Some fe) \<Rightarrow>
          if data = [] \<or> PieceLength meta \<le> 0 \<or> off < 0 then (0, True, 0)
          else
            (let pl = PieceLength meta; absolute = wrap64 (StartOffset fe + off) in
             if go_mod (int (length data)) pl \<noteq> 0 then (0, True, 0)
             else if PieceHashesV1 meta \<noteq> [] \<and> StartOffset fe \<ge> 0 \<and> absolute \<ge> StartOffset fe \<and> go_mod absolute pl = 0
               then verifyWindowV1 sha1 meta fe off data pl
             else if V2MerkleRoots meta \<noteq> [] \<and> PieceLayers meta \<noteq> []
               then (if go_mod off pl \<noteq> 0 then (0, True, 0) else verifyWindowV2 sha2 meta fe off data pl)
             else (0, True, 0))
      | _ \<Rightarrow> (0, True, 0))"


subsection \<open>The hash tree\<close>

text \<open>The recursive definition of a Merkle root over \<open>2 ^ k\<close> leaves.\<close>

fun merkle_tree :: "(string \<Rightarrow> string) \<Rightarrow> nat \<Rightarrow> string list \<Rightarrow> string" where
  "merkle_tree h 0 ls = hd ls"
| "merkle_tree h (Suc k) ls = h (merkle_tree h k (take (2 ^ k) ls) @ merkle_tree h k (drop (2 ^ k) ls))"

lemma pairUp_append: "even (length xs) \<Longrightarrow> pairUp h (xs @ ys) = pairUp h xs @ pairUp h ys"
  by (induction h xs rule: pairUp.induct) auto

lemma merkle_tree_pairUp:
  "length ls = 2 ^ Suc k \<Longrightarrow> merkle_tree h k (pairUp h ls) = merkle_tree h (Suc k) ls"
proof (induction k arbitrary: ls)
  case 0
  then obtain a b where "ls = [a, b]" by (auto simp: numeral_2_eq_2 length_Suc_conv)
  then show ?case by simp
next
  case (Suc k)
  let ?l = "take (2 ^ Suc k) ls" and ?r = "drop (2 ^ Suc k) ls"
  have len: "length ?l = 2 ^ Suc k" "length ?r = 2 ^ Suc k" using Suc.prems by auto
  have "pairUp h ls = pairUp h ?l @ pairUp h ?r"
    using pairUp_append [of ?l h ?r] len by (metis append_take_drop_id dvd_triv_left power_Suc)
  moreover have "length (pairUp h ?l) = 2 ^ k" using len by simp
  ultimately have "merkle_tree h (Suc k) (pairUp h ls) = h (merkle_tree h k (pairUp h ?l) @ merkle_tree h k (pairUp h ?r))"
    by simp
  also have "\<dots> = merkle_tree h (Suc (Suc k)) ls"
    unfolding Suc.IH [OF len(1)] Suc.IH [OF len(2)] by simp
  finally show ?case .
qed

lemma merkleRootContext_tree:
  "length level = 2 ^ n \<Longrightarrow>
   if \<forall>i < n. cx (k + i) = None then merkleRootContext h cx k level = Inr (merkle_tree h n level)
   else \<exists>e. merkleRootContext h cx k level = Inl e"
proof (induction n arbitrary: k level)
  case 0
  then show ?case by (simp add: merkleRootContext.simps)
next
  case (Suc n)
  have gt: "1 < length level" unfolding Suc.prems by (rule one_less_power) simp_all
  have len: "length (pairUp h level) = 2 ^ n" using Suc.prems by simp
  note step = merkleRootContext.simps [of h cx k level]
  show ?case
  proof (cases "cx k")
    case None
    then show ?thesis using Suc.IH [OF len, of "k + 1"] gt merkle_tree_pairUp [OF Suc.prems, of h]
      by (auto simp: step All_less_Suc2 simp del: merkle_tree.simps split: if_splits)
  next
    case (Some e)
    then show ?thesis using gt by (auto simp: step)
  qed
qed

lemma v2BlockSize_pos: "0 < v2BlockSize" by (simp add: v2BlockSize_def)

function blocks :: "string \<Rightarrow> string list" where
  "blocks data = (if data = [] then [] else take v2BlockSize data # blocks (drop v2BlockSize data))"
  by pat_completeness auto
termination by (relation "measure length") (auto simp: v2BlockSize_pos)

declare blocks.simps [simp del]

lemma blocks_bound: "length data \<le> n * v2BlockSize \<Longrightarrow> length (blocks data) \<le> n"
proof (induction data arbitrary: n rule: blocks.induct)
  case (1 data)
  show ?case
  proof (cases "data = []")
    case False
    with "1.prems" obtain m where n: "n = Suc m" by (cases n) auto
    with "1.prems" have "length (drop v2BlockSize data) \<le> m * v2BlockSize" by simp
    with "1.IH" False n show ?thesis by (simp add: blocks.simps [of data])
  qed (simp add: blocks.simps)
qed

lemma leavesLoop_blocks:
  assumes "length data \<le> (need - length leaves) * v2BlockSize"
  shows "if \<forall>i < length (blocks data). cx (length leaves + i) = None
    then leavesLoop h cx need leaves data = Inr (leaves @ map h (blocks data))
    else \<exists>e. leavesLoop h cx need leaves data = Inl e"
  using assms
proof (induction h cx need leaves data rule: leavesLoop.induct)
  case (1 h cx need leaves data)
  show ?case
  proof (cases "data = []")
    case True
    then show ?thesis by (simp add: leavesLoop.simps blocks.simps)
  next
    case False
    with "1.prems" have lt: "length leaves < need" by (cases "need - length leaves") auto
    have le: "length (drop v2BlockSize data) \<le> (need - length (leaves @ [h (take v2BlockSize data)])) * v2BlockSize"
    proof -
      have "(need - length leaves) * v2BlockSize = v2BlockSize + (need - Suc (length leaves)) * v2BlockSize"
        using lt by (metis Suc_diff_Suc mult_Suc)
      then show ?thesis using "1.prems" by simp
    qed
    note step = leavesLoop.simps [of h cx need leaves data] and bl = blocks.simps [of data]
    show ?thesis
    proof (cases "cx (length leaves)")
      case None
      from "1.IH" [OF _ None le] False lt show ?thesis
        using None by (auto simp: step bl All_less_Suc2 split: if_splits)
    next
      case (Some e)
      then show ?thesis using False lt by (auto simp: step bl)
    qed
  qed
qed


lemma leavesNeeded_power: "leavesNeeded (int (2 ^ n * v2BlockSize)) = 2 ^ n"
proof -
  have "go_div (int (2 ^ n * v2BlockSize)) (int v2BlockSize) = 2 ^ n"
    using v2BlockSize_pos by (simp add: go_div_nonneg)
  moreover have "\<not> (2 :: int) ^ n < 1" using one_le_power [of "2 :: int" n] by linarith
  ultimately show ?thesis by (simp add: leavesNeeded_def Let_def nat_power_eq del: of_nat_mult of_nat_power)
qed

definition v2_leaves :: "(string \<Rightarrow> string) \<Rightarrow> nat \<Rightarrow> string \<Rightarrow> string list" where
  "v2_leaves h n data = map h (blocks data) @ replicate (2 ^ n - length (blocks data)) (zeroBlockHash h)"

lemma pieceHash_tree:
  assumes "length data \<le> 2 ^ n * v2BlockSize"
  shows "if (\<forall>i < length (blocks data). cx i = None) \<and> (\<forall>i < n. cx2 i = None)
    then computeV2PieceHashContext h cx cx2 data (int (2 ^ n * v2BlockSize)) = Inr (merkle_tree h n (v2_leaves h n data))
    else \<exists>e. computeV2PieceHashContext h cx cx2 data (int (2 ^ n * v2BlockSize)) = Inl e"
proof -
  have b: "length (blocks data) \<le> 2 ^ n" by (rule blocks_bound [OF assms])
  then have "length (v2_leaves h n data) = 2 ^ n" by (simp add: v2_leaves_def)
  note tree = merkleRootContext_tree [OF this, of cx2 0 h]
  have lv: "if \<forall>i < length (blocks data). cx i = None then leavesLoop h cx (2 ^ n) [] data = Inr (map h (blocks data))
    else \<exists>e. leavesLoop h cx (2 ^ n) [] data = Inl e"
    using leavesLoop_blocks [of data "2 ^ n" "[]" cx h] assms by simp
  show ?thesis
  proof (cases "\<forall>i < length (blocks data). cx i = None")
    case True
    with lv have "computeV2PieceHashContext h cx cx2 data (int (2 ^ n * v2BlockSize)) = merkleRootContext h cx2 0 (v2_leaves h n data)"
      unfolding computeV2PieceHashContext_def leavesNeeded_power v2_leaves_def by simp
    with tree True show ?thesis by simp
  next
    case False
    with lv obtain e where "leavesLoop h cx (2 ^ n) [] data = Inl e" by (meson)
    then have "computeV2PieceHashContext h cx cx2 data (int (2 ^ n * v2BlockSize)) = Inl e"
      unfolding computeV2PieceHashContext_def leavesNeeded_power by simp
    with False show ?thesis by auto
  qed
qed

text \<open>C39: hashing a piece ends, and gives the root of its hash tree. For a piece length of \<open>2 ^ n\<close> blocks and at most that
  many bytes, the loop over the levels takes exactly \<open>n\<close> rounds: it returns the root of the complete binary tree whose leaves are
  the hashes of the blocks, filled up with the padding leaf, unless the context ends before one of
  the blocks or one of the rounds, and then an error. Without a context there is always a root.\<close>

theorem piece_hash_is_merkle_root:
  assumes "length data \<le> 2 ^ n * v2BlockSize"
  shows "computeV2PieceHash h data (int (2 ^ n * v2BlockSize)) = merkle_tree h n (v2_leaves h n data) \<and>
    ((\<forall>i < length (blocks data). cx i = None) \<and> (\<forall>i < n. cx2 i = None) \<longrightarrow>
       computeV2PieceHashContext h cx cx2 data (int (2 ^ n * v2BlockSize)) = Inr (merkle_tree h n (v2_leaves h n data))) \<and>
    ((\<exists>i < length (blocks data). cx i \<noteq> None) \<or> (\<exists>i < n. cx2 i \<noteq> None) \<longrightarrow>
       (\<exists>e. computeV2PieceHashContext h cx cx2 data (int (2 ^ n * v2BlockSize)) = Inl e))"
proof -
  have "computeV2PieceHash h data (int (2 ^ n * v2BlockSize)) = merkle_tree h n (v2_leaves h n data)"
    using pieceHash_tree [OF assms, of "\<lambda>_. None :: unit option" "\<lambda>_. None" h] by (simp add: computeV2PieceHash_def)
  then show ?thesis using pieceHash_tree [OF assms, of cx cx2 h] by (auto split: if_splits)
qed

theorem piece_hash_is_merkle_root_witness:
  "computeV2PieceHash (take 3) ''abc'' 32768 = take 3 (''abc'' @ replicate v2BlockSize (CHR 0x00))"
proof -
  have small: "blocks ''abc'' = [''abc'']" by (simp add: blocks.simps v2BlockSize_def)
  have z: "zeroBlockHash (take 3) = replicate 3 (CHR 0x00)" by (simp add: zeroBlockHash_def v2BlockSize_def)
  have "int (2 ^ 1 * v2BlockSize) = 32768" by (simp add: v2BlockSize_def)
  with piece_hash_is_merkle_root [of "''abc''" 1 "take 3" "\<lambda>_. None :: unit option" "\<lambda>_. None"]
  have "computeV2PieceHash (take 3) ''abc'' 32768 = merkle_tree (take 3) 1 (v2_leaves (take 3) 1 ''abc'')"
    by (simp add: v2BlockSize_def)
  then show ?thesis by (simp add: v2_leaves_def small z)
qed


subsection \<open>What the window verification decides\<close>

lemma checkPieces_spec:
  assumes "\<forall>i \<in> set is. wrap64 (first + int i) = first + int i" and "0 \<le> first" and "sorted_wrt (<) is"
    and "checkPieces h hlen table first pl data c is = (checked, ok, bad)"
    and P: "\<And>i. P i \<longleftrightarrow> first + int i < int (length table div hlen)"
    and M: "\<And>i. M i \<longleftrightarrow> h (take pl (drop (i * pl) data)) = take hlen (drop (nat (first + int i) * hlen) table)"
  shows "(ok \<longleftrightarrow> (\<forall>i \<in> set is. P i \<longrightarrow> M i)) \<and> (ok \<longrightarrow> checked = c + length (filter P is)) \<and>
    (\<not> ok \<longrightarrow> (\<exists>i \<in> set is. bad = first + int i \<and> P i \<and> \<not> M i \<and> (\<forall>j \<in> set is. j < i \<longrightarrow> P j \<longrightarrow> M j)))"
  using assms(1,3,4)
proof (induction "is" arbitrary: c)
  case (Cons i "is")
  have w: "wrap64 (first + int i) = first + int i" using Cons.prems(1) by simp
  note step = Cons.prems(3) [unfolded checkPieces.simps Let_def w]
  note ih = Cons.IH [OF _ _ _]
  have r: "\<forall>i \<in> set is. wrap64 (first + int i) = first + int i" "sorted_wrt (<) is" using Cons.prems(1,2) by auto
  consider (out) "\<not> P i" | (hit) "P i" "M i" | (miss) "P i" "\<not> M i" by blast
  then show ?case
  proof cases
    case out
    with step assms(2) P have "checkPieces h hlen table first pl data c is = (checked, ok, bad)" by (simp split: if_splits)
    from Cons.IH [OF r this] out show ?thesis by auto
  next
    case hit
    with step assms(2) P M have "checkPieces h hlen table first pl data (c + 1) is = (checked, ok, bad)" by (simp split: if_splits)
    from Cons.IH [OF r this] hit show ?thesis by auto
  next
    case miss
    with step assms(2) P M have "ok = False" "bad = first + int i" by (simp_all split: if_splits)
    with miss Cons.prems(2) show ?thesis by auto
  qed
qed simp

text \<open>\<open>inside\<close>: the piece \<open>idx\<close> has a hash in the table and lies wholly within the window, which starts at
  \<open>base\<close> in the stream the pieces divide.\<close>

definition inside :: "nat \<Rightarrow> string \<Rightarrow> int \<Rightarrow> int \<Rightarrow> string \<Rightarrow> int \<Rightarrow> bool" where
  "inside hlen table base pl data idx \<longleftrightarrow>
     0 \<le> idx \<and> idx < int (length table div hlen) \<and> base \<le> idx * pl \<and> (idx + 1) * pl \<le> base + int (length data)"

definition piece_matches :: "(string \<Rightarrow> string) \<Rightarrow> nat \<Rightarrow> string \<Rightarrow> int \<Rightarrow> int \<Rightarrow> string \<Rightarrow> int \<Rightarrow> bool" where
  "piece_matches h hlen table base pl data idx \<longleftrightarrow>
     h (take (nat pl) (drop (nat (idx * pl - base)) data)) = take hlen (drop (nat idx * hlen) table)"

definition right_verdict :: "(string \<Rightarrow> string) \<Rightarrow> nat \<Rightarrow> string \<Rightarrow> int \<Rightarrow> int \<Rightarrow> string \<Rightarrow> nat \<times> bool \<times> int \<Rightarrow> bool" where
  "right_verdict h hlen table base pl data r \<longleftrightarrow>
     (case r of (checked, ok, bad) \<Rightarrow>
        (ok \<longleftrightarrow> (\<forall>idx. inside hlen table base pl data idx \<longrightarrow> piece_matches h hlen table base pl data idx)) \<and>
        (ok \<longrightarrow> checked = card {idx. inside hlen table base pl data idx}) \<and>
        (\<not> ok \<longrightarrow> inside hlen table base pl data bad \<and> \<not> piece_matches h hlen table base pl data bad \<and>
           (\<forall>idx < bad. inside hlen table base pl data idx \<longrightarrow> piece_matches h hlen table base pl data idx)))"

lemma inside_aligned:
  assumes "0 < pl" and "0 \<le> first" and "int (length data) = int n * pl"
  shows "inside hlen table (first * pl) pl data idx \<longleftrightarrow> (\<exists>i < n. idx = first + int i \<and> first + int i < int (length table div hlen))"
proof -
  have "first * pl \<le> idx * pl \<longleftrightarrow> first \<le> idx" using assms(1) by simp
  moreover have "(idx + 1) * pl \<le> first * pl + int (length data) \<longleftrightarrow> idx < first + int n"
  proof -
    have "first * pl + int (length data) = (first + int n) * pl" by (simp add: assms(3) distrib_right)
    then show ?thesis using assms(1) by auto
  qed
  moreover have "first \<le> idx \<and> idx < first + int n \<longleftrightarrow> (\<exists>i < n. idx = first + int i)"
    by (auto intro: exI [of _ "nat (idx - first)"])
  ultimately show ?thesis using assms(2) unfolding inside_def by auto
qed

lemma checkPieces_verdict:
  assumes "0 < pl" and "0 \<le> base" and "base mod pl = 0" and "int (length data) mod pl = 0" and "base + int (length data) \<le> MaxInt64"
  shows "right_verdict h hlen table base pl data
    (checkPieces h hlen table (base div pl) (nat pl) data 0 [0 ..< length data div nat pl])"
proof -
  define first n where "first = base div pl" and "n = length data div nat pl"
  have base: "base = first * pl" "0 \<le> first" using assms(1-3) by (auto simp: first_def pos_imp_zdiv_nonneg_iff)
  have n: "int (length data) = int n * pl"
  proof -
    have "int n = int (length data) div pl" using assms(1) by (simp add: n_def zdiv_int)
    then show ?thesis using assms(4) by (simp add: mod_0_imp_dvd)
  qed
  have w: "\<forall>i \<in> set [0 ..< n]. wrap64 (first + int i) = first + int i"
  proof
    fix i assume "i \<in> set [0 ..< n]"
    then have "first + int i \<le> (first + int n) * 1" by simp
    also have "\<dots> \<le> (first + int n) * pl" using assms(1) base(2) by (intro mult_left_mono) auto
    also have "\<dots> \<le> MaxInt64" using assms(5) base(1) n by (simp add: distrib_right)
    finally show "wrap64 (first + int i) = first + int i"
      using base(2) by (intro wrap64_id) (simp add: in_int64_def MinInt64_def)
  qed
  obtain checked ok bad where r: "checkPieces h hlen table first (nat pl) data 0 [0 ..< n] = (checked, ok, bad)"
    by (metis prod_cases3)
  let ?P = "\<lambda>i. first + int i < int (length table div hlen)"
  let ?M = "\<lambda>i. piece_matches h hlen table base pl data (first + int i)"
  have M: "?M i \<longleftrightarrow> h (take (nat pl) (drop (i * nat pl) data)) = take hlen (drop (nat (first + int i) * hlen) table)" for i
  proof -
    have "nat ((first + int i) * pl - base) = i * nat pl" using assms(1) by (simp add: base distrib_right nat_mult_distrib)
    then show ?thesis by (simp add: piece_matches_def)
  qed
  note spec = checkPieces_spec [OF w base(2) _ r, of ?P ?M, OF _ refl M]
  have ins: "inside hlen table base pl data idx \<longleftrightarrow> (\<exists>i < n. idx = first + int i \<and> ?P i)" for idx
    unfolding base(1) by (rule inside_aligned [OF assms(1) base(2) n])
  have "{idx. inside hlen table base pl data idx} = (\<lambda>i. first + int i) ` set (filter ?P [0 ..< n])"
    by (auto simp: ins)
  then have card: "card {idx. inside hlen table base pl data idx} = length (filter ?P [0 ..< n])"
    by (simp add: card_image inj_on_def distinct_card del: set_filter)
  have "right_verdict h hlen table base pl data (checked, ok, bad)"
    unfolding right_verdict_def prod.case card using spec by (auto simp: ins)
  then show ?thesis by (simp add: r first_def [symmetric] n_def [symmetric])
qed


text \<open>C38: opportunistic verification flags exactly the corrupt windows. A window of whole pieces that starts at a v1 piece
  boundary of the torrent is judged by the v1 hashes, otherwise one that starts at a piece boundary of a file with
  a v2 layer by that layer; every other window abstains. The judgement is positive iff every piece inside
  the window that has a hash matches it, and then the count is the number of those pieces; a
  negative one names the first piece inside the window that does not match.\<close>

theorem window_verification_decides:
  assumes "0 < PieceLength meta" and "0 \<le> StartOffset fe" and "0 \<le> off" and "data \<noteq> []"
    and "StartOffset fe + off + int (length data) \<le> MaxInt64"
  shows "let r = VerifyWindow sha1 sha2 (Some meta) (Some fe) off data; pl = PieceLength meta;
      whole = (int (length data) mod pl = 0);
      v1 = (PieceHashesV1 meta \<noteq> [] \<and> (StartOffset fe + off) mod pl = 0);
      layer = Option.bind (map_of (V2MerkleRoots meta) (Path fe)) (map_of (PieceLayers meta))
    in (whole \<and> v1 \<longrightarrow> right_verdict sha1 20 (PieceHashesV1 meta) (StartOffset fe + off) pl data r) \<and>
       (\<forall>l. whole \<and> \<not> v1 \<and> off mod pl = 0 \<and> layer = Some l \<longrightarrow>
          right_verdict (\<lambda>d. computeV2PieceHash sha2 d pl) 32 l off pl data r) \<and>
       (\<not> whole \<or> \<not> v1 \<and> (off mod pl \<noteq> 0 \<or> layer = None) \<longrightarrow> r = (0, True, 0))"
proof -
  let ?pl = "PieceLength meta" and ?abs = "StartOffset fe + off"
  have in64: "wrap64 ?abs = ?abs"
    using assms(2,3,5) by (intro wrap64_id) (simp add: in_int64_def MinInt64_def)
  have mods: "go_mod (int (length data)) ?pl = int (length data) mod ?pl" "go_mod ?abs ?pl = ?abs mod ?pl" "go_mod off ?pl = off mod ?pl"
    "go_div ?abs ?pl = ?abs div ?pl" "go_div off ?pl = off div ?pl"
    using assms(1-3) by (simp_all add: go_mod_nonneg go_div_nonneg)
  have verdict1: "right_verdict sha1 20 (PieceHashesV1 meta) ?abs ?pl data (verifyWindowV1 sha1 meta fe off data ?pl)"
    if "int (length data) mod ?pl = 0" "?abs mod ?pl = 0"
    unfolding verifyWindowV1_def Let_def in64 mods using checkPieces_verdict [OF assms(1) _ that(2,1) assms(5)] assms(2,3) by simp
  have verdict2: "right_verdict (\<lambda>d. computeV2PieceHash sha2 d ?pl) 32 l off ?pl data (verifyWindowV2 sha2 meta fe off data ?pl)"
    if "int (length data) mod ?pl = 0" "off mod ?pl = 0" "map_of (V2MerkleRoots meta) (Path fe) = Some root" "map_of (PieceLayers meta) root = Some l"
    for l root
    unfolding verifyWindowV2_def that(3,4) option.case mods using checkPieces_verdict [OF assms(1,3) that(2,1)] assms(2,5) by simp
  have none: "verifyWindowV2 sha2 meta fe off data ?pl = (0, True, 0)"
    if "Option.bind (map_of (V2MerkleRoots meta) (Path fe)) (map_of (PieceLayers meta)) = None"
    using that by (auto simp: verifyWindowV2_def split: option.splits bind_splits)
  have nonempty: "V2MerkleRoots meta \<noteq> [] \<and> PieceLayers meta \<noteq> []"
    if "map_of (V2MerkleRoots meta) (Path fe) = Some root" "map_of (PieceLayers meta) root = Some l" for root l
    using that by auto
  show ?thesis
    using assms(1-4) verdict1 verdict2 none nonempty
    unfolding Let_def VerifyWindow_def prod.case option.case in64 mods by (auto simp: bind_eq_Some_conv)
qed

theorem window_verification_decides_witness:
  "\<exists>checked bad. VerifyWindow (\<lambda>_. replicate 20 (CHR ''h'')) id (Some (demo_meta\<lparr>PieceHashesV1 := replicate 39 (CHR ''h'') @ ''x''\<rparr>))
      (Some \<lparr>Path = ''a.mkv'', fe_Size = 8, StartOffset = 0, EndOffset = 8\<rparr>) 0 ''abcdefgh'' = (checked, False, bad) \<and>
    inside 20 (replicate 39 (CHR ''h'') @ ''x'') 0 4 ''abcdefgh'' bad"
proof -
  let ?m = "demo_meta\<lparr>PieceHashesV1 := replicate 39 (CHR ''h'') @ ''x''\<rparr>" and ?f = "\<lparr>Path = ''a.mkv'', fe_Size = 8, StartOffset = 0, EndOffset = 8\<rparr>"
  let ?r = "VerifyWindow (\<lambda>_. replicate 20 (CHR ''h'')) id (Some ?m) (Some ?f) 0 ''abcdefgh''"
  have r: "?r = (2, False, 1)" by code_simp
  have "right_verdict (\<lambda>_. replicate 20 (CHR ''h'')) 20 (PieceHashesV1 ?m) 0 4 ''abcdefgh'' ?r"
    using window_verification_decides [of ?m ?f 0 "''abcdefgh''" "\<lambda>_. replicate 20 (CHR ''h'')" id]
    by (simp add: demo_meta_def Let_def MaxInt64_def)
  then show ?thesis unfolding r right_verdict_def by (simp add: demo_meta_def)
qed

end
