(* ===== verification/TorrentProof.thy ===== *)
theory TorrentProof
  imports TorrentVerify ProofLanes
begin

section \<open>Torrent proofs for the content proof graph\<close>

text \<open>
  Models \<open>internal/torrentmeta/proof.go\<close>: the proof domain of one file of a torrent, the native proof that
  covers an offset, its form as evidence for the graph and the digest a candidate's bytes must have.
  A proof domain exists only with its metadata (the zero value, whose metadata pointer is nil, is
  returned with \<open>false\<close> only), so \<open>NewProofDomain\<close> and \<open>ProofAt\<close> return an option. All arithmetic wraps as
  \<open>int64\<close>. \<open>hashCancellable\<close> feeds the hash in the same chunks as \<open>Digest\<close> of the graph.

  Results: a native proof covers the offset asked for, stays inside its file and the block bound, carries exactly
  the table entry of the piece with that extent, and passes the graph's validation; the digest computed for
  a candidate is the hash, or the tree hash, of exactly the proof's span.
\<close>

unbundle bit_operations_syntax

definition MaxProofBlockBytes :: int where "MaxProofBlockBytes = 64 * 2 ^ 20"

record ProofDomain =
  pd_meta :: TorrentMeta
  pd_file :: FileEntry
  totalSize :: int
  pd_v1 :: bool
  v2Root :: string
  v2Layer :: string

record NativeProof =
  np_scope :: Scope
  np_offset :: int
  np_length :: int
  np_algorithm :: Algorithm
  np_provenance :: Provenance
  np_digest :: string
  np_pieceLength :: int

record CrossLaneCandidate =
  xl_candidate :: LaneCandidate
  Proofs :: ProofDomain

definition validV2PieceLength :: "int \<Rightarrow> bool" where
  "validV2PieceLength pl \<longleftrightarrow>
     \<not> (pl < int v2BlockSize \<or> pl > MaxProofBlockBytes \<or> go_mod pl (int v2BlockSize) \<noteq> 0) \<and>
     (let blocks = go_div pl (int v2BlockSize) in blocks AND (blocks - 1) = 0)"

definition proofAtV1 :: "ProofDomain \<Rightarrow> int \<Rightarrow> NativeProof option" where
  "proofAtV1 d offset =
     (let pl = PieceLength (pd_meta d); fe = pd_file d; table = PieceHashesV1 (pd_meta d);
          absolute = wrap64 (StartOffset fe + offset)
      in if absolute < StartOffset fe then None
         else
           (let index = go_div absolute pl;
                start = wrap64 (index * pl);
                stop0 = wrap64 (start + pl);
                stop = (if stop0 < start \<or> stop0 > totalSize d then totalSize d else stop0)
            in if start < StartOffset fe \<or> stop > EndOffset fe \<or> stop \<le> start then None
               else
                 (let digestStart = wrap64 (index * 20) in
                  if digestStart < 0 \<or> wrap64 (digestStart + 20) > int (length table) then None
                  else Some \<lparr>np_scope = ScopeBlock, np_offset = wrap64 (start - StartOffset fe), np_length = wrap64 (stop - start),
                         np_algorithm = AlgorithmSHA1, np_provenance = ProvenanceTorrentPiece,
                         np_digest = take 20 (drop (nat digestStart) table), np_pieceLength = 0\<rparr>)))"

definition proofAtV2 :: "ProofDomain \<Rightarrow> int \<Rightarrow> NativeProof option" where
  "proofAtV2 d offset =
     (let pl = PieceLength (pd_meta d); sz = fe_Size (pd_file d) in
      if length (v2Root d) \<noteq> 32 then None
      else if sz \<le> pl then
        Some \<lparr>np_scope = ScopeWhole, np_offset = 0, np_length = sz, np_algorithm = AlgorithmSHA256,
          np_provenance = ProvenanceTorrentMerkle, np_digest = v2Root d, np_pieceLength = pl\<rparr>
      else
        (let index = go_div offset pl;
             start = wrap64 (index * pl);
             remaining = wrap64 (sz - start);
             len = (if remaining < pl then remaining else pl);
             digestStart = wrap64 (index * 32)
         in if len \<le> 0 \<or> digestStart < 0 \<or> wrap64 (digestStart + 32) > int (length (v2Layer d)) then None
            else Some \<lparr>np_scope = ScopeBlock, np_offset = start, np_length = len, np_algorithm = AlgorithmSHA256,
                   np_provenance = ProvenanceTorrentMerkle, np_digest = take 32 (drop (nat digestStart) (v2Layer d)), np_pieceLength = pl\<rparr>))"

definition ProofAt :: "ProofDomain \<Rightarrow> int \<Rightarrow> NativeProof option" where
  "ProofAt d offset =
     (if offset < 0 \<or> offset \<ge> fe_Size (pd_file d) then None
      else case (if pd_v1 d then proofAtV1 d offset else None) of
        Some p \<Rightarrow> Some p
      | None \<Rightarrow> proofAtV2 d offset)"

definition hasProof :: "ProofDomain \<Rightarrow> bool" where
  "hasProof d =
     (if ProofAt d 0 \<noteq> None then True
      else if pd_v1 d then
        (let pl = PieceLength (pd_meta d); fe = pd_file d;
             nxt = wrap64 (go_div (wrap64 (StartOffset fe + pl - 1)) pl * pl)
         in nxt \<ge> StartOffset fe \<and> nxt < EndOffset fe \<and> ProofAt d (wrap64 (nxt - StartOffset fe)) \<noteq> None)
      else False)"

text \<open>The loop over the torrent's files: their total size and how often the file occurs, unless the extents are contradictory.\<close>

fun geometryLoop :: "FileEntry \<Rightarrow> nat \<Rightarrow> int \<Rightarrow> FileEntry list \<Rightarrow> (nat \<times> int) option" where
  "geometryLoop fe matches tot [] = Some (matches, tot)"
| "geometryLoop fe matches tot (entry # es) =
     (if fe_Size entry < 0 \<or> StartOffset entry \<noteq> tot \<or> EndOffset entry < StartOffset entry \<or>
         wrap64 (EndOffset entry - StartOffset entry) \<noteq> fe_Size entry then None
      else geometryLoop fe (if entry = fe then matches + 1 else matches) (EndOffset entry) es)"

definition withV1 :: "TorrentMeta \<Rightarrow> int \<Rightarrow> bool" where
  "withV1 meta tot =
     (let n = length (PieceHashesV1 meta); pl = PieceLength meta in
      n > 0 \<and> n mod 20 = 0 \<and> int (n div 20) = go_div (wrap64 (tot + pl - 1)) pl)"

definition withV2 :: "TorrentMeta \<Rightarrow> FileEntry \<Rightarrow> string \<times> string" where
  "withV2 meta fe =
     (case map_of (V2MerkleRoots meta) (Path fe) of
        None \<Rightarrow> ([], [])
      | Some rootHex \<Rightarrow>
          if \<not> validV2PieceLength (PieceLength meta) then ([], [])
          else case DecodeString rootHex of
            None \<Rightarrow> ([], [])
          | Some root \<Rightarrow>
              if length root \<noteq> 32 then ([], [])
              else if fe_Size fe > PieceLength meta then
                (let layer = (case map_of (PieceLayers meta) rootHex of None \<Rightarrow> [] | Some l \<Rightarrow> l);
                     expected = go_div (wrap64 (fe_Size fe + PieceLength meta - 1)) (PieceLength meta)
                 in (root, if length layer mod 32 = 0 \<and> int (length layer div 32) = expected then layer else []))
              else (root, []))"

definition NewProofDomain :: "TorrentMeta option \<Rightarrow> FileEntry option \<Rightarrow> ProofDomain option" where
  "NewProofDomain metap filep =
     (case (metap, filep) of
        (Some meta, Some fe) \<Rightarrow>
          if PieceLength meta \<le> 0 \<or> PieceLength meta > MaxProofBlockBytes \<or> fe_Size fe \<le> 0 \<or> StartOffset fe < 0 \<or>
             EndOffset fe < StartOffset fe \<or> wrap64 (EndOffset fe - StartOffset fe) \<noteq> fe_Size fe then None
          else
            (case geometryLoop fe 0 0 (Files meta) of
               None \<Rightarrow> None
             | Some (matches, tot) \<Rightarrow>
                 if matches \<noteq> 1 \<or> tot \<le> 0 then None
                 else
                   (let d = \<lparr>pd_meta = meta, pd_file = fe, totalSize = tot, pd_v1 = withV1 meta tot,
                          v2Root = fst (withV2 meta fe), v2Layer = snd (withV2 meta fe)\<rparr>
                    in if (\<not> pd_v1 d \<and> length (v2Root d) = 0) \<or> \<not> hasProof d then None else Some d))
      | _ \<Rightarrow> None)"

definition NewCrossLaneCandidate :: "unicode \<Rightarrow> (string \<Rightarrow> string) \<Rightarrow> TorrentMeta option \<Rightarrow> FileEntry option \<Rightarrow> string \<Rightarrow> string \<Rightarrow> string \<Rightarrow> string \<Rightarrow> int \<Rightarrow>
  (go_error, CrossLaneCandidate) result" where
  "NewCrossLaneCandidate u sha metap filep itemID fileID representationID releaseName sz =
     (case filep of
        None \<Rightarrow> Inl (Plain ''torrentmeta: candidate file size mismatch'')
      | Some fe \<Rightarrow>
          if sz \<noteq> fe_Size fe then Inl (Plain ''torrentmeta: candidate file size mismatch'')
          else case NewProofDomain metap (Some fe) of
            None \<Rightarrow> Inl (Plain ''torrentmeta: candidate has no usable proof'')
          | Some d \<Rightarrow>
              (case NewLaneCandidate u sha LaneTorrent itemID fileID representationID releaseName sz of
                 Inl e \<Rightarrow> Inl e
               | Inr c \<Rightarrow> Inr \<lparr>xl_candidate = c, Proofs = d\<rparr>))"

definition Evidence_of :: "NativeProof \<Rightarrow> string \<Rightarrow> instant \<Rightarrow> Evidence" where
  "Evidence_of p rid observedAt = \<lparr>RepresentationID = rid, Scope_of = np_scope p, Offset = np_offset p, Length = np_length p,
     Kind_of = KindAuthoritative, Algorithm_of = np_algorithm p, Digest_of = np_digest p, Provenance_of = np_provenance p,
     OriginID = '''', ExpiresAt = None, ObservedAt = observedAt\<rparr>"

definition hashCancellable :: "(nat \<Rightarrow> go_error option) \<Rightarrow> (string \<Rightarrow> string) \<Rightarrow> string \<Rightarrow> (go_error, string) result" where
  "hashCancellable cx h data = (case writeChunks cx 0 [] data of Inl e \<Rightarrow> Inl e | Inr w \<Rightarrow> Inr (h w))"

text \<open>\<open>cx 0\<close> is the first check of the context, \<open>hcx\<close> and \<open>tcx\<close> those of the hashing loops.\<close>

definition NativeProof_CandidateDigest :: "hashes \<Rightarrow> go_error option \<Rightarrow> (nat \<Rightarrow> go_error option) \<Rightarrow> (nat \<Rightarrow> go_error option) \<Rightarrow> NativeProof \<Rightarrow> string \<Rightarrow>
  (go_error, string) result" where
  "NativeProof_CandidateDigest hs cx hcx tcx p data =
     (case cx of
        Some e \<Rightarrow> Inl e
      | None \<Rightarrow>
          if np_length p \<le> 0 \<or> np_length p > MaxProofBlockBytes \<or> int (length data) \<noteq> np_length p
            then Inl (Plain ''torrentmeta: candidate bytes do not match proof span'')
          else if np_provenance p = ProvenanceTorrentPiece then hashCancellable hcx (sha1 hs) data
          else if np_provenance p = ProvenanceTorrentMerkle then computeV2PieceHashContext (sha2 hs) hcx tcx data (np_pieceLength p)
          else Inl (Plain ''torrentmeta: unknown native proof provenance''))"


subsection \<open>Piece lengths are powers of two\<close>

lemma and_pred_power_of_two:
  fixes b :: int
  assumes "0 < b" and "b AND (b - 1) = 0"
  shows "\<exists>n. b = 2 ^ n"
  using assms
proof (induction "nat b" arbitrary: b rule: less_induct)
  case less
  show ?case
  proof (cases "even b")
    case True
    then obtain m where m: "b = 2 * m" by blast
    have pos: "0 < m" using less.prems(1) m by simp
    have "b - 1 = 1 + 2 * (m - 1)" using m by simp
    then have "b AND (b - 1) = (2 * m) AND (1 + 2 * (m - 1))" using m by simp
    also have "\<dots> = 2 * (m AND (m - 1))"
    proof -
      have "(2 * m - 1) div 2 = m - 1" by presburger
      then show ?thesis by (simp add: and_rec [of "2 * m"])
    qed
    finally have "m AND (m - 1) = 0" using less.prems(2) by simp
    moreover have "nat m < nat b" using pos m by simp
    ultimately obtain n where "m = 2 ^ n" using less.hyps pos by blast
    then show ?thesis using m by (intro exI [of _ "Suc n"]) simp
  next
    case False
    then obtain m where m: "b = 2 * m + 1" by (blast elim: oddE)
    have "b AND (b - 1) = (1 + 2 * m) AND (2 * m)" using m by (simp add: add.commute)
    also have "\<dots> = 2 * (m AND m)" by (simp add: and_rec [of "1 + 2 * m"])
    finally have "m = 0" using less.prems(2) by simp
    then show ?thesis using m by (intro exI [of _ 0]) simp
  qed
qed

lemma validV2PieceLength_power:
  assumes "validV2PieceLength pl"
  obtains n where "pl = int (2 ^ n * v2BlockSize)"
proof -
  have pl: "int v2BlockSize \<le> pl" and nn: "0 \<le> pl" and B: "(0 :: int) < int v2BlockSize"
    using assms v2BlockSize_pos by (auto simp: validV2PieceLength_def)
  have m: "pl mod int v2BlockSize = 0" and a: "pl div int v2BlockSize AND (pl div int v2BlockSize - 1) = 0"
    using assms nn B by (auto simp: validV2PieceLength_def go_mod_nonneg go_div_nonneg Let_def)
  have "0 < pl div int v2BlockSize" using pl B by (simp add: pos_imp_zdiv_pos_iff)
  from and_pred_power_of_two [OF this a] obtain n where "pl div int v2BlockSize = 2 ^ n" by blast
  then have "pl = int (2 ^ n * v2BlockSize)" using m by (metis mod_0_imp_dvd dvd_div_mult_self of_nat_mult of_nat_numeral of_nat_power)
  then show thesis by (rule that)
qed

subsection \<open>The geometry of a domain\<close>

lemma geometryLoop_ok:
  "geometryLoop fe m tot es = Some (m', tot') \<Longrightarrow>
   tot \<le> tot' \<and> (m < m' \<longrightarrow> fe \<in> set es \<and> EndOffset fe \<le> tot') \<and> tot' = (if es = [] then tot else EndOffset (last es))"
proof (induction fe m tot es rule: geometryLoop.induct)
  case (2 fe m tot e es)
  then have r: "geometryLoop fe (if e = fe then m + 1 else m) (EndOffset e) es = Some (m', tot')" and le: "tot \<le> EndOffset e"
    by (auto split: if_splits)
  have ih: "EndOffset e \<le> tot'" "(if e = fe then m + 1 else m) < m' \<longrightarrow> fe \<in> set es \<and> EndOffset fe \<le> tot'"
    "tot' = (if es = [] then EndOffset e else EndOffset (last es))"
    using 2 r by (auto split: if_splits)
  then show ?case using le by (cases "e = fe") auto
qed simp

definition domain_ok :: "ProofDomain \<Rightarrow> bool" where
  "domain_ok d \<longleftrightarrow>
     (let pl = PieceLength (pd_meta d); fe = pd_file d in
      0 < pl \<and> pl \<le> MaxProofBlockBytes \<and> 0 < fe_Size fe \<and> 0 \<le> StartOffset fe \<and> EndOffset fe = StartOffset fe + fe_Size fe \<and>
      EndOffset fe \<le> totalSize d \<and> totalSize d \<le> MaxInt64 \<and> totalSize d = EndOffset (last (Files (pd_meta d))) \<and>
      int (length (PieceHashesV1 (pd_meta d))) \<le> MaxInt64 \<and>
      (pd_v1 d \<longrightarrow> int (length (PieceHashesV1 (pd_meta d))) = 20 * ((totalSize d + pl - 1) div pl)) \<and>
      (v2Root d \<noteq> [] \<longrightarrow> validV2PieceLength pl \<and>
         (\<exists>rootHex. map_of (V2MerkleRoots (pd_meta d)) (Path fe) = Some rootHex \<and> DecodeString rootHex = Some (v2Root d) \<and> length (v2Root d) = 32 \<and>
            (v2Layer d \<noteq> [] \<longrightarrow> map_of (PieceLayers (pd_meta d)) rootHex = Some (v2Layer d)))))"

lemma withV1_exact:
  assumes "withV1 meta tot" and "0 < PieceLength meta" "PieceLength meta \<le> MaxProofBlockBytes" and "0 < tot" "tot \<le> MaxInt64"
  shows "int (length (PieceHashesV1 meta)) = 20 * ((tot + PieceLength meta - 1) div PieceLength meta)"
proof -
  let ?n = "length (PieceHashesV1 meta)" and ?pl = "PieceLength meta"
  have n: "0 < ?n" "?n mod 20 = 0" "int (?n div 20) = go_div (wrap64 (tot + ?pl - 1)) ?pl"
    using assms(1) by (auto simp: withV1_def Let_def)
  have n20: "int ?n = 20 * int (?n div 20)" using n(2) div_mult_mod_eq [of ?n 20] by linarith
  then have "0 < ?n div 20" using n(1) by linarith
  then have pos: "0 < go_div (wrap64 (tot + ?pl - 1)) ?pl" using n(3) by linarith
  have "0 \<le> wrap64 (tot + ?pl - 1)"
  proof (rule ccontr)
    assume "\<not> 0 \<le> wrap64 (tot + ?pl - 1)"
    with assms(2) have "go_div (wrap64 (tot + ?pl - 1)) ?pl \<le> 0"
      by (simp add: go_div_def pos_imp_zdiv_nonneg_iff)
    with pos show False by simp
  qed
  then have w: "wrap64 (tot + ?pl - 1) = tot + ?pl - 1"
    using assms(2-5) by (intro wrap64_nonneg(1)) (auto simp: MaxInt64_def MaxProofBlockBytes_def)
  show ?thesis using n20 n(3) w assms(2,4) by (simp add: go_div_nonneg)
qed


lemma withV2_exact:
  assumes "withV2 meta fe = (root, layer)" and "root \<noteq> []"
  shows "validV2PieceLength (PieceLength meta) \<and>
    (\<exists>rootHex. map_of (V2MerkleRoots meta) (Path fe) = Some rootHex \<and> DecodeString rootHex = Some root \<and> length root = 32 \<and>
       (layer \<noteq> [] \<longrightarrow> map_of (PieceLayers meta) rootHex = Some layer))"
  using assms by (auto simp: withV2_def Let_def split: option.splits if_splits)

lemma NewProofDomain_ok:
  assumes "NewProofDomain (Some meta) (Some fe) = Some d" and "\<forall>f \<in> set (Files meta). in_int64 (EndOffset f)"
    and "int (length (PieceHashesV1 meta)) \<le> MaxInt64"
  shows "domain_ok d \<and> pd_meta d = meta \<and> pd_file d = fe"
proof -
  obtain m tot where g: "geometryLoop fe 0 0 (Files meta) = Some (m, tot)" and m: "m = 1" "0 < tot"
    and d: "d = \<lparr>pd_meta = meta, pd_file = fe, totalSize = tot, pd_v1 = withV1 meta tot, v2Root = fst (withV2 meta fe), v2Layer = snd (withV2 meta fe)\<rparr>"
    and b: "0 < PieceLength meta" "PieceLength meta \<le> MaxProofBlockBytes" "0 < fe_Size fe" "0 \<le> StartOffset fe"
      "StartOffset fe \<le> EndOffset fe" "wrap64 (EndOffset fe - StartOffset fe) = fe_Size fe"
    using assms(1) by (auto simp: NewProofDomain_def Let_def split: if_splits option.splits)
  from geometryLoop_ok [OF g] m have mem: "fe \<in> set (Files meta)" "EndOffset fe \<le> tot" and last: "tot = EndOffset (last (Files meta))"
    by (auto split: if_splits)
  then have tot: "tot \<le> MaxInt64" using assms(2) by (metis in_int64_def last_in_set list.set_cases list.distinct(1))
  have "wrap64 (EndOffset fe - StartOffset fe) = EndOffset fe - StartOffset fe"
    using b(4,5) mem(2) tot by (intro wrap64_id) (auto simp: in_int64_def MinInt64_def)
  then have "EndOffset fe = StartOffset fe + fe_Size fe" using b(6) by simp
  moreover have "withV1 meta tot \<longrightarrow> int (length (PieceHashesV1 meta)) = 20 * ((tot + PieceLength meta - 1) div PieceLength meta)"
    using withV1_exact [OF _ b(1,2) m(2) tot] by blast
  moreover have "fst (withV2 meta fe) \<noteq> [] \<longrightarrow> validV2PieceLength (PieceLength meta) \<and>
    (\<exists>rootHex. map_of (V2MerkleRoots meta) (Path fe) = Some rootHex \<and> DecodeString rootHex = Some (fst (withV2 meta fe)) \<and> length (fst (withV2 meta fe)) = 32 \<and>
       (snd (withV2 meta fe) \<noteq> [] \<longrightarrow> map_of (PieceLayers meta) rootHex = Some (snd (withV2 meta fe))))"
    using withV2_exact [OF prod.collapse [symmetric]] by blast
  ultimately show ?thesis using b mem(2) tot last assms(3) unfolding domain_ok_def d Let_def by simp
qed

subsection \<open>The proof at an offset\<close>

lemma piece_start:
  fixes a pl :: int
  assumes "0 \<le> a" "0 < pl"
  shows "0 \<le> a div pl * pl" "a div pl * pl \<le> a" "a < a div pl * pl + pl" "0 \<le> a div pl" "a div pl \<le> a"
proof -
  show "a div pl * pl \<le> a" "a < a div pl * pl + pl"
    using div_mult_mod_eq [of a pl] pos_mod_bound [OF assms(2), of a] pos_mod_sign [OF assms(2), of a] by linarith+
  show d: "0 \<le> a div pl" using assms by (simp add: pos_imp_zdiv_nonneg_iff)
  then show "0 \<le> a div pl * pl" using assms(2) by simp
  show "a div pl \<le> a" using mult_left_mono [of 1 pl "a div pl"] d assms(2) \<open>a div pl * pl \<le> a\<close> by simp
qed

definition v1_span :: "ProofDomain \<Rightarrow> int \<Rightarrow> NativeProof \<Rightarrow> bool" where
  "v1_span d offset p \<longleftrightarrow>
     (let pl = PieceLength (pd_meta d); st = StartOffset (pd_file d); index = (st + offset) div pl in
      np_scope p = ScopeBlock \<and> np_algorithm p = AlgorithmSHA1 \<and> np_provenance p = ProvenanceTorrentPiece \<and>
      st + np_offset p = index * pl \<and> st + np_offset p + np_length p = min ((index + 1) * pl) (totalSize d) \<and>
      0 \<le> np_offset p \<and> st + np_offset p + np_length p \<le> EndOffset (pd_file d) \<and>
      np_digest p = take 20 (drop (nat index * 20) (PieceHashesV1 (pd_meta d))) \<and> length (np_digest p) = 20)"

lemma proofAtV1_span:
  assumes "domain_ok d" and "pd_v1 d" and "0 \<le> offset" "offset < fe_Size (pd_file d)" and "proofAtV1 d offset = Some p"
  shows "v1_span d offset p"
proof -
  let ?pl = "PieceLength (pd_meta d)" and ?st = "StartOffset (pd_file d)" and ?tot = "totalSize d"
  let ?table = "PieceHashesV1 (pd_meta d)"
  define a where "a = ?st + offset"
  define index where "index = a div ?pl"
  note ok = assms(1) [unfolded domain_ok_def Let_def]
  have pl: "0 < ?pl" "?pl \<le> 67108864" and a: "0 \<le> a" "a < ?tot" and tot: "?tot \<le> MaxInt64"
    using ok assms(3,4) by (auto simp: a_def MaxProofBlockBytes_def)
  have wa: "wrap64 (?st + offset) = a" using a tot unfolding a_def by (intro wrap64_small) auto
  note ps = piece_start [OF a(1) pl(1), folded index_def]
  have gd: "go_div a ?pl = index" using a pl by (simp add: go_div_nonneg index_def)
  have ws: "wrap64 (index * ?pl) = index * ?pl" using ps(1,2) a(2) tot by (intro wrap64_small) linarith+
  have stop: "(if wrap64 (index * ?pl + ?pl) < index * ?pl \<or> wrap64 (index * ?pl + ?pl) > ?tot then ?tot else wrap64 (index * ?pl + ?pl)) =
      min ((index + 1) * ?pl) ?tot"
  proof (cases "index * ?pl + ?pl \<le> MaxInt64")
    case True
    then have "wrap64 (index * ?pl + ?pl) = index * ?pl + ?pl"
      using ps(1) pl(1) by (intro wrap64_small) linarith+
    then show ?thesis using pl(1) by (auto simp: distrib_right)
  next
    case False
    have "wrap64 (index * ?pl + ?pl) < 0"
      using wrap64_over [of "index * ?pl + ?pl"] False ps(2) a(2) tot pl(2) unfolding MaxInt64_def by linarith
    then show ?thesis using False ps(1) tot by (auto simp: distrib_right)
  qed
  have len: "int (length ?table) = 20 * ((?tot + ?pl - 1) div ?pl)" using ok assms(2) by blast
  have "index < (?tot + ?pl - 1) div ?pl"
  proof -
    have "index + 1 \<le> (?tot + ?pl - 1) div ?pl"
      using a pl(1) zdiv_mono1 [of "a + ?pl" "?tot + ?pl - 1" ?pl] div_add_self2 [of ?pl a] by (simp add: index_def)
    then show ?thesis by simp
  qed
  then have fits: "index * 20 + 20 \<le> int (length ?table)" using len by linarith
  have wd: "wrap64 (index * 20) = index * 20" "wrap64 (index * 20 + 20) = index * 20 + 20"
    using fits ok ps(4) by (auto intro!: wrap64_small)
  define stop where "stop = min ((index + 1) * ?pl) ?tot"
  have stop_le: "stop \<le> ?tot" "index * ?pl < stop"
    using a(2) ps(2) pl(1) by (auto simp: stop_def distrib_right)
  from assms(5) have in_file: "?st \<le> index * ?pl" "stop \<le> EndOffset (pd_file d)"
    and p: "p = \<lparr>np_scope = ScopeBlock, np_offset = wrap64 (index * ?pl - ?st), np_length = wrap64 (stop - index * ?pl),
                         np_algorithm = AlgorithmSHA1, np_provenance = ProvenanceTorrentPiece,
                         np_digest = take 20 (drop (nat (index * 20)) ?table), np_pieceLength = 0\<rparr>"
    unfolding proofAtV1_def Let_def wa gd ws stop wd stop_def [symmetric] by (auto split: if_splits)
  have "wrap64 (index * ?pl - ?st) = index * ?pl - ?st" "wrap64 (stop - index * ?pl) = stop - index * ?pl"
    using in_file ok stop_le ps(1) tot by (auto intro!: wrap64_small)
  moreover have "nat (index * 20) = nat index * 20" using ps(4) by (simp add: nat_mult_distrib)
  moreover have "length (take 20 (drop (nat index * 20) ?table)) = 20" using fits ps(4) by auto
  ultimately show ?thesis using in_file stop_le
    by (simp add: v1_span_def Let_def p stop_def a_def index_def)
qed


definition v2_span :: "ProofDomain \<Rightarrow> int \<Rightarrow> NativeProof \<Rightarrow> bool" where
  "v2_span d offset p \<longleftrightarrow>
     (let meta = pd_meta d; pl = PieceLength meta; sz = fe_Size (pd_file d); index = offset div pl in
      np_algorithm p = AlgorithmSHA256 \<and> np_provenance p = ProvenanceTorrentMerkle \<and> np_pieceLength p = pl \<and>
      validV2PieceLength pl \<and> length (np_digest p) = 32 \<and>
      (\<exists>rootHex. map_of (V2MerkleRoots meta) (Path (pd_file d)) = Some rootHex \<and>
         (if sz \<le> pl then np_scope p = ScopeWhole \<and> np_offset p = 0 \<and> np_length p = sz \<and> DecodeString rootHex = Some (np_digest p)
          else np_scope p = ScopeBlock \<and> np_offset p = index * pl \<and> np_length p = min pl (sz - index * pl) \<and>
            (\<exists>layer. map_of (PieceLayers meta) rootHex = Some layer \<and> np_digest p = take 32 (drop (nat index * 32) layer)))))"

lemma proofAtV2_span:
  assumes "domain_ok d" and "0 \<le> offset" "offset < fe_Size (pd_file d)" and "proofAtV2 d offset = Some p"
  shows "v2_span d offset p"
proof -
  let ?pl = "PieceLength (pd_meta d)" and ?sz = "fe_Size (pd_file d)"
  note ok = assms(1) [unfolded domain_ok_def Let_def]
  have root: "length (v2Root d) = 32" using assms(4) by (auto simp: proofAtV2_def Let_def split: if_splits)
  then obtain rootHex where v: "validV2PieceLength ?pl" and rh: "map_of (V2MerkleRoots (pd_meta d)) (Path (pd_file d)) = Some rootHex"
    "DecodeString rootHex = Some (v2Root d)" "v2Layer d \<noteq> [] \<longrightarrow> map_of (PieceLayers (pd_meta d)) rootHex = Some (v2Layer d)"
    using ok by (auto simp del: length_greater_0_conv)
  have pl: "16384 \<le> ?pl" "0 < ?pl" using v by (auto simp: validV2PieceLength_def v2BlockSize_def)
  show ?thesis
  proof (cases "?sz \<le> ?pl")
    case True
    then show ?thesis using assms(4) root v rh by (auto simp: proofAtV2_def v2_span_def Let_def)
  next
    case False
    define index where "index = offset div ?pl"
    note ps = piece_start [OF assms(2) pl(2), folded index_def]
    have sz: "?sz \<le> MaxInt64" using ok by auto
    have gd: "go_div offset ?pl = index" using assms(2) pl(2) by (simp add: go_div_nonneg index_def)
    have w: "wrap64 (index * ?pl) = index * ?pl" "wrap64 (?sz - index * ?pl) = ?sz - index * ?pl"
      using ps(1,2) assms(3) sz by (intro wrap64_small; linarith)+
    have "index * 16384 \<le> MaxInt64"
      using mult_left_mono [OF pl(1) ps(4)] ps(2) assms(3) sz by linarith
    then have wd: "wrap64 (index * 32) = index * 32" "wrap64 (index * 32 + 32) = index * 32 + 32"
      using ps(4) by (auto intro!: wrap64_small simp: MaxInt64_def)
    from assms(4) False root have fits: "index * 32 + 32 \<le> int (length (v2Layer d))"
      and p: "p = \<lparr>np_scope = ScopeBlock, np_offset = index * ?pl, np_length = min ?pl (?sz - index * ?pl), np_algorithm = AlgorithmSHA256,
                   np_provenance = ProvenanceTorrentMerkle, np_digest = take 32 (drop (nat (index * 32)) (v2Layer d)), np_pieceLength = ?pl\<rparr>"
      unfolding proofAtV2_def Let_def gd w wd by (auto split: if_splits)
    have n: "nat (index * 32) = nat index * 32" using ps(4) by (simp add: nat_mult_distrib)
    have ne: "v2Layer d \<noteq> []" using fits ps(4) by auto
    have "length (take 32 (drop (nat index * 32) (v2Layer d))) = 32" using fits ps(4) by auto
    with False v rh ne show ?thesis by (simp add: v2_span_def Let_def p [unfolded n] index_def)
  qed
qed

lemma ProofAt_span:
  assumes "domain_ok d" and "ProofAt d offset = Some p"
  shows "0 \<le> offset" "offset < fe_Size (pd_file d)" "v1_span d offset p \<or> v2_span d offset p"
  using assms proofAtV1_span [OF assms(1)] proofAtV2_span [OF assms(1)]
  by (auto simp: ProofAt_def split: if_splits option.splits)

lemma span_bounds:
  assumes "domain_ok d" and "0 \<le> offset" "offset < fe_Size (pd_file d)" and "v1_span d offset p \<or> v2_span d offset p"
  shows "0 \<le> np_offset p \<and> np_offset p \<le> offset \<and> offset < np_offset p + np_length p \<and>
    np_offset p + np_length p \<le> fe_Size (pd_file d) \<and> np_length p \<le> PieceLength (pd_meta d)"
proof -
  let ?pl = "PieceLength (pd_meta d)" and ?st = "StartOffset (pd_file d)"
  note ok = assms(1) [unfolded domain_ok_def Let_def]
  have pl: "0 < ?pl" using ok by blast
  from assms(4) show ?thesis
  proof
    assume v: "v1_span d offset p"
    have "0 \<le> ?st + offset" using ok assms(2) by auto
    note ps = piece_start [OF this pl]
    have "?st + offset < totalSize d" using ok assms(3) by auto
    with ps(2,3) v ok show ?thesis by (auto simp: v1_span_def Let_def distrib_right min_def split: if_splits)
  next
    assume v: "v2_span d offset p"
    note ps = piece_start [OF assms(2) pl]
    with v assms(2,3) show ?thesis by (auto simp: v2_span_def Let_def min_def split: if_splits)
  qed
qed

lemma CandidateDigest_exact:
  assumes "NativeProof_CandidateDigest hs cx hcx tcx p data = Inr dg"
  shows "int (length data) = np_length p"
    and "np_provenance p = ProvenanceTorrentPiece \<Longrightarrow> dg = sha1 hs data"
    and "np_provenance p = ProvenanceTorrentMerkle \<Longrightarrow> np_pieceLength p = int (2 ^ n * v2BlockSize) \<Longrightarrow> np_length p \<le> np_pieceLength p \<Longrightarrow>
      dg = merkle_tree (sha2 hs) n (v2_leaves (sha2 hs) n data)"
proof -
  show len: "int (length data) = np_length p"
    using assms by (auto simp: NativeProof_CandidateDigest_def split: option.splits if_splits)
  show "dg = sha1 hs data" if "np_provenance p = ProvenanceTorrentPiece"
    using assms that by (auto simp: NativeProof_CandidateDigest_def hashCancellable_def dest: writeChunks_all split: option.splits if_splits sum.splits)
  show "dg = merkle_tree (sha2 hs) n (v2_leaves (sha2 hs) n data)"
    if "np_provenance p = ProvenanceTorrentMerkle" "np_pieceLength p = int (2 ^ n * v2BlockSize)" "np_length p \<le> np_pieceLength p"
  proof -
    have le: "length data \<le> 2 ^ n * v2BlockSize" using len that(2,3) by (simp only: of_nat_le_iff [symmetric, where 'a = int])
    have "computeV2PieceHashContext (sha2 hs) hcx tcx data (int (2 ^ n * v2BlockSize)) = Inr dg"
      using assms that(1,2) by (auto simp: NativeProof_CandidateDigest_def split: option.splits if_splits)
    with pieceHash_tree [OF le, of hcx tcx "sha2 hs"] show ?thesis by (auto split: if_splits)
  qed
qed


lemma Evidence_valid:
  assumes "v1_span d offset p \<or> v2_span d offset p" and "0 \<le> np_offset p" "0 < np_length p"
    and "validOpaqueID rid" "t \<noteq> zeroTime"
  shows "validateEvidence (Evidence_of p rid t) = None"
  using assms
  by (auto simp: v1_span_def v2_span_def Let_def Evidence_of_def validateEvidence_def validKindProvenance_def isAuthoritativeAlgorithm_def
      digestLength_def maxDigestBytes_def split: if_splits)

text \<open>C40: a native torrent proof is the right one, and is handled within bounds. For any offset of a file whose domain
  was accepted, a proof that is returned covers the offset, lies inside the file and is at most a piece long, which is
  at most 64 MiB. A v1 proof spans exactly the torrent piece that holds the offset (cut at the end of the torrent) and carries that piece's
  entry of the hash table; a v2 proof spans the whole file with its root, or exactly the file's piece that
  holds the offset with that piece's entry of the layer. As evidence it passes the graph's validation. And a digest
  computed for candidate bytes is of exactly that many bytes: their SHA-1, or the root of their hash tree.\<close>

theorem native_proof_exact:
  assumes "NewProofDomain (Some meta) (Some fe) = Some d" and "ProofAt d offset = Some p"
    and "\<forall>f \<in> set (Files meta). in_int64 (EndOffset f)" and "int (length (PieceHashesV1 meta)) \<le> MaxInt64"
  shows "0 \<le> np_offset p \<and> np_offset p \<le> offset \<and> offset < np_offset p + np_length p \<and> np_offset p + np_length p \<le> fe_Size fe \<and>
    np_length p \<le> PieceLength meta \<and> PieceLength meta \<le> MaxProofBlockBytes \<and>
    pd_meta d = meta \<and> pd_file d = fe \<and> totalSize d = EndOffset (last (Files meta)) \<and> (v1_span d offset p \<or> v2_span d offset p) \<and>
    (validOpaqueID rid \<and> t \<noteq> zeroTime \<longrightarrow> validateEvidence (Evidence_of p rid t) = None) \<and>
    (NativeProof_CandidateDigest hs cx hcx tcx p data = Inr dg \<longrightarrow> int (length data) = np_length p \<and>
       (v1_span d offset p \<and> dg = sha1 hs data \<or>
        v2_span d offset p \<and> (\<exists>n. PieceLength meta = int (2 ^ n * v2BlockSize) \<and> dg = merkle_tree (sha2 hs) n (v2_leaves (sha2 hs) n data))))"
proof -
  from NewProofDomain_ok [OF assms(1,3,4)] have ok: "domain_ok d" and d: "pd_meta d = meta" "pd_file d = fe" by auto
  note sp = ProofAt_span [OF ok assms(2)]
  note b = span_bounds [OF ok sp]
  have "PieceLength meta \<le> MaxProofBlockBytes" "totalSize d = EndOffset (last (Files meta))"
    using ok d by (auto simp: domain_ok_def Let_def)
  moreover have "validateEvidence (Evidence_of p rid t) = None" if "validOpaqueID rid" "t \<noteq> zeroTime"
    using Evidence_valid [OF sp(3) _ _ that] b by linarith
  moreover have "int (length data) = np_length p \<and> (v1_span d offset p \<and> dg = sha1 hs data \<or>
      v2_span d offset p \<and> (\<exists>n. PieceLength meta = int (2 ^ n * v2BlockSize) \<and> dg = merkle_tree (sha2 hs) n (v2_leaves (sha2 hs) n data)))"
    if cd: "NativeProof_CandidateDigest hs cx hcx tcx p data = Inr dg"
    using sp(3)
  proof
    assume v: "v1_span d offset p"
    then have "np_provenance p = ProvenanceTorrentPiece" by (simp add: v1_span_def Let_def)
    then show ?thesis using v CandidateDigest_exact(1,2) [OF cd] by blast
  next
    assume v: "v2_span d offset p"
    then have "validV2PieceLength (PieceLength meta)" using d by (auto simp: v2_span_def Let_def)
    then obtain n where n: "PieceLength meta = int (2 ^ n * v2BlockSize)" by (rule validV2PieceLength_power)
    have "dg = merkle_tree (sha2 hs) n (v2_leaves (sha2 hs) n data)"
      using v n b d by (intro CandidateDigest_exact(3) [OF cd]) (auto simp: v2_span_def Let_def)
    then show ?thesis using v n CandidateDigest_exact(1) [OF cd] by blast
  qed
  ultimately show ?thesis using b d sp(3) by blast
qed

theorem native_proof_exact_witness:
  "\<exists>d p. NewProofDomain (Some demo_meta) (Some \<lparr>Path = ''a.mkv'', fe_Size = 5, StartOffset = 0, EndOffset = 5\<rparr>) = Some d \<and>
    ProofAt d 4 = Some p \<and> np_offset p = 4 \<and> np_length p = 1 \<and> validateEvidence (Evidence_of p ''rep'' 0) = None"
proof -
  let ?f = "\<lparr>Path = ''a.mkv'', fe_Size = 5, StartOffset = 0, EndOffset = 5\<rparr>"
  let ?d = "NewProofDomain (Some demo_meta) (Some ?f)"
  have "\<not> Option.is_none ?d" by code_simp
  then obtain d where d: "?d = Some d" by (auto simp: Option.is_none_def)
  have "map_option (\<lambda>p. (np_offset p, np_length p)) (ProofAt (the ?d) 4) = Some (4, 1)" by code_simp
  then obtain p where p: "ProofAt d 4 = Some p" "np_offset p = 4" "np_length p = 1" unfolding d by auto
  have "validOpaqueID ''rep''" by code_simp
  moreover have "\<forall>f \<in> set (Files demo_meta). in_int64 (EndOffset f)" "int (length (PieceHashesV1 demo_meta)) \<le> MaxInt64" "0 \<noteq> zeroTime"
    by (simp_all add: demo_meta_def in_int64_def MaxInt64_def MinInt64_def zeroTime_def Second_def)
  ultimately have "validateEvidence (Evidence_of p ''rep'' 0) = None"
    using native_proof_exact [OF d p(1), of "''rep''" 0] by blast
  with d p show ?thesis by blast
qed

end
