(* ===== verification/PlaybackCoverage.thy ===== *)
theory PlaybackCoverage
  imports Outcome StableSort
begin

section \<open>Playback coverage\<close>

text \<open>
  Models \<open>internal/playbackcoverage/coverage.go\<close> and its tables in \<open>internal/store/playback_coverage.go\<close>,
  \<open>playback_media_coverage.go\<close> and \<open>playback_proposals.go\<close>: the intervals of bytes, or of media time, that were
  delivered to clients, and the proposal made once enough of a target was delivered.

  A table is a list of rows; a transaction that fails returns an error and leaves the table. The
  constraints of the schema (starts not negative, ends after starts, one row per representation and start) are branches of the insertion.
  Values carried by a context are the record \<open>ctx_values\<close>. The type \<open>'f\<close> of \<open>float64\<close> values, the quotient of two
  integers in it and its order are arguments.

  Results: merging implements the union of sets of positions and keeps the rows of a representation
  disjoint and not adjacent, so the delivered count is the size of that set; the tracker records exactly the
  spans it is told of.
\<close>

subsection \<open>Targets and identities\<close>

definition MaxRepresentationIDBytes :: nat where "MaxRepresentationIDBytes = 256"
definition MaxTargetIDBytes :: nat where "MaxTargetIDBytes = 256"
definition DefaultMaxIntervals :: int where "DefaultMaxIntervals = 4096"

datatype ExtentKind = ExtentDeclaredBytes | ExtentMediaTruth | ExtentVODHLS | OtherExtent string

record Target =
  tg_item :: string
  tg_file :: string
  tg_kind :: ExtentKind
  tg_total :: int

record 'f Proposal =
  pr_rep :: string
  pr_item :: string
  pr_file :: string
  pr_kind :: ExtentKind
  pr_delivered :: int
  pr_total :: int
  pr_threshold :: 'f
  pr_created :: instant

record Interval =
  iv_start :: int
  iv_end :: int

record Snapshot =
  sn_rep :: string
  Intervals :: "Interval list"
  Delivered :: int
  sn_updated :: instant

definition printable :: "string \<Rightarrow> bool" where
  "printable v \<longleftrightarrow> list_all (\<lambda>c. 0x21 \<le> (of_char c :: nat) \<and> (of_char c :: nat) \<le> 0x7e) v"

definition forbidden :: "string \<Rightarrow> bool" where
  "forbidden v \<longleftrightarrow> Contains v ''://'' \<or> ContainsAny v [CHR 0x0D, CHR 0x0A, CHR 0x00, CHR ''?'', CHR ''&'', CHR ''='']"

definition ValidateRepresentationID :: "string \<Rightarrow> go_error option" where
  "ValidateRepresentationID v =
     (if v = '''' \<or> length v > MaxRepresentationIDBytes \<or> forbidden v
        then Some (Plain ''playbackcoverage: invalid representation identity'')
      else if \<not> printable v then Some (Plain ''playbackcoverage: invalid representation identity'')
      else None)"

definition ValidateTarget :: "Target \<Rightarrow> go_error option" where
  "ValidateTarget t =
     (if tg_item t = '''' \<or> tg_file t = '''' \<or> length (tg_item t) > MaxTargetIDBytes \<or> length (tg_file t) > MaxTargetIDBytes \<or> tg_total t \<le> 0
        then Some (Plain ''playbackcoverage: invalid proposal target'')
      else if list_ex (\<lambda>v. forbidden v \<or> \<not> printable v) [tg_item t, tg_file t]
        then Some (Plain ''playbackcoverage: invalid proposal target'')
      else if tg_kind t \<in> {ExtentDeclaredBytes, ExtentMediaTruth, ExtentVODHLS} then None
      else Some (Plain ''playbackcoverage: invalid proposal extent''))"

record ctx_values =
  cv_representation :: "string option"
  cv_target :: "Target option"
  cv_declared :: "int option"

definition WithRepresentation :: "ctx_values \<Rightarrow> string \<Rightarrow> ctx_values" where
  "WithRepresentation c rid = (if ValidateRepresentationID rid \<noteq> None then c else c\<lparr>cv_representation := Some rid\<rparr>)"

definition Representation :: "ctx_values \<Rightarrow> string option" where
  "Representation c = (case cv_representation c of None \<Rightarrow> None | Some v \<Rightarrow> if ValidateRepresentationID v = None then Some v else None)"

definition WithDeclaredSize :: "ctx_values \<Rightarrow> int \<Rightarrow> ctx_values" where
  "WithDeclaredSize c tot = (if tot \<le> 0 then c else c\<lparr>cv_declared := Some tot\<rparr>)"

definition declaredSizeFromContext :: "ctx_values \<Rightarrow> int" where
  "declaredSizeFromContext c = (case cv_declared c of None \<Rightarrow> 0 | Some tot \<Rightarrow> if tot \<le> 0 then 0 else tot)"

definition WithTarget :: "ctx_values \<Rightarrow> Target \<Rightarrow> ctx_values" where
  "WithTarget c t = (if ValidateTarget t \<noteq> None then c else c\<lparr>cv_target := Some t\<rparr>)"

definition targetFromContext :: "ctx_values \<Rightarrow> Target option" where
  "targetFromContext c = (case cv_target c of None \<Rightarrow> None | Some t \<Rightarrow> if ValidateTarget t = None then Some t else None)"

subsection \<open>The tables\<close>

record media_row =
  cr_rep :: string
  cr_start :: int
  cr_end :: int
  cr_updated :: instant

record coverage_row = media_row +
  cr_declared :: int

definition of_rep :: "string \<Rightarrow> 'a media_row_scheme list \<Rightarrow> 'a media_row_scheme list" where
  "of_rep rid t = filter (\<lambda>r. cr_rep r = rid) t"

definition touches :: "string \<Rightarrow> Interval \<Rightarrow> 'a media_row_scheme \<Rightarrow> bool" where
  "touches rid inc r \<longleftrightarrow> cr_rep r = rid \<and> cr_start r \<le> iv_end inc \<and> cr_end r \<ge> iv_start inc"

definition absorb :: "Interval \<Rightarrow> 'a media_row_scheme \<Rightarrow> Interval" where
  "absorb merged r =
     (let m1 = (if cr_start r < iv_start merged then merged\<lparr>iv_start := cr_start r\<rparr> else merged)
      in if cr_end r > iv_end m1 then m1\<lparr>iv_end := cr_end r\<rparr> else m1)"

definition by_start :: "'a media_row_scheme list \<Rightarrow> 'a media_row_scheme list" where
  "by_start = sortStable (\<lambda>a b. cr_start a < cr_start b)"

text \<open>From the selection of the overlapping rows to the insertion of the merged one; \<open>mk\<close> makes the row.\<close>

definition mergeRows :: "string \<Rightarrow> Interval \<Rightarrow> int \<Rightarrow> string \<Rightarrow> (Interval \<Rightarrow> 'a media_row_scheme) \<Rightarrow> 'a media_row_scheme list \<Rightarrow>
  (go_error, 'a media_row_scheme list) result" where
  "mergeRows rid inc mx limitMsg mk t =
     (let merged = foldl absorb inc (by_start (filter (touches rid inc) t));
          t2 = filter (\<lambda>r. \<not> touches rid inc r) t
      in if int (length (of_rep rid t2)) \<ge> mx then Inl (Plain limitMsg)
         else if iv_start merged < 0 \<or> iv_end merged \<le> iv_start merged \<or> list_ex (\<lambda>r. cr_start r = iv_start merged) (of_rep rid t2)
           then Inl (Plain ''constraint failed'')
         else Inr (t2 @ [mk merged]))"

text \<open>The loop over the selected rows; \<open>wide\<close> is what is checked before the sum.\<close>

fun sumRows :: "(int \<Rightarrow> int \<Rightarrow> go_error option) \<Rightarrow> go_error \<Rightarrow> int \<Rightarrow> Snapshot \<Rightarrow> 'a media_row_scheme list \<Rightarrow> (go_error, Snapshot) result" where
  "sumRows check limit mx s [] = Inr s"
| "sumRows check limit mx s (r # rs) =
     (if int (length (Intervals s)) = mx then Inl limit
      else case check (wrap64 (cr_end r - cr_start r)) (Delivered s) of
        Some e \<Rightarrow> Inl e
      | None \<Rightarrow>
          sumRows check limit mx
            (s\<lparr>Intervals := Intervals s @ [\<lparr>iv_start = cr_start r, iv_end = cr_end r\<rparr>],
               Delivered := wrap64 (Delivered s + wrap64 (cr_end r - cr_start r)),
               sn_updated := (if cr_updated r > sn_updated s then cr_updated r else sn_updated s)\<rparr>) rs)"

definition emptySnapshot :: "string \<Rightarrow> Snapshot" where
  "emptySnapshot rid = \<lparr>sn_rep = rid, Intervals = [], Delivered = 0, sn_updated = zeroTime\<rparr>"

definition getPlaybackCoverage :: "coverage_row list \<Rightarrow> string \<Rightarrow> int \<Rightarrow> (go_error, Snapshot \<times> bool) result" where
  "getPlaybackCoverage t rid mx =
     (case sumRows (\<lambda>_ _. None) (Plain ''store: playback coverage interval limit exceeded'') mx (emptySnapshot rid)
             (take (nat (mx + 1)) (by_start (of_rep rid t))) of
        Inl e \<Rightarrow> Inl e
      | Inr s \<Rightarrow> Inr (s, Intervals s \<noteq> []))"

definition getPlaybackMediaCoverage :: "media_row list \<Rightarrow> string \<Rightarrow> int \<Rightarrow> (go_error, Snapshot \<times> bool) result" where
  "getPlaybackMediaCoverage t rid mx =
     (case sumRows (\<lambda>w d. if w > wrap64 (MaxInt64 - d) then Some (Plain ''store: playback media coverage total overflow'') else None)
             (Plain ''store: playback media coverage interval limit exceeded'') mx (emptySnapshot rid)
             (take (nat (mx + 1)) (by_start (of_rep rid t))) of
        Inl e \<Rightarrow> Inl e
      | Inr s \<Rightarrow> Inr (s, Intervals s \<noteq> []))"

definition adoptSize :: "string \<Rightarrow> int \<Rightarrow> coverage_row list \<Rightarrow> coverage_row list" where
  "adoptSize rid declared t =
     (if declared > 0 then
        (let sizes = map cr_declared (of_rep rid t) in
         if sizes = [] \<or> Max (set sizes) = 0
           then map (\<lambda>r. if cr_rep r = rid then r\<lparr>cr_declared := declared\<rparr> else r) t
         else if Max (set sizes) \<noteq> declared then filter (\<lambda>r. cr_rep r \<noteq> rid) t
         else t)
      else t)"

definition MergePlaybackCoverage :: "coverage_row list \<Rightarrow> string \<Rightarrow> Interval \<Rightarrow> instant \<Rightarrow> int \<Rightarrow> int \<Rightarrow> (go_error, Snapshot \<times> coverage_row list) result" where
  "MergePlaybackCoverage t rid inc updatedAt mx declared =
     (case mergeRows rid inc mx ''store: playback coverage interval limit exceeded''
             (\<lambda>m. \<lparr>cr_rep = rid, cr_start = iv_start m, cr_end = iv_end m, cr_updated = updatedAt, cr_declared = declared\<rparr>)
             (adoptSize rid declared t) of
        Inl e \<Rightarrow> Inl e
      | Inr t3 \<Rightarrow>
          (case getPlaybackCoverage t3 rid mx of
             Inl e \<Rightarrow> Inl e
           | Inr (s, found) \<Rightarrow> if found then Inr (s, t3) else Inr (emptySnapshot '''', t)))"

definition MergePlaybackMediaCoverage :: "media_row list \<Rightarrow> string \<Rightarrow> Interval \<Rightarrow> instant \<Rightarrow> int \<Rightarrow> (go_error, Snapshot \<times> media_row list) result" where
  "MergePlaybackMediaCoverage t rid inc updatedAt mx =
     (case mergeRows rid inc mx ''store: playback media coverage interval limit exceeded''
             (\<lambda>m. \<lparr>cr_rep = rid, cr_start = iv_start m, cr_end = iv_end m, cr_updated = updatedAt\<rparr>) t of
        Inl e \<Rightarrow> Inl e
      | Inr t3 \<Rightarrow>
          (case getPlaybackMediaCoverage t3 rid mx of
             Inl e \<Rightarrow> Inl e
           | Inr (s, found) \<Rightarrow> if found then Inr (s, t3) else Inr (emptySnapshot '''', t)))"

text \<open>SQL's \<open>LIKE\<close> on ASCII text.\<close>

fun sql_like :: "string \<Rightarrow> string \<Rightarrow> bool" where
  "sql_like [] s = (s = [])"
| "sql_like (p # ps) s =
     (if p = CHR ''%'' then list_ex (\<lambda>k. sql_like ps (drop k s)) [0 ..< length s + 1]
      else case s of [] \<Rightarrow> False | c # cs \<Rightarrow> (p = CHR ''_'' \<or> lower p = lower c) \<and> sql_like ps cs)"

definition LatestPlaybackCoverage :: "coverage_row list \<Rightarrow> string \<Rightarrow> instant option" where
  "LatestPlaybackCoverage t prefix =
     (let hits = sortStable stamp_less (map cr_updated (filter (\<lambda>r. sql_like (prefix @ ''%'') (cr_rep r)) t))
      in if hits = [] then None else Some (last hits))"

definition playbackRepresentationClasses :: "string list" where
  "playbackRepresentationClasses = [''mediaflow'', ''torrent'', ''http'', ''nntp'', ''archive'']"

definition classOf :: "string \<Rightarrow> string" where
  "classOf rid =
     (case IndexByte rid (CHR '':'') of
        None \<Rightarrow> ''other''
      | Some i \<Rightarrow> if i > 0 \<and> take i rid \<in> set playbackRepresentationClasses then take i rid else ''other'')"

record PlaybackRepresentationCounts =
  ByClass :: "(string \<times> nat) list"
  AggregatorAge :: duration
  AggregatorKnown :: bool

definition CurrentPlaybackRepresentationMetrics :: "coverage_row list \<Rightarrow> instant \<Rightarrow> PlaybackRepresentationCounts" where
  "CurrentPlaybackRepresentationMetrics t now =
     (let reps = remdups (map cr_rep t);
          by = map (\<lambda>c. (c, length (filter (\<lambda>r. classOf r = c) reps))) (playbackRepresentationClasses @ [''other''])
      in case LatestPlaybackCoverage t ''mediaflow:'' of
           None \<Rightarrow> \<lparr>ByClass = by, AggregatorAge = 0, AggregatorKnown = False\<rparr>
         | Some at \<Rightarrow> \<lparr>ByClass = by, AggregatorAge = (if time_sub now at > 0 then time_sub now at else 0), AggregatorKnown = True\<rparr>)"

definition CreatePlaybackProposal :: "('f \<Rightarrow> bool) \<Rightarrow> 'f Proposal list \<Rightarrow> 'f Proposal \<Rightarrow> (go_error, bool \<times> 'f Proposal list) result" where
  "CreatePlaybackProposal validThreshold t p =
     (if ValidateRepresentationID (pr_rep p) \<noteq> None \<or>
         ValidateTarget \<lparr>tg_item = pr_item p, tg_file = pr_file p, tg_kind = pr_kind p, tg_total = pr_total p\<rparr> \<noteq> None \<or>
         pr_delivered p \<le> 0 \<or> \<not> validThreshold (pr_threshold p) \<or> pr_created p = zeroTime
        then Inl (Plain ''store: invalid playback proposal'')
      else if list_ex (\<lambda>q. pr_rep q = pr_rep p) t then Inr (False, t)
      else Inr (True, t @ [p]))"

definition GetPlaybackProposal :: "'f Proposal list \<Rightarrow> string \<Rightarrow> 'f Proposal option" where
  "GetPlaybackProposal t rid = find (\<lambda>q. pr_rep q = rid) t"

subsection \<open>The tracker\<close>

text \<open>The repositories the tracker is given; the optional interfaces it asserts are options.\<close>

record ('r, 'f) coverage_repo =
  r_merge :: "'r \<Rightarrow> string \<Rightarrow> Interval \<Rightarrow> instant \<Rightarrow> int \<Rightarrow> int \<Rightarrow> (go_error, Snapshot \<times> 'r) result"
  r_get :: "'r \<Rightarrow> string \<Rightarrow> int \<Rightarrow> (go_error, Snapshot \<times> bool) result"
  r_mergeMedia :: "('r \<Rightarrow> string \<Rightarrow> Interval \<Rightarrow> instant \<Rightarrow> int \<Rightarrow> (go_error, Snapshot \<times> 'r) result) option"
  r_getMedia :: "('r \<Rightarrow> string \<Rightarrow> int \<Rightarrow> (go_error, Snapshot \<times> bool) result) option"
  r_propose :: "('r \<Rightarrow> 'f Proposal \<Rightarrow> (go_error, bool \<times> 'r) result) option"

record ('r, 'f) Tracker =
  tr_repo :: "('r, 'f) coverage_repo"
  maxIntervals :: int
  proposalRepo :: "('r \<Rightarrow> 'f Proposal \<Rightarrow> (go_error, bool \<times> 'r) result) option"
  proposalThreshold :: 'f

definition NewTracker :: "('f :: zero \<Rightarrow> bool) \<Rightarrow> ('r, 'f) coverage_repo \<Rightarrow> int \<Rightarrow> bool \<Rightarrow> 'f \<Rightarrow> (go_error, ('r, 'f) Tracker) result" where
  "NewTracker validThreshold repo mx enabled threshold =
     (let m = (if mx \<le> 0 then DefaultMaxIntervals else mx) in
      if enabled then
        (case r_propose repo of
           None \<Rightarrow> Inl (Plain ''playbackcoverage: proposal repository unavailable'')
         | Some pr \<Rightarrow>
             if \<not> validThreshold threshold then Inl (Plain ''playbackcoverage: invalid proposal threshold'')
             else Inr \<lparr>tr_repo = repo, maxIntervals = m, proposalRepo = Some pr, proposalThreshold = threshold\<rparr>)
      else Inr \<lparr>tr_repo = repo, maxIntervals = m, proposalRepo = None, proposalThreshold = 0\<rparr>)"

text \<open>\<open>below d t th\<close> is \<open>float64(d)/float64(t) < th\<close>. The result is the error and the repository after the call.\<close>

definition maybePropose :: "(int \<Rightarrow> int \<Rightarrow> 'f \<Rightarrow> bool) \<Rightarrow> ('r, 'f) Tracker \<Rightarrow> 'r \<Rightarrow> ctx_values \<Rightarrow> instant \<Rightarrow> string \<Rightarrow> int \<Rightarrow> ExtentKind \<Rightarrow> go_error option \<times> 'r" where
  "maybePropose below tr r c now rid delivered observed =
     (case proposalRepo tr of
        None \<Rightarrow> (None, r)
      | Some pr \<Rightarrow>
          if delivered \<le> 0 then (None, r)
          else case targetFromContext c of
            None \<Rightarrow> (None, r)
          | Some t \<Rightarrow>
              if (observed = ExtentVODHLS) \<noteq> (tg_kind t = ExtentVODHLS) \<or> below delivered (tg_total t) (proposalThreshold tr) then (None, r)
              else
                (case pr r \<lparr>pr_rep = rid, pr_item = tg_item t, pr_file = tg_file t, pr_kind = tg_kind t, pr_delivered = delivered,
                          pr_total = tg_total t, pr_threshold = proposalThreshold tr, pr_created = now\<rparr> of
                   Inl e \<Rightarrow> (Some e, r)
                 | Inr (_, r') \<Rightarrow> (None, r')))"

text \<open>An operation returns its result, the error beside it, and the repository after the call.\<close>

definition ObservePlayback :: "(int \<Rightarrow> int \<Rightarrow> 'f \<Rightarrow> bool) \<Rightarrow> ('r, 'f) Tracker \<Rightarrow> 'r \<Rightarrow> ctx_values \<Rightarrow> (nat \<Rightarrow> instant) \<Rightarrow> string \<Rightarrow> int \<Rightarrow> int \<Rightarrow>
  (Snapshot option \<times> go_error option) \<times> 'r" where
  "ObservePlayback below tr r c clk rid offset len =
     (case ValidateRepresentationID rid of
        Some e \<Rightarrow> ((None, Some e), r)
      | None \<Rightarrow>
          if offset < 0 \<or> len \<le> 0 \<or> offset > MaxInt64 - len then ((None, Some (Plain ''playbackcoverage: invalid delivered span'')), r)
          else
            (let declared = (case targetFromContext c of
                   Some t \<Rightarrow> if tg_kind t = ExtentDeclaredBytes then tg_total t else declaredSizeFromContext c
                 | None \<Rightarrow> declaredSizeFromContext c)
             in case r_merge (tr_repo tr) r rid \<lparr>iv_start = offset, iv_end = offset + len\<rparr> (clk 0) (maxIntervals tr) declared of
                  Inl e \<Rightarrow> ((None, Some e), r)
                | Inr (s, r1) \<Rightarrow>
                    (case maybePropose below tr r1 c (clk 1) rid (Delivered s) ExtentDeclaredBytes of
                       (err, r2) \<Rightarrow> ((Some s, err), r2))))"

definition ObserveMedia :: "(int \<Rightarrow> int \<Rightarrow> 'f \<Rightarrow> bool) \<Rightarrow> ('r, 'f) Tracker \<Rightarrow> 'r \<Rightarrow> ctx_values \<Rightarrow> (nat \<Rightarrow> instant) \<Rightarrow> string \<Rightarrow> int \<Rightarrow> int \<Rightarrow>
  (Snapshot option \<times> go_error option) \<times> 'r" where
  "ObserveMedia below tr r c clk rid startNS endNS =
     (case ValidateRepresentationID rid of
        Some e \<Rightarrow> ((None, Some e), r)
      | None \<Rightarrow>
          if startNS < 0 \<or> endNS \<le> startNS then ((None, Some (Plain ''playbackcoverage: invalid media span'')), r)
          else case r_mergeMedia (tr_repo tr) of
            None \<Rightarrow> ((None, Some (Plain ''playbackcoverage: media repository unavailable'')), r)
          | Some merge \<Rightarrow>
              (case merge r rid \<lparr>iv_start = startNS, iv_end = endNS\<rparr> (clk 0) (maxIntervals tr) of
                 Inl e \<Rightarrow> ((None, Some e), r)
               | Inr (s, r1) \<Rightarrow>
                   (case maybePropose below tr r1 c (clk 1) rid (Delivered s) ExtentVODHLS of
                      (err, r2) \<Rightarrow> ((Some s, err), r2))))"

definition TrackerSnapshot :: "('r, 'f) Tracker \<Rightarrow> 'r \<Rightarrow> string \<Rightarrow> (go_error, Snapshot \<times> bool) result" where
  "TrackerSnapshot tr r rid =
     (case ValidateRepresentationID rid of Some e \<Rightarrow> Inl e | None \<Rightarrow> r_get (tr_repo tr) r rid (maxIntervals tr))"

definition TrackerMediaSnapshot :: "('r, 'f) Tracker \<Rightarrow> 'r \<Rightarrow> string \<Rightarrow> (go_error, Snapshot \<times> bool) result" where
  "TrackerMediaSnapshot tr r rid =
     (case ValidateRepresentationID rid of
        Some e \<Rightarrow> Inl e
      | None \<Rightarrow>
          (case r_getMedia (tr_repo tr) of
             None \<Rightarrow> Inl (Plain ''playbackcoverage: media repository unavailable'')
           | Some get \<Rightarrow> get r rid (maxIntervals tr)))"

text \<open>The store as the repository.\<close>

record 'f playback_db =
  playback_coverage :: "coverage_row list"
  playback_media :: "media_row list"
  playback_proposals :: "'f Proposal list"

definition store_coverage :: "('f \<Rightarrow> bool) \<Rightarrow> ('f playback_db, 'f) coverage_repo" where
  "store_coverage valid =
     \<lparr>r_merge = (\<lambda>db rid inc at mx declared. case MergePlaybackCoverage (playback_coverage db) rid inc at mx declared of
          Inl e \<Rightarrow> Inl e | Inr (s, t) \<Rightarrow> Inr (s, db\<lparr>playback_coverage := t\<rparr>)),
      r_get = (\<lambda>db. getPlaybackCoverage (playback_coverage db)),
      r_mergeMedia = Some (\<lambda>db rid inc at mx. case MergePlaybackMediaCoverage (playback_media db) rid inc at mx of
          Inl e \<Rightarrow> Inl e | Inr (s, t) \<Rightarrow> Inr (s, db\<lparr>playback_media := t\<rparr>)),
      r_getMedia = Some (\<lambda>db. getPlaybackMediaCoverage (playback_media db)),
      r_propose = Some (\<lambda>db p. case CreatePlaybackProposal valid (playback_proposals db) p of
          Inl e \<Rightarrow> Inl e | Inr (b, t) \<Rightarrow> Inr (b, db\<lparr>playback_proposals := t\<rparr>))\<rparr>"


subsection \<open>Merging is union\<close>

definition row_bytes :: "'a media_row_scheme \<Rightarrow> int set" where
  "row_bytes r = {cr_start r ..< cr_end r}"

definition watched :: "string \<Rightarrow> 'a media_row_scheme list \<Rightarrow> int set" where
  "watched rid t = \<Union> (row_bytes ` set (of_rep rid t))"

definition span_of :: "Interval \<Rightarrow> int set" where
  "span_of i = {iv_start i ..< iv_end i}"

definition good_span :: "Interval \<Rightarrow> bool" where
  "good_span i \<longleftrightarrow> 0 \<le> iv_start i \<and> iv_start i < iv_end i \<and> iv_end i \<le> MaxInt64"

definition rows_ok :: "'a media_row_scheme list \<Rightarrow> bool" where
  "rows_ok t \<longleftrightarrow> distinct (map (\<lambda>r. (cr_rep r, cr_start r)) t) \<and>
     (\<forall>r \<in> set t. 0 \<le> cr_start r \<and> cr_start r < cr_end r \<and> cr_end r \<le> MaxInt64) \<and>
     (\<forall>a \<in> set t. \<forall>b \<in> set t. cr_rep a = cr_rep b \<and> cr_start a < cr_start b \<longrightarrow> cr_end a < cr_start b)"

lemma rows_ok_filter: "rows_ok t \<Longrightarrow> rows_ok (filter P t)"
  unfolding rows_ok_def by (auto intro: distinct_map_filter)

lemma absorb_fold:
  "iv_start (foldl absorb m rs) \<le> iv_start m" "iv_end m \<le> iv_end (foldl absorb m rs)"
  "r \<in> set rs \<Longrightarrow> iv_start (foldl absorb m rs) \<le> cr_start r \<and> cr_end r \<le> iv_end (foldl absorb m rs)"
  "iv_start (foldl absorb m rs) = iv_start m \<or> (\<exists>r \<in> set rs. iv_start (foldl absorb m rs) = cr_start r)"
  "iv_end (foldl absorb m rs) = iv_end m \<or> (\<exists>r \<in> set rs. iv_end (foldl absorb m rs) = cr_end r)"
proof (induction rs arbitrary: m)
  case (Cons a rs)
  have a: "iv_start (absorb m a) = min (iv_start m) (cr_start a)" "iv_end (absorb m a) = max (iv_end m) (cr_end a)" for m
    by (auto simp: absorb_def Let_def)
  {
    case 1
    show ?case using Cons.IH(1) [of "absorb m a"] a [of m] by simp
  next
    case 2
    show ?case using Cons.IH(2) [of "absorb m a"] a [of m] by simp
  next
    case 3
    then show ?case using Cons.IH(1-3) [of "absorb m a"] a [of m] by auto
  next
    case 4
    show ?case using Cons.IH(4) [of "absorb m a"] a [of m] by (auto simp: min_def split: if_splits)
  next
    case 5
    show ?case using Cons.IH(5) [of "absorb m a"] a [of m] by (auto simp: max_def split: if_splits)
  }
qed auto

lemma merged_span:
  fixes m :: Interval and R :: "'a media_row_scheme set"
  assumes "good_span inc"
    and R: "\<forall>r \<in> R. cr_start r < cr_end r \<and> 0 \<le> cr_start r \<and> cr_end r \<le> MaxInt64 \<and> cr_start r \<le> iv_end inc \<and> iv_start inc \<le> cr_end r"
    and le: "iv_start m \<le> iv_start inc" "iv_end inc \<le> iv_end m" "\<forall>r \<in> R. iv_start m \<le> cr_start r \<and> cr_end r \<le> iv_end m"
    and eq: "iv_start m = iv_start inc \<or> (\<exists>r \<in> R. iv_start m = cr_start r)" "iv_end m = iv_end inc \<or> (\<exists>r \<in> R. iv_end m = cr_end r)"
  shows "good_span m" "span_of m = span_of inc \<union> \<Union> (row_bytes ` R)"
proof -
  show "good_span m" using assms(1) R le(1,2) eq unfolding good_span_def by fastforce
  show "span_of m = span_of inc \<union> \<Union> (row_bytes ` R)"
  proof
    show "span_of inc \<union> \<Union> (row_bytes ` R) \<subseteq> span_of m"
      using le by (force simp: span_of_def row_bytes_def)
    show "span_of m \<subseteq> span_of inc \<union> \<Union> (row_bytes ` R)"
    proof
      fix x assume x: "x \<in> span_of m"
      consider "x < iv_start inc" | "x \<in> span_of inc" | "iv_end inc \<le> x" by (force simp: span_of_def)
      then show "x \<in> span_of inc \<union> \<Union> (row_bytes ` R)"
      proof cases
        case 1
        with x eq(1) obtain r where "r \<in> R" "cr_start r \<le> x" by (auto simp: span_of_def)
        with 1 R show ?thesis by (force simp: row_bytes_def)
      next
        case 3
        with x eq(2) obtain r where "r \<in> R" "x < cr_end r" by (auto simp: span_of_def)
        with 3 R show ?thesis by (force simp: row_bytes_def)
      qed simp
    qed
  qed
qed


lemma mergeRows_union:
  assumes "mergeRows rid inc mx msg mk t = Inr t3" and "rows_ok t" and "good_span inc"
    and mk: "\<And>m. cr_rep (mk m) = rid" "\<And>m. cr_start (mk m) = iv_start m" "\<And>m. cr_end (mk m) = iv_end m"
  shows "rows_ok t3" "watched rid t3 = watched rid t \<union> span_of inc" "x \<noteq> rid \<Longrightarrow> watched x t3 = watched x t"
    "int (length (of_rep rid t3)) \<le> mx" "of_rep rid t3 \<noteq> []"
proof -
  define R where "R = {r \<in> set t. touches rid inc r}"
  define m where "m = foldl absorb inc (by_start (filter (touches rid inc) t))"
  define t2 where "t2 = filter (\<lambda>r. \<not> touches rid inc r) t"
  have t3: "t3 = t2 @ [mk m]" and lim: "int (length (of_rep rid t2)) < mx" and key: "\<forall>r \<in> set (of_rep rid t2). cr_start r \<noteq> iv_start m"
    using assms(1) by (auto simp: mergeRows_def Let_def m_def t2_def list_ex_iff split: if_splits)
  have sR: "set (by_start (filter (touches rid inc) t)) = R" by (auto simp: by_start_def R_def)
  have R: "\<forall>r \<in> R. cr_start r < cr_end r \<and> 0 \<le> cr_start r \<and> cr_end r \<le> MaxInt64 \<and> cr_start r \<le> iv_end inc \<and> iv_start inc \<le> cr_end r"
    using assms(2) by (auto simp: R_def rows_ok_def touches_def)
  note ab = absorb_fold [where m = inc and rs = "by_start (filter (touches rid inc) t)", folded m_def, unfolded sR]
  have le: "\<forall>r \<in> R. iv_start m \<le> cr_start r \<and> cr_end r \<le> iv_end m" using ab(3) sR by blast
  note ms = merged_span [OF assms(3) R ab(1,2) le ab(4,5)]
  have apart: "cr_end x < cr_start y" if "x \<in> set t" "y \<in> set t" "cr_rep x = cr_rep y" "cr_start x < cr_start y" for x y
    using assms(2) that by (auto simp: rows_ok_def)
  have away: "cr_end r < iv_start m \<or> iv_end m < cr_start r" if r: "r \<in> set t2" "cr_rep r = rid" for r
  proof -
    have rt: "r \<in> set t" "r \<notin> R" and out: "iv_end inc < cr_start r \<or> cr_end r < iv_start inc"
      using r by (auto simp: t2_def R_def touches_def)
    have sep: "cr_end r < cr_start o1 \<or> cr_end o1 < cr_start r" if "o1 \<in> R" for o1
    proof -
      have "o1 \<in> set t" "cr_rep o1 = rid" using that by (auto simp: R_def touches_def)
      moreover have "cr_start o1 \<noteq> cr_start r"
      proof
        assume "cr_start o1 = cr_start r"
        then have "o1 = r" using \<open>o1 \<in> set t\<close> \<open>cr_rep o1 = rid\<close> rt(1) r(2) assms(2)
          by (auto simp: rows_ok_def distinct_map inj_on_def)
        with that rt(2) show False by simp
      qed
      ultimately show ?thesis using apart [of o1 r] apart [of r o1] rt(1) r(2) by fastforce
    qed
    have rr: "cr_start r < cr_end r" using assms(2) rt(1) by (auto simp: rows_ok_def)
    from out show ?thesis
    proof
      assume o: "iv_end inc < cr_start r"
      have "iv_end m < cr_start r" using ab(5) sep R o rr by fastforce
      then show ?thesis ..
    next
      assume o: "cr_end r < iv_start inc"
      have "cr_end r < iv_start m" using ab(4) sep R o rr by fastforce
      then show ?thesis ..
    qed
  qed
  have ok2: "rows_ok t2" using assms(2) by (simp add: t2_def rows_ok_filter)
  show "rows_ok t3"
  proof -
    have "distinct (map (\<lambda>r. (cr_rep r, cr_start r)) t3)" using ok2 key mk(1,2) by (auto simp: rows_ok_def t3 of_rep_def)
    moreover have "\<forall>r \<in> set t3. 0 \<le> cr_start r \<and> cr_start r < cr_end r \<and> cr_end r \<le> MaxInt64"
      using ok2 ms(1) mk by (auto simp: rows_ok_def t3 good_span_def)
    moreover have "cr_end a < cr_start b" if h: "a \<in> set t3" "b \<in> set t3" "cr_rep a = cr_rep b" "cr_start a < cr_start b" for a b
    proof -
      have lt: "iv_start m < iv_end m" using ms(1) by (simp add: good_span_def)
      consider "a \<in> set t2" "b \<in> set t2" | "a \<in> set t2" "b = mk m" | "a = mk m" "b \<in> set t2" | "a = mk m" "b = mk m"
        using h(1,2) by (auto simp: t3)
      then show ?thesis
      proof cases
        case 1
        then show ?thesis using ok2 h(3,4) by (auto simp: rows_ok_def)
      next
        case 2
        then show ?thesis using away [of a] h(3,4) mk lt by auto
      next
        case 3
        then have "cr_start b < cr_end b" using ok2 by (auto simp: rows_ok_def)
        then show ?thesis using 3 away [of b] h(3,4) mk by auto
      qed (use h(4) in simp)
    qed
    ultimately show ?thesis unfolding rows_ok_def by blast
  qed
  have split: "watched rid t = \<Union> (row_bytes ` R) \<union> watched rid t2"
    by (auto simp: watched_def of_rep_def R_def t2_def touches_def)
  have "watched rid t3 = watched rid t2 \<union> span_of m" using mk by (auto simp: watched_def of_rep_def t3 row_bytes_def span_of_def)
  then show "watched rid t3 = watched rid t \<union> span_of inc" using split ms(2) by auto
  show "watched x t3 = watched x t" if "x \<noteq> rid"
    using that mk(1) by (auto simp: watched_def of_rep_def t3 t2_def touches_def)
  show "int (length (of_rep rid t3)) \<le> mx" "of_rep rid t3 \<noteq> []" using lim mk(1) by (auto simp: of_rep_def t3)
qed

lemma widths:
  assumes "distinct rs" and "\<forall>a \<in> set rs. \<forall>b \<in> set rs. a \<noteq> b \<longrightarrow> row_bytes a \<inter> row_bytes b = {}"
    and "\<forall>r \<in> set rs. cr_start r < cr_end r"
  shows "int (card (\<Union> (row_bytes ` set rs))) = sum_list (map (\<lambda>r. cr_end r - cr_start r) rs)"
  using assms
proof (induction rs)
  case (Cons r rs)
  have "row_bytes r \<inter> \<Union> (row_bytes ` set rs) = {}" using Cons.prems(1,2) by auto
  then have "card (row_bytes r \<union> \<Union> (row_bytes ` set rs)) = card (row_bytes r) + card (\<Union> (row_bytes ` set rs))"
    by (intro card_Un_disjoint) (auto simp: row_bytes_def)
  moreover have "int (card (row_bytes r)) = cr_end r - cr_start r" using Cons.prems(3) by (simp add: row_bytes_def)
  moreover have "int (card (\<Union> (row_bytes ` set rs))) = sum_list (map (\<lambda>r. cr_end r - cr_start r) rs)"
    by (rule Cons.IH) (use Cons.prems in simp_all)
  ultimately show ?case by simp
qed simp


lemma sumRows_total:
  assumes "int (length (Intervals s) + length rs) \<le> mx" and "\<forall>w d. 0 \<le> d \<and> 0 \<le> w \<and> w \<le> MaxInt64 - d \<longrightarrow> check w d = None"
    and "0 \<le> Delivered s" "Delivered s + sum_list (map (\<lambda>r. cr_end r - cr_start r) rs) \<le> MaxInt64"
    and "\<forall>r \<in> set rs. cr_start r < cr_end r"
  shows "\<exists>s'. sumRows check limit mx s rs = Inr s' \<and> sn_rep s' = sn_rep s \<and>
    Intervals s' = Intervals s @ map (\<lambda>r. \<lparr>iv_start = cr_start r, iv_end = cr_end r\<rparr>) rs \<and>
    Delivered s' = Delivered s + sum_list (map (\<lambda>r. cr_end r - cr_start r) rs)"
  using assms
proof (induction rs arbitrary: s)
  case (Cons r rs)
  let ?w = "cr_end r - cr_start r"
  have w: "0 < ?w" and pos: "0 \<le> sum_list (map (\<lambda>r. cr_end r - cr_start r) rs)"
    using Cons.prems(5) by (auto intro!: sum_list_nonneg simp: less_imp_le)
  have wr: "wrap64 ?w = ?w" "wrap64 (Delivered s + ?w) = Delivered s + ?w"
    using w pos Cons.prems(3,4) by (auto intro!: wrap64_small)
  have chk: "check ?w (Delivered s) = None" using Cons.prems(2-4) pos w by simp
  define s1 where "s1 = s\<lparr>Intervals := Intervals s @ [\<lparr>iv_start = cr_start r, iv_end = cr_end r\<rparr>], Delivered := Delivered s + ?w,
     sn_updated := (if cr_updated r > sn_updated s then cr_updated r else sn_updated s)\<rparr>"
  have "sumRows check limit mx s (r # rs) = sumRows check limit mx s1 rs"
    using Cons.prems(1) chk by (simp add: wr s1_def)
  moreover obtain s' where "sumRows check limit mx s1 rs = Inr s'" "sn_rep s' = sn_rep s1"
    "Intervals s' = Intervals s1 @ map (\<lambda>r. \<lparr>iv_start = cr_start r, iv_end = cr_end r\<rparr>) rs"
    "Delivered s' = Delivered s1 + sum_list (map (\<lambda>r. cr_end r - cr_start r) rs)"
    using Cons.IH [of s1] Cons.prems w by (auto simp: s1_def)
  ultimately show ?case by (auto simp: s1_def)
qed simp

lemma rep_rows_apart:
  assumes "rows_ok t"
  shows "distinct (of_rep rid t)" "\<forall>a \<in> set (of_rep rid t). \<forall>b \<in> set (of_rep rid t). a \<noteq> b \<longrightarrow> row_bytes a \<inter> row_bytes b = {}"
    "\<forall>r \<in> set (of_rep rid t). cr_start r < cr_end r \<and> row_bytes r \<subseteq> {0 ..< MaxInt64}"
proof -
  show "distinct (of_rep rid t)" using assms by (auto simp: rows_ok_def of_rep_def distinct_map)
  show "\<forall>r \<in> set (of_rep rid t). cr_start r < cr_end r \<and> row_bytes r \<subseteq> {0 ..< MaxInt64}"
    using assms by (auto simp: rows_ok_def of_rep_def row_bytes_def)
  show "\<forall>a \<in> set (of_rep rid t). \<forall>b \<in> set (of_rep rid t). a \<noteq> b \<longrightarrow> row_bytes a \<inter> row_bytes b = {}"
  proof (intro ballI impI)
    fix a b assume ab: "a \<in> set (of_rep rid t)" "b \<in> set (of_rep rid t)" "a \<noteq> b"
    then have "cr_start a \<noteq> cr_start b" using assms by (auto simp: rows_ok_def of_rep_def distinct_map inj_on_def)
    moreover have lt: "cr_start x < cr_start y \<Longrightarrow> cr_end x < cr_start y" if "x \<in> set (of_rep rid t)" "y \<in> set (of_rep rid t)" for x y
      using assms that by (auto simp: rows_ok_def of_rep_def)
    ultimately show "row_bytes a \<inter> row_bytes b = {}"
      using lt [OF ab(1,2)] lt [OF ab(2,1)] by (cases "cr_start a < cr_start b") (auto simp: row_bytes_def)
  qed
qed

lemma delivered_total:
  assumes "rows_ok t"
  shows "sum_list (map (\<lambda>r. cr_end r - cr_start r) (by_start (of_rep rid t))) = int (card (watched rid t))"
    "int (card (watched rid t)) \<le> MaxInt64"
proof -
  note ap = rep_rows_apart [OF assms, of rid]
  have "int (card (\<Union> (row_bytes ` set (by_start (of_rep rid t))))) = sum_list (map (\<lambda>r. cr_end r - cr_start r) (by_start (of_rep rid t)))"
    using ap by (intro widths) (auto simp: by_start_def)
  then show "sum_list (map (\<lambda>r. cr_end r - cr_start r) (by_start (of_rep rid t))) = int (card (watched rid t))"
    by (simp add: by_start_def watched_def)
  have "watched rid t \<subseteq> {0 ..< MaxInt64}" using ap(3) by (auto simp: watched_def)
  then have "card (watched rid t) \<le> card {0 ..< MaxInt64}" by (rule card_mono [rotated]) simp
  then show "int (card (watched rid t)) \<le> MaxInt64" by (simp add: MaxInt64_def)
qed

lemma snapshot_total:
  assumes "rows_ok t" and "int (length (of_rep rid t)) \<le> mx" and "\<forall>w d. 0 \<le> d \<and> 0 \<le> w \<and> w \<le> MaxInt64 - d \<longrightarrow> check w d = None"
  shows "\<exists>s'. sumRows check limit mx (emptySnapshot rid) (take (nat (mx + 1)) (by_start (of_rep rid t))) = Inr s' \<and> sn_rep s' = rid \<and>
    Intervals s' = map (\<lambda>r. \<lparr>iv_start = cr_start r, iv_end = cr_end r\<rparr>) (by_start (of_rep rid t)) \<and> Delivered s' = int (card (watched rid t))"
proof -
  let ?rs = "by_start (of_rep rid t)"
  have "length ?rs \<le> nat (mx + 1)" using assms(2) by (simp add: by_start_def)
  then have tk: "take (nat (mx + 1)) ?rs = ?rs" by simp
  have "\<forall>r \<in> set ?rs. cr_start r < cr_end r" using rep_rows_apart(3) [OF assms(1)] by (auto simp: by_start_def)
  with sumRows_total [of "emptySnapshot rid" ?rs mx check limit] delivered_total [OF assms(1), of rid] assms(2,3)
  show ?thesis unfolding tk by (simp add: emptySnapshot_def by_start_def)
qed


text \<open>The coverage that survives the check of the declared size.\<close>

definition size_changed :: "string \<Rightarrow> int \<Rightarrow> coverage_row list \<Rightarrow> bool" where
  "size_changed rid declared t \<longleftrightarrow> declared > 0 \<and> of_rep rid t \<noteq> [] \<and>
     Max (cr_declared ` set (of_rep rid t)) \<noteq> 0 \<and> Max (cr_declared ` set (of_rep rid t)) \<noteq> declared"

definition adopt_row :: "string \<Rightarrow> int \<Rightarrow> coverage_row \<Rightarrow> coverage_row" where
  "adopt_row rid declared r = (if cr_rep r = rid then r\<lparr>cr_declared := declared\<rparr> else r)"

lemma adopt_row_frame:
  "cr_rep (adopt_row rid d r) = cr_rep r" "cr_start (adopt_row rid d r) = cr_start r" "cr_end (adopt_row rid d r) = cr_end r"
  "row_bytes (adopt_row rid d r) = row_bytes r"
  by (simp_all add: adopt_row_def row_bytes_def)

lemma adoptSize_cases:
  "adoptSize rid declared t =
     (if size_changed rid declared t then filter (\<lambda>r. cr_rep r \<noteq> rid) t
      else if declared > 0 \<and> (of_rep rid t = [] \<or> Max (cr_declared ` set (of_rep rid t)) = 0) then map (adopt_row rid declared) t
      else t)"
  unfolding adoptSize_def size_changed_def Let_def adopt_row_def set_map map_is_Nil_conv by simp

lemma adoptSize_kept:
  assumes "rows_ok t"
  shows "rows_ok (adoptSize rid declared t)" "watched rid (adoptSize rid declared t) = (if size_changed rid declared t then {} else watched rid t)"
    "x \<noteq> rid \<Longrightarrow> watched x (adoptSize rid declared t) = watched x t"
proof -
  consider (same) "adoptSize rid declared t = t" "\<not> size_changed rid declared t"
    | (adopt) "adoptSize rid declared t = map (adopt_row rid declared) t" "\<not> size_changed rid declared t"
    | (reset) "adoptSize rid declared t = filter (\<lambda>r. cr_rep r \<noteq> rid) t" "size_changed rid declared t"
    using adoptSize_cases [of rid declared t] by (metis (full_types))
  then have "rows_ok (adoptSize rid declared t) \<and> watched rid (adoptSize rid declared t) = (if size_changed rid declared t then {} else watched rid t) \<and>
    (x \<noteq> rid \<longrightarrow> watched x (adoptSize rid declared t) = watched x t)"
  proof cases
    case adopt
    have w: "watched y (map (adopt_row rid declared) t) = watched y t" for y
      by (auto simp: watched_def of_rep_def adopt_row_frame)
    have "map (\<lambda>r. (cr_rep r, cr_start r)) (map (adopt_row rid declared) t) = map (\<lambda>r. (cr_rep r, cr_start r)) t"
      by (simp add: adopt_row_frame)
    then have "rows_ok (map (adopt_row rid declared) t)"
      using assms unfolding rows_ok_def by (simp add: adopt_row_frame comp_def)
    with adopt w show ?thesis by simp
  next
    case reset
    with assms show ?thesis by (auto simp: rows_ok_filter watched_def of_rep_def)
  qed (use assms in auto)
  then show "rows_ok (adoptSize rid declared t)" "watched rid (adoptSize rid declared t) = (if size_changed rid declared t then {} else watched rid t)"
    "x \<noteq> rid \<Longrightarrow> watched x (adoptSize rid declared t) = watched x t" by auto
qed

lemma MergePlaybackCoverage_union:
  assumes "MergePlaybackCoverage t rid inc at mx declared = Inr (s, t')" and "rows_ok t" and "good_span inc"
  shows "rows_ok t' \<and> watched rid t' = (if size_changed rid declared t then {} else watched rid t) \<union> span_of inc \<and>
    (\<forall>x. x \<noteq> rid \<longrightarrow> watched x t' = watched x t) \<and> Delivered s = int (card (watched rid t')) \<and> int (length (of_rep rid t')) \<le> mx"
proof -
  let ?mk = "\<lambda>m. \<lparr>cr_rep = rid, cr_start = iv_start m, cr_end = iv_end m, cr_updated = at, cr_declared = declared\<rparr>"
  obtain t3 s0 found where m: "mergeRows rid inc mx ''store: playback coverage interval limit exceeded'' ?mk (adoptSize rid declared t) = Inr t3"
    and g: "getPlaybackCoverage t3 rid mx = Inr (s0, found)" and r: "if found then s = s0 \<and> t' = t3 else s = emptySnapshot '''' \<and> t' = t"
    using assms(1) by (auto simp: MergePlaybackCoverage_def split: sum.splits prod.splits if_splits)
  note a = adoptSize_kept [OF assms(2), where rid = rid and declared = declared]
  note u = mergeRows_union [OF m a(1) assms(3)]
  from snapshot_total [of t3 rid mx "\<lambda>_ _. None" "Plain ''store: playback coverage interval limit exceeded''"] u(1,4)
  obtain s1 where s1: "getPlaybackCoverage t3 rid mx = Inr (s1, Intervals s1 \<noteq> [])" "Delivered s1 = int (card (watched rid t3))"
    "length (Intervals s1) = length (of_rep rid t3)"
    by (auto simp: getPlaybackCoverage_def by_start_def)
  have "found" "s0 = s1" using s1 g u(5) by auto
  with r s1 u a show ?thesis by auto
qed

lemma MergePlaybackMediaCoverage_union:
  assumes "MergePlaybackMediaCoverage t rid inc at mx = Inr (s, t')" and "rows_ok t" and "good_span inc"
  shows "rows_ok t' \<and> watched rid t' = watched rid t \<union> span_of inc \<and> (\<forall>x. x \<noteq> rid \<longrightarrow> watched x t' = watched x t) \<and>
    Delivered s = int (card (watched rid t')) \<and> int (length (of_rep rid t')) \<le> mx"
proof -
  let ?mk = "\<lambda>m. \<lparr>cr_rep = rid, cr_start = iv_start m, cr_end = iv_end m, cr_updated = at\<rparr>"
  let ?check = "\<lambda>w d. if w > wrap64 (MaxInt64 - d) then Some (Plain ''store: playback media coverage total overflow'') else None"
  obtain t3 s0 found where m: "mergeRows rid inc mx ''store: playback media coverage interval limit exceeded'' ?mk t = Inr t3"
    and g: "getPlaybackMediaCoverage t3 rid mx = Inr (s0, found)" and r: "if found then s = s0 \<and> t' = t3 else s = emptySnapshot '''' \<and> t' = t"
    using assms(1) by (auto simp: MergePlaybackMediaCoverage_def split: sum.splits prod.splits if_splits)
  note u = mergeRows_union [OF m assms(2,3)]
  have chk: "\<forall>w d. 0 \<le> d \<and> 0 \<le> w \<and> w \<le> MaxInt64 - d \<longrightarrow> ?check w d = None"
    using wrap64_small by auto
  from snapshot_total [of t3 rid mx ?check "Plain ''store: playback media coverage interval limit exceeded''"] u(1,4) chk
  obtain s1 where s1: "getPlaybackMediaCoverage t3 rid mx = Inr (s1, Intervals s1 \<noteq> [])" "Delivered s1 = int (card (watched rid t3))"
    "length (Intervals s1) = length (of_rep rid t3)"
    by (auto simp: getPlaybackMediaCoverage_def by_start_def)
  have "found" "s0 = s1" using s1 g u(5) by auto
  with r s1 u show ?thesis by auto
qed


text \<open>A refused merge is refused for the bound on intervals only, and changes nothing.\<close>

lemma mergeRows_refused:
  assumes "mergeRows rid inc mx msg mk t = Inl e" and "rows_ok t" and "good_span inc"
  shows "e = Plain msg \<and> int (length (of_rep rid (filter (\<lambda>r. \<not> touches rid inc r) t))) \<ge> mx"
proof -
  define R where "R = {r \<in> set t. touches rid inc r}"
  define m where "m = foldl absorb inc (by_start (filter (touches rid inc) t))"
  have sR: "set (by_start (filter (touches rid inc) t)) = R" by (auto simp: by_start_def R_def)
  have R: "\<forall>r \<in> R. cr_start r < cr_end r \<and> 0 \<le> cr_start r \<and> cr_end r \<le> MaxInt64 \<and> cr_start r \<le> iv_end inc \<and> iv_start inc \<le> cr_end r"
    using assms(2) by (auto simp: R_def rows_ok_def touches_def)
  note ab = absorb_fold [where m = inc and rs = "by_start (filter (touches rid inc) t)", folded m_def, unfolded sR]
  have le: "\<forall>r \<in> R. iv_start m \<le> cr_start r \<and> cr_end r \<le> iv_end m" using ab(3) sR by blast
  have good: "good_span m" by (rule merged_span(1) [OF assms(3) R ab(1,2) le ab(4,5)])
  have "cr_start r \<noteq> iv_start m" if r: "r \<in> set t" "cr_rep r = rid" "\<not> touches rid inc r" for r
  proof
    assume eq: "cr_start r = iv_start m"
    have rr: "cr_start r < cr_end r" using assms(2) r(1) by (auto simp: rows_ok_def)
    have "r \<notin> R" using r by (simp add: R_def)
    moreover have "r2 = r" if "r2 \<in> R" "iv_start m = cr_start r2" for r2
    proof -
      have "inj_on (\<lambda>r. (cr_rep r, cr_start r)) (set t)" using assms(2) by (simp add: rows_ok_def distinct_map)
      then show ?thesis by (rule inj_onD) (use that eq r in \<open>auto simp: R_def touches_def\<close>)
    qed
    ultimately have "iv_start m = iv_start inc" using ab(4) by blast
    then show False using eq rr r(2,3) assms(3) by (auto simp: touches_def good_span_def)
  qed
  then show ?thesis using assms(1) good
    by (auto simp: mergeRows_def Let_def m_def [symmetric] list_ex_iff of_rep_def good_span_def split: if_splits)
qed

text \<open>C31: delivered playback is accounted for exactly. In tables whose rows are separated, a merge of a delivered span
  turns the recorded set of positions into its union with the span (for bytes, after forgetting what belonged to another declared size), leaves
  other representations alone, keeps the rows separated and within the bound, and reports as delivered the exact number
  of positions recorded, which cannot overflow. It is refused only when the bound on intervals is
  reached. The same holds of media time.\<close>

theorem coverage_is_union:
  assumes "rows_ok t" and "rows_ok mt" and "good_span inc"
  shows "(case MergePlaybackCoverage t rid inc at mx declared of
      Inl e \<Rightarrow> e = Plain ''store: playback coverage interval limit exceeded'' \<and>
        int (length (of_rep rid (filter (\<lambda>r. \<not> touches rid inc r) (adoptSize rid declared t)))) \<ge> mx
    | Inr (s, t') \<Rightarrow> rows_ok t' \<and> watched rid t' = (if size_changed rid declared t then {} else watched rid t) \<union> span_of inc \<and>
        (\<forall>x. x \<noteq> rid \<longrightarrow> watched x t' = watched x t) \<and> Delivered s = int (card (watched rid t')) \<and> int (length (of_rep rid t')) \<le> mx) \<and>
    (case MergePlaybackMediaCoverage mt rid inc at mx of
      Inl e \<Rightarrow> e = Plain ''store: playback media coverage interval limit exceeded'' \<and>
        int (length (of_rep rid (filter (\<lambda>r. \<not> touches rid inc r) mt))) \<ge> mx
    | Inr (s, t') \<Rightarrow> rows_ok t' \<and> watched rid t' = watched rid mt \<union> span_of inc \<and>
        (\<forall>x. x \<noteq> rid \<longrightarrow> watched x t' = watched x mt) \<and> Delivered s = int (card (watched rid t')) \<and> int (length (of_rep rid t')) \<le> mx)"
proof -
  let ?mk = "\<lambda>m. \<lparr>cr_rep = rid, cr_start = iv_start m, cr_end = iv_end m, cr_updated = at, cr_declared = declared\<rparr>"
  let ?mkm = "\<lambda>m. \<lparr>cr_rep = rid, cr_start = iv_start m, cr_end = iv_end m, cr_updated = at\<rparr>"
  note a = adoptSize_kept(1) [OF assms(1), of rid declared]
  have refused: "mergeRows rid inc mx ''store: playback coverage interval limit exceeded'' ?mk (adoptSize rid declared t) = Inl e"
    if "MergePlaybackCoverage t rid inc at mx declared = Inl e" for e
  proof (cases "mergeRows rid inc mx ''store: playback coverage interval limit exceeded'' ?mk (adoptSize rid declared t)")
    case (Inr t3)
    note u = mergeRows_union [OF Inr a assms(3)]
    from snapshot_total [of t3 rid mx "\<lambda>_ _. None" "Plain ''store: playback coverage interval limit exceeded''"] u(1,4)
    show ?thesis using that Inr by (auto simp: MergePlaybackCoverage_def getPlaybackCoverage_def split: if_splits)
  qed (use that in \<open>simp add: MergePlaybackCoverage_def\<close>)
  have refused_media: "mergeRows rid inc mx ''store: playback media coverage interval limit exceeded'' ?mkm mt = Inl e"
    if "MergePlaybackMediaCoverage mt rid inc at mx = Inl e" for e
  proof (cases "mergeRows rid inc mx ''store: playback media coverage interval limit exceeded'' ?mkm mt")
    case (Inr t3)
    let ?check = "\<lambda>w d. if w > wrap64 (MaxInt64 - d) then Some (Plain ''store: playback media coverage total overflow'') else None"
    note u = mergeRows_union [OF Inr assms(2,3)]
    have "\<forall>w d. 0 \<le> d \<and> 0 \<le> w \<and> w \<le> MaxInt64 - d \<longrightarrow> ?check w d = None" using wrap64_small by auto
    with snapshot_total [of t3 rid mx ?check "Plain ''store: playback media coverage interval limit exceeded''"] u(1,4)
    show ?thesis using that Inr by (auto simp: MergePlaybackMediaCoverage_def getPlaybackMediaCoverage_def split: if_splits)
  qed (use that in \<open>simp add: MergePlaybackMediaCoverage_def\<close>)
  show ?thesis
    using mergeRows_refused [OF refused a assms(3)] MergePlaybackCoverage_union [OF _ assms(1,3)]
      mergeRows_refused [OF refused_media assms(2,3)] MergePlaybackMediaCoverage_union [OF _ assms(2,3)]
    by (auto split: sum.splits prod.splits)
qed

theorem coverage_is_union_witness:
  "\<exists>s t'. MergePlaybackCoverage [\<lparr>cr_rep = ''r'', cr_start = 0, cr_end = 10, cr_updated = 0, cr_declared = 100\<rparr>] ''r''
      \<lparr>iv_start = 5, iv_end = 20\<rparr> 1 8 100 = Inr (s, t') \<and> watched ''r'' t' = {0 ..< 20} \<and> Delivered s = 20"
proof -
  let ?t = "[\<lparr>cr_rep = ''r'', cr_start = 0, cr_end = 10, cr_updated = 0, cr_declared = 100\<rparr>]" and ?i = "\<lparr>iv_start = 5, iv_end = 20\<rparr>"
  let ?m = "MergePlaybackCoverage ?t ''r'' ?i 1 8 100"
  have ok: "rows_ok ?t" "rows_ok ([] :: media_row list)" "good_span ?i" by (simp_all add: rows_ok_def good_span_def MaxInt64_def)
  have "\<not> isl ?m" by code_simp
  then obtain s t' where m: "?m = Inr (s, t')" by (metis prod.collapse sum.collapse(2))
  have nc: "\<not> size_changed ''r'' 100 ?t" by (simp add: size_changed_def of_rep_def)
  have "watched ''r'' ?t \<union> span_of ?i = {0 ..< 20}" by (auto simp: watched_def of_rep_def row_bytes_def span_of_def)
  then have "watched ''r'' t' = {0 ..< 20}" "Delivered s = 20"
    using coverage_is_union [OF ok, where rid = "''r''" and at = 1 and mx = 8 and declared = 100] m nc by auto
  with m show ?thesis by blast
qed


subsection \<open>A history of observations\<close>

text \<open>What the tracker needs of a repository of intervals: a merge adds the span to what is recorded.\<close>

locale interval_repo =
  fixes merge :: "'r \<Rightarrow> string \<Rightarrow> Interval \<Rightarrow> instant \<Rightarrow> int \<Rightarrow> (go_error, Snapshot \<times> 'r) result"
    and recorded :: "'r \<Rightarrow> string \<Rightarrow> int set"
    and wf :: "'r \<Rightarrow> bool"
  assumes merge_adds: "wf r \<Longrightarrow> good_span i \<Longrightarrow> merge r rid i at mx = Inr (s, r') \<Longrightarrow>
    wf r' \<and> recorded r' rid = recorded r rid \<union> span_of i \<and> (\<forall>x. x \<noteq> rid \<longrightarrow> recorded r' x = recorded r x) \<and>
    Delivered s = int (card (recorded r' rid))"
begin

lemma again_is_idempotent:
  assumes "wf r" "good_span i" "merge r rid i at mx = Inr (s, r')" "merge r' rid i at' mx = Inr (s', r'')"
  shows "recorded r'' rid = recorded r' rid \<and> Delivered s' = Delivered s"
  using merge_adds [OF assms(1-3)] merge_adds [OF _ assms(2,4)] by auto

lemma never_shrinks:
  assumes "wf r" "good_span i" "merge r rid i at mx = Inr (s, r')" "finite (recorded r rid)"
  shows "int (card (recorded r rid)) \<le> Delivered s"
  using merge_adds [OF assms(1-3)] assms(4) by (auto intro!: card_mono simp: span_of_def)

end

interpretation media: interval_repo MergePlaybackMediaCoverage "\<lambda>t rid. watched rid t" rows_ok
  by unfold_locales (auto dest: MergePlaybackMediaCoverage_union)

interpretation unsized: interval_repo "\<lambda>t rid i at mx. MergePlaybackCoverage t rid i at mx 0" "\<lambda>t rid. watched rid t" rows_ok
  by unfold_locales (auto dest!: MergePlaybackCoverage_union simp: size_changed_def)

text \<open>The declared size of a row is lost when a span without a declared size is merged into it; coverage of one release is
  then counted for another, here ten delivered bytes of a release of four.\<close>

theorem stale_coverage_after_unknown_size:
  "\<exists>s1 t1 s2 t2 s3 t3. MergePlaybackCoverage [] ''r'' \<lparr>iv_start = 0, iv_end = 10\<rparr> 1 8 10 = Inr (s1, t1) \<and>
     MergePlaybackCoverage t1 ''r'' \<lparr>iv_start = 5, iv_end = 8\<rparr> 2 8 0 = Inr (s2, t2) \<and>
     MergePlaybackCoverage t2 ''r'' \<lparr>iv_start = 0, iv_end = 1\<rparr> 3 8 4 = Inr (s3, t3) \<and> Delivered s3 = 10"
proof -
  let ?m1 = "MergePlaybackCoverage [] ''r'' \<lparr>iv_start = 0, iv_end = 10\<rparr> 1 8 10"
  let ?m2 = "\<lambda>x. MergePlaybackCoverage (snd x) ''r'' \<lparr>iv_start = 5, iv_end = 8\<rparr> 2 8 0"
  let ?m3 = "\<lambda>x. MergePlaybackCoverage (snd x) ''r'' \<lparr>iv_start = 0, iv_end = 1\<rparr> 3 8 4"
  have 1: "\<not> isl ?m1" by code_simp
  have 2: "\<not> isl (?m2 (projr ?m1))" by code_simp
  have 3: "\<not> isl (?m3 (projr (?m2 (projr ?m1))))" by code_simp
  have 4: "Delivered (fst (projr (?m3 (projr (?m2 (projr ?m1)))))) = 10" by code_simp
  have "?m1 = Inr (fst (projr ?m1), snd (projr ?m1))" using 1 by simp
  moreover have "?m2 (projr ?m1) = Inr (fst (projr (?m2 (projr ?m1))), snd (projr (?m2 (projr ?m1))))" using 2 by simp
  moreover have "?m3 (projr (?m2 (projr ?m1))) = Inr (fst (projr (?m3 (projr (?m2 (projr ?m1))))), snd (projr (?m3 (projr (?m2 (projr ?m1))))))"
    using 3 by simp
  ultimately show ?thesis using 4 by blast
qed

end
