(* ===== verification/ReactiveStore.thy ===== *)
theory ReactiveStore
  imports PlaybackCoverage ProofStore
begin

section \<open>Tables of reactive acquisition\<close>

text \<open>
  \<open>store/reactive_commits.go\<close>, \<open>store/reactive_pending.go\<close>, \<open>store/reactive_promotions.go\<close> and
  \<open>store/reactive_metrics.go\<close>: commits of played titles to a media manager, the queue of decisions an
  operator has to take, promotions to local files and the bounded event log behind the metrics.

  A table is a list of rows, and an SQL statement or transaction is a function on the database. The
  triggers and constraints of the schema are part of the statements that fire them. An operation that reads after it wrote, or writes
  after it read, without a transaction takes what other callers do between the two as the argument \<open>w\<close>, so its branches for races are reachable.

  Results: the tables keep their invariant under every statement in every order; a commit only moves forward through its life cycle, so an
  undone title is never committed again; every proposal is in the queue, and a decision taken there fits its reason.
\<close>

subsection \<open>Rows\<close>

record ReactiveCommit =
  rc_rep :: string
  rc_item :: string
  rc_file :: string
  rc_state :: string
  rc_mode :: string
  rc_review :: bool
  rc_reason :: string
  rc_arr :: string
  rc_kind :: string
  rc_arrItem :: int
  rc_owner :: bool
  rc_prior :: "bool option"
  rc_created :: instant
  rc_updated :: instant
  rc_files :: "int list"
  rc_episodes :: "(int \<times> bool) list"

record ReactivePending =
  rp_rep :: string
  rp_item :: string
  rp_reason :: string
  rp_state :: string
  rp_action :: string
  rp_arr :: string
  rp_created :: instant
  rp_updated :: instant

record ReactiveAssignment =
  ra_kind :: string
  ra_provider :: string
  ra_value :: string
  ra_arr :: string

record ReactivePromotion =
  pm_rep :: string
  pm_state :: string
  pm_path :: string
  pm_bytes :: int
  pm_created :: instant
  pm_updated :: instant

record reactive_event =
  ev_kind :: string
  ev_mode :: string
  ev_outcome :: string
  ev_bytes :: int
  ev_at :: instant

text \<open>The files and episodes of a commit are tables of their own; the commit rows here carry empty lists.\<close>

record 'f reactive_db = "'f playback_db" +
  commits :: "ReactiveCommit list"
  commit_files :: "(string \<times> int) list"
  commit_episodes :: "(string \<times> int \<times> bool) list"
  pendings :: "ReactivePending list"
  assignments :: "(ReactiveAssignment \<times> instant \<times> instant) list"
  events :: "reactive_event table"
  event_seq :: nat
  headroom :: "(int \<times> instant) option"
  promotions :: "ReactivePromotion list"

text \<open>\<open>UPDATE ... WHERE\<close>.\<close>

definition update_rows :: "('a \<Rightarrow> bool) \<Rightarrow> ('a \<Rightarrow> 'a) \<Rightarrow> 'a list \<Rightarrow> 'a list" where
  "update_rows P f t = map (\<lambda>r. if P r then f r else r) t"

subsection \<open>The event log\<close>

definition maxReactiveEvents :: nat where "maxReactiveEvents = 100000"
definition reactiveEventDays :: int where "reactiveEventDays = 366"

text \<open>The constraints of the table.\<close>

definition event_allowed :: "string \<Rightarrow> string \<Rightarrow> string \<Rightarrow> bool" where
  "event_allowed kind mode outcome \<longleftrightarrow> kind \<in> {''commit'', ''park'', ''undo'', ''promotion''} \<and> mode \<in> {'''', ''auto'', ''supervised''} \<and>
     outcome \<in> {'''', ''strong_evidence'', ''weak_evidence'', ''positive_mismatch''}"

definition appendReactiveEvent :: "string \<Rightarrow> string \<Rightarrow> string \<Rightarrow> int \<Rightarrow> instant \<Rightarrow> 'f reactive_db \<Rightarrow> (go_error, 'f reactive_db) result" where
  "appendReactiveEvent kind mode outcome bytes at db =
     (if at = zeroTime \<or> bytes < 0 then Inl (Plain ''store: invalid reactive event'')
      else if \<not> event_allowed kind mode outcome then Inl (Plain ''constraint failed'')
      else
        (let n = Suc (event_seq db);
             t = events db @ [(n, \<lparr>ev_kind = kind, ev_mode = mode, ev_outcome = outcome, ev_bytes = bytes, ev_at = at\<rparr>)]
         in Inr (db\<lparr>events := filter (\<lambda>(i, e). \<not> stamp_less (ev_at e) (at - reactiveEventDays * 24 * Hour))
                                (keep_newest ev_at (\<lambda>_. True) (int maxReactiveEvents) t),
                    event_seq := n\<rparr>)))"

definition RecordReactivePromotion :: "'f reactive_db \<Rightarrow> int \<Rightarrow> instant \<Rightarrow> (go_error, 'f reactive_db) result" where
  "RecordReactivePromotion db bytes at =
     (if bytes \<le> 0 then Inl (Plain ''store: invalid reactive promotion bytes'')
      else appendReactiveEvent ''promotion'' '''' '''' bytes at db)"

definition SetReactivePromotionHeadroom :: "'f reactive_db \<Rightarrow> int \<Rightarrow> instant \<Rightarrow> (go_error, 'f reactive_db) result" where
  "SetReactivePromotionHeadroom db bytes at =
     (if bytes < 0 \<or> at = zeroTime then Inl (Plain ''store: invalid reactive promotion headroom'')
      else Inr (db\<lparr>headroom := Some (bytes, at)\<rparr>))"

subsection \<open>The triggers of the queue\<close>

definition has_proposal :: "'f reactive_db \<Rightarrow> string \<Rightarrow> bool" where
  "has_proposal db rid \<longleftrightarrow> list_ex (\<lambda>p. pr_rep p = rid) (playback_proposals db)"

text \<open>\<open>reactive_pending_after_park\<close> and \<open>reactive_pending_after_weak_commit\<close>, for the updated row.\<close>

definition reopen :: "string \<Rightarrow> ReactiveCommit \<Rightarrow> 'f reactive_db \<Rightarrow> 'f reactive_db" where
  "reopen reason c db =
     (if \<not> has_proposal db (rc_rep c) then db
      else if list_ex (\<lambda>p. rp_rep p = rc_rep c) (pendings db)
        then db\<lparr>pendings := update_rows (\<lambda>p. rp_rep p = rc_rep c)
               (\<lambda>p. p\<lparr>rp_reason := reason, rp_state := ''pending'', rp_action := '''', rp_arr := '''', rp_updated := rc_updated c\<rparr>) (pendings db)\<rparr>
      else db\<lparr>pendings := pendings db @ [\<lparr>rp_rep = rc_rep c, rp_item = rc_item c, rp_reason = reason, rp_state = ''pending'',
               rp_action = '''', rp_arr = '''', rp_created = rc_created c, rp_updated = rc_updated c\<rparr>]\<rparr>)"

text \<open>Creating a proposal fires \<open>reactive_pending_after_proposal\<close>.\<close>

definition insertProposal :: "('f \<Rightarrow> bool) \<Rightarrow> 'f reactive_db \<Rightarrow> 'f Proposal \<Rightarrow> (go_error, bool \<times> 'f reactive_db) result" where
  "insertProposal valid db p =
     (case CreatePlaybackProposal valid (playback_proposals db) p of
        Inl e \<Rightarrow> Inl e
      | Inr (False, _) \<Rightarrow> Inr (False, db)
      | Inr (True, t) \<Rightarrow>
          if list_ex (\<lambda>q. rp_rep q = pr_rep p) (pendings db) then Inl (Plain ''constraint failed'')
          else Inr (True, db\<lparr>playback_proposals := t,
                 pendings := pendings db @ [\<lparr>rp_rep = pr_rep p, rp_item = pr_item p, rp_reason = ''supervised_review'', rp_state = ''pending'',
                   rp_action = '''', rp_arr = '''', rp_created = pr_created p, rp_updated = pr_created p\<rparr>]\<rparr>))"

subsection \<open>Commits\<close>

definition ErrReactiveNoRecommit :: go_error where "ErrReactiveNoRecommit = Plain ''store: reactive item was undone''"

definition emptyCommit :: ReactiveCommit where
  "emptyCommit = \<lparr>rc_rep = '''', rc_item = '''', rc_file = '''', rc_state = '''', rc_mode = '''', rc_review = False, rc_reason = '''', rc_arr = '''',
     rc_kind = '''', rc_arrItem = 0, rc_owner = False, rc_prior = None, rc_created = zeroTime, rc_updated = zeroTime, rc_files = [], rc_episodes = []\<rparr>"

definition GetReactiveCommit :: "'f reactive_db \<Rightarrow> string \<Rightarrow> ReactiveCommit option" where
  "GetReactiveCommit db rid =
     map_option (\<lambda>r. r\<lparr>rc_files := sort (map snd (filter (\<lambda>x. fst x = rid) (commit_files db))),
         rc_episodes := sort_key fst (map snd (filter (\<lambda>x. fst x = rid) (commit_episodes db)))\<rparr>)
       (find (\<lambda>r. rc_rep r = rid) (commits db))"

definition insertCommit :: "string \<Rightarrow> string \<Rightarrow> string \<Rightarrow> string \<Rightarrow> instant \<Rightarrow> 'f reactive_db \<Rightarrow> bool \<times> 'f reactive_db" where
  "insertCommit rid item file mode now db =
     (if list_ex (\<lambda>r. rc_rep r = rid) (commits db) then (False, db)
      else (True, db\<lparr>commits := commits db @ [emptyCommit\<lparr>rc_rep := rid, rc_item := item, rc_file := file, rc_state := ''committing'', rc_mode := mode,
              rc_created := now, rc_updated := now\<rparr>]\<rparr>))"

text \<open>
  \<open>GetReactiveCommit\<close> as its callers see it: each of its three queries may find that the context has ended, the last two only if the
  first found a row.
\<close>

definition fetchCommit :: "(nat \<Rightarrow> go_error option) \<Rightarrow> 'f reactive_db \<Rightarrow> string \<Rightarrow> (go_error, ReactiveCommit option) result" where
  "fetchCommit cx db rid =
     (case cx 0 of
        Some e \<Rightarrow> Inl (Wrapped ''store: get reactive commit: '' e)
      | None \<Rightarrow>
          (case GetReactiveCommit db rid of
             None \<Rightarrow> Inr None
           | Some r \<Rightarrow> (case cx 1 of Some e \<Rightarrow> Inl e | None \<Rightarrow> case cx 2 of Some e \<Rightarrow> Inl e | None \<Rightarrow> Inr (Some r))))"

text \<open>The record beside an error is dropped: no caller reads it. Reading \<open>cx 0\<close> of the context is the INSERT's, the next three the queries'.\<close>

definition BeginReactiveCommit :: "('f reactive_db \<Rightarrow> 'f reactive_db) \<Rightarrow> (nat \<Rightarrow> go_error option) \<Rightarrow> 'f reactive_db \<Rightarrow> string \<Rightarrow> string \<Rightarrow> string \<Rightarrow> string \<Rightarrow> instant \<Rightarrow>
  (go_error, ReactiveCommit \<times> bool) result \<times> 'f reactive_db" where
  "BeginReactiveCommit w cx db rid item file mode now =
     (if rid = '''' \<or> item = '''' \<or> file = '''' \<or> (mode \<noteq> ''auto'' \<and> mode \<noteq> ''supervised'') \<or> now = zeroTime
        then (Inl (Plain ''store: invalid reactive commit''), db)
      else case cx 0 of
        Some e \<Rightarrow> (Inl (Wrapped ''store: begin reactive commit: '' e), db)
      | None \<Rightarrow>
        (let (created, db1) = insertCommit rid item file mode now db; db2 = w db1 in
         case fetchCommit (\<lambda>n. cx (n + 1)) db2 rid of
           Inl e \<Rightarrow> (Inl e, db2)
         | Inr None \<Rightarrow> (Inr (emptyCommit, False), db2)
         | Inr (Some r) \<Rightarrow>
             (if rc_state r = ''undone'' \<or> rc_state r = ''undoing'' then Inl ErrReactiveNoRecommit
              else if rc_item r \<noteq> item \<or> rc_file r \<noteq> file then Inl (Plain ''store: conflicting reactive commit'')
              else if rc_state r = ''committed'' \<or> rc_state r = ''parked'' then Inr (r, False)
              else if rc_mode r \<noteq> mode then Inl (Plain ''store: conflicting reactive commit'')
              else Inr (r, created), db2)))"

definition in_state :: "string \<Rightarrow> string \<Rightarrow> ReactiveCommit \<Rightarrow> bool" where
  "in_state rid st r \<longleftrightarrow> rc_rep r = rid \<and> rc_state r = st"

definition ParkReactiveCommit :: "'f reactive_db \<Rightarrow> string \<Rightarrow> string \<Rightarrow> instant \<Rightarrow> (go_error, 'f reactive_db) result" where
  "ParkReactiveCommit db rid reason now =
     (if reason = '''' \<or> now = zeroTime then Inl (Plain ''store: invalid reactive park'')
      else case find (in_state rid ''committing'') (commits db) of
        None \<Rightarrow> Inl (Plain ''store: reactive commit cannot park'')
      | Some r \<Rightarrow>
          (let park = \<lambda>c. c\<lparr>rc_state := ''parked'', rc_reason := reason, rc_updated := now\<rparr>
           in appendReactiveEvent ''park'' '''' ''positive_mismatch'' 0 now
                (reopen ''positive_mismatch'' (park r) (db\<lparr>commits := update_rows (in_state rid ''committing'') park (commits db)\<rparr>))))"

text \<open>Deleting a commit deletes the rows that refer to it.\<close>

definition AbortReactiveCommit :: "'f reactive_db \<Rightarrow> string \<Rightarrow> (go_error, 'f reactive_db) result" where
  "AbortReactiveCommit db rid =
     (if rid = '''' then Inl (Plain ''store: invalid reactive abort'')
      else if list_ex (in_state rid ''committing'') (commits db)
        then Inr (db\<lparr>commits := filter (\<lambda>r. \<not> in_state rid ''committing'' r) (commits db),
                   commit_files := filter (\<lambda>x. fst x \<noteq> rid) (commit_files db),
                   commit_episodes := filter (\<lambda>x. fst x \<noteq> rid) (commit_episodes db),
                   promotions := filter (\<lambda>p. pm_rep p \<noteq> rid) (promotions db)\<rparr>)
      else Inr db)"

text \<open>\<open>INSERT OR IGNORE\<close> with the given key.\<close>

definition insert_ignore :: "('a \<Rightarrow> 'k) \<Rightarrow> 'a list \<Rightarrow> 'a \<Rightarrow> 'a list" where
  "insert_ignore key t x = (if list_ex (\<lambda>y. key y = key x) t then t else t @ [x])"

definition CompleteReactiveCommit :: "'f reactive_db \<Rightarrow> ReactiveCommit \<Rightarrow> instant \<Rightarrow> (go_error, 'f reactive_db) result" where
  "CompleteReactiveCommit db r now =
     (if rc_rep r = '''' \<or> rc_arr r = '''' \<or> (rc_kind r \<noteq> ''series'' \<and> rc_kind r \<noteq> ''movie'') \<or> rc_arrItem r \<le> 0 \<or> rc_files r = [] \<or> now = zeroTime
        then Inl (Plain ''store: invalid reactive completion'')
      else case find (in_state (rc_rep r) ''committing'') (commits db) of
        None \<Rightarrow> Inl (Plain ''store: reactive commit cannot complete'')
      | Some c0 \<Rightarrow>
          (let complete = \<lambda>c. c\<lparr>rc_state := ''committed'', rc_review := rc_review r, rc_reason := rc_reason r, rc_arr := rc_arr r, rc_kind := rc_kind r,
                 rc_arrItem := rc_arrItem r, rc_owner := rc_owner r, rc_prior := rc_prior r, rc_updated := now\<rparr>;
               db1 = db\<lparr>commits := update_rows (in_state (rc_rep r) ''committing'') complete (commits db)\<rparr>;
               db2 = (if rc_review r then reopen ''weak_evidence'' (complete c0) db1 else db1)
           in if list_ex (\<lambda>i. i \<le> 0) (rc_files r) then Inl (Plain ''store: invalid reactive file id'')
              else if list_ex (\<lambda>e. fst e \<le> 0) (rc_episodes r) then Inl (Plain ''store: invalid reactive episode id'')
              else appendReactiveEvent ''commit'' (rc_mode r) (if rc_review r then ''weak_evidence'' else ''strong_evidence'') 0 now
                (db2\<lparr>commit_files := foldl (insert_ignore id) (commit_files db) (map (Pair (rc_rep r)) (rc_files r)),
                     commit_episodes := foldl (insert_ignore (\<lambda>x. (fst x, fst (snd x)))) (commit_episodes db) (map (Pair (rc_rep r)) (rc_episodes r))\<rparr>)))"

definition startUndo :: "string \<Rightarrow> instant \<Rightarrow> 'f reactive_db \<Rightarrow> 'f reactive_db" where
  "startUndo rid now db =
     db\<lparr>commits := update_rows (in_state rid ''committed'') (\<lambda>c. c\<lparr>rc_state := ''undoing'', rc_updated := now\<rparr>) (commits db)\<rparr>"

definition BeginReactiveUndo :: "('f reactive_db \<Rightarrow> 'f reactive_db) \<Rightarrow> (nat \<Rightarrow> go_error option) \<Rightarrow> 'f reactive_db \<Rightarrow> string \<Rightarrow> instant \<Rightarrow>
  (go_error, ReactiveCommit) result \<times> 'f reactive_db" where
  "BeginReactiveUndo w cx db rid now =
     (case cx 0 of
        Some e \<Rightarrow> (Inl e, db)
      | None \<Rightarrow>
          (let hit = list_ex (in_state rid ''committed'') (commits db);
               db2 = w (startUndo rid now db)
           in (case fetchCommit (\<lambda>n. cx (n + 1)) db2 rid of
                 Inl e \<Rightarrow> Inl e
               | Inr (Some r) \<Rightarrow> if hit \<or> rc_state r = ''undone'' then Inr r else Inl (Plain ''store: reactive commit cannot undo'')
               | Inr None \<Rightarrow> if hit then Inr emptyCommit else Inl (Plain ''store: reactive commit cannot undo''), db2)))"

definition CompleteReactiveUndo :: "'f reactive_db \<Rightarrow> string \<Rightarrow> instant \<Rightarrow> (go_error, 'f reactive_db) result" where
  "CompleteReactiveUndo db rid now =
     (if \<not> list_ex (in_state rid ''undoing'') (commits db) then Inl (Plain ''store: reactive undo cannot complete'')
      else appendReactiveEvent ''undo'' '''' '''' 0 now
             (db\<lparr>commits := update_rows (in_state rid ''undoing'') (\<lambda>c. c\<lparr>rc_state := ''undone'', rc_updated := now\<rparr>) (commits db)\<rparr>))"

subsection \<open>The queue of decisions\<close>

definition MaxReactivePendingPage :: int where "MaxReactivePendingPage = 100"

definition validPendingReason :: "string \<Rightarrow> bool" where
  "validPendingReason reason \<longleftrightarrow>
     reason \<in> {''supervised_review'', ''weak_evidence'', ''positive_mismatch'', ''routing_unresolved'', ''routing_ambiguous''}"

definition validPendingAction :: "string \<Rightarrow> string \<Rightarrow> bool" where
  "validPendingAction reason action =
     (if reason = ''supervised_review'' then action = ''approve'' \<or> action = ''jellyfin_only'' \<or> action = ''remove'' \<or> action = ''assign''
      else if reason = ''weak_evidence'' then action = ''acknowledge'' \<or> action = ''undo''
      else if reason = ''positive_mismatch'' then action = ''jellyfin_only'' \<or> action = ''remove''
      else if reason = ''routing_unresolved'' \<or> reason = ''routing_ambiguous'' then action = ''assign'' \<or> action = ''jellyfin_only'' \<or> action = ''remove''
      else False)"

definition newPending :: "string \<Rightarrow> string \<Rightarrow> string \<Rightarrow> instant \<Rightarrow> instant \<Rightarrow> ReactivePending" where
  "newPending rid item reason created updated = \<lparr>rp_rep = rid, rp_item = item, rp_reason = reason, rp_state = ''pending'', rp_action = '''',
     rp_arr = '''', rp_created = created, rp_updated = updated\<rparr>"

text \<open>\<open>INSERT OR IGNORE\<close> of several rows; a row that is not ignored needs its proposal.\<close>

definition insertPendings :: "ReactivePending list \<Rightarrow> 'f reactive_db \<Rightarrow> (go_error, 'f reactive_db) result" where
  "insertPendings rows db =
     (if list_ex (\<lambda>r. \<not> has_proposal db (rp_rep r) \<and> \<not> list_ex (\<lambda>q. rp_rep q = rp_rep r) (pendings db)) rows
        then Inl (Wrapped ''store: sync reactive pending: '' (Plain ''FOREIGN KEY constraint failed''))
      else Inr (db\<lparr>pendings := foldl (insert_ignore rp_rep) (pendings db) rows\<rparr>))"

definition SyncReactivePending :: "'f reactive_db \<Rightarrow> instant \<Rightarrow> (go_error, 'f reactive_db) result" where
  "SyncReactivePending db now =
     (if now = zeroTime then Inl (Plain ''store: zero reactive pending sync time'')
      else case insertPendings (map (\<lambda>p. newPending (pr_rep p) (pr_item p) ''supervised_review'' (pr_created p) now)
                  (filter (\<lambda>p. \<not> list_ex (\<lambda>c. rc_rep c = pr_rep p) (commits db)) (playback_proposals db))) db of
        Inl e \<Rightarrow> Inl e
      | Inr db1 \<Rightarrow>
          (case insertPendings (map (\<lambda>c. newPending (rc_rep c) (rc_item c) ''positive_mismatch'' (rc_created c) now)
                  (filter (\<lambda>c. rc_state c = ''parked'') (commits db))) db1 of
             Inl e \<Rightarrow> Inl e
           | Inr db2 \<Rightarrow>
               insertPendings (map (\<lambda>c. newPending (rc_rep c) (rc_item c) ''weak_evidence'' (rc_created c) now)
                 (filter (\<lambda>c. rc_state c = ''committed'' \<and> rc_review c) (commits db))) db2))"

definition EnqueueReactivePending :: "'f reactive_db \<Rightarrow> string \<Rightarrow> string \<Rightarrow> string \<Rightarrow> instant \<Rightarrow> (go_error, 'f reactive_db) result" where
  "EnqueueReactivePending db rid item reason now =
     (if rid = '''' \<or> item = '''' \<or> \<not> validPendingReason reason \<or> now = zeroTime then Inl (Plain ''store: invalid reactive pending entry'')
      else if list_ex (\<lambda>q. rp_rep q = rid) (pendings db)
        then Inr (db\<lparr>pendings := update_rows (\<lambda>q. rp_rep q = rid \<and> rp_state q = ''pending'') (\<lambda>q. q\<lparr>rp_reason := reason, rp_updated := now\<rparr>) (pendings db)\<rparr>)
      else if \<not> has_proposal db rid then Inl (Plain ''FOREIGN KEY constraint failed'')
      else Inr (db\<lparr>pendings := pendings db @ [newPending rid item reason now now]\<rparr>))"

definition lineChars :: string where "lineChars = [CHR 0x0D, CHR 0x0A, CHR 0x00]"

definition ListReactivePending :: "'f reactive_db \<Rightarrow> string \<Rightarrow> int \<Rightarrow> (go_error, ReactivePending list) result" where
  "ListReactivePending db after limit =
     (if limit \<le> 0 \<or> limit > MaxReactivePendingPage \<or> ContainsAny after lineChars then Inl (Plain ''store: invalid reactive pending page'')
      else Inr (take (nat limit) (sortStable (\<lambda>a b. bytes_less (rp_rep a) (rp_rep b))
             (filter (\<lambda>q. rp_state q = ''pending'' \<and> bytes_less after (rp_rep q)) (pendings db)))))"

definition GetReactivePending :: "'f reactive_db \<Rightarrow> string \<Rightarrow> ReactivePending option" where
  "GetReactivePending db rid = find (\<lambda>q. rp_rep q = rid) (pendings db)"

definition resolveRow :: "string \<Rightarrow> string \<Rightarrow> string \<Rightarrow> instant \<Rightarrow> 'f reactive_db \<Rightarrow> 'f reactive_db" where
  "resolveRow rid action arr now db =
     db\<lparr>pendings := update_rows (\<lambda>q. rp_rep q = rid \<and> rp_state q = ''pending'')
          (\<lambda>q. q\<lparr>rp_state := ''resolved'', rp_action := action, rp_arr := arr, rp_updated := now\<rparr>) (pendings db)\<rparr>"

text \<open>\<open>w 0\<close> happens between the read and the write, \<open>w 1\<close> before the second read.\<close>

definition ResolveReactivePending :: "(nat \<Rightarrow> 'f reactive_db \<Rightarrow> 'f reactive_db) \<Rightarrow> 'f reactive_db \<Rightarrow> string \<Rightarrow> string \<Rightarrow> string \<Rightarrow> instant \<Rightarrow>
  go_error option \<times> 'f reactive_db" where
  "ResolveReactivePending w db rid action arr now =
     (case GetReactivePending db rid of
        None \<Rightarrow> (Some (Plain ''store: reactive pending entry not found''), db)
      | Some entry \<Rightarrow>
          if rp_state entry = ''resolved'' then
            (if rp_action entry = action \<and> rp_arr entry = arr then None else Some (Plain ''store: reactive pending decision conflicts''), db)
          else if \<not> validPendingAction (rp_reason entry) action \<or> now = zeroTime \<or> ContainsAny arr lineChars \<or> length arr > 128
            then (Some (Plain ''store: invalid reactive pending decision''), db)
          else if action = ''assign'' \<and> TrimSpace arr = '''' then (Some (Plain ''store: assignment requires Arr target''), db)
          else
            (let db1 = w 0 db in
             if list_ex (\<lambda>q. rp_rep q = rid \<and> rp_state q = ''pending'') (pendings db1) then (None, resolveRow rid action (TrimSpace arr) now db1)
             else
               (let db2 = w 1 db1 in
                case GetReactivePending db2 rid of
                  Some q \<Rightarrow> (if rp_state q = ''resolved'' \<and> rp_action q = action \<and> rp_arr q = TrimSpace arr then None
                             else Some (Plain ''store: reactive pending decision raced''), db2)
                | None \<Rightarrow> (Some (Plain ''store: reactive pending decision raced''), db2))))"

subsection \<open>Assignments\<close>

definition validAssignmentKey :: "ReactiveAssignment \<Rightarrow> bool" where
  "validAssignmentKey a =
     (if ra_kind a \<noteq> ''series'' \<and> ra_kind a \<noteq> ''movie'' then False
      else if ra_provider a \<noteq> ''tvdb'' \<and> ra_provider a \<noteq> ''imdb'' \<and> ra_provider a \<noteq> ''tmdb'' then False
      else ra_value a \<noteq> '''' \<and> length (ra_value a) \<le> 64 \<and> \<not> ContainsAny (ra_value a) lineChars)"

definition validAssignment :: "ReactiveAssignment \<Rightarrow> bool" where
  "validAssignment a \<longleftrightarrow> validAssignmentKey a \<and> ra_arr a \<noteq> '''' \<and> length (ra_arr a) \<le> 128 \<and> \<not> ContainsAny (ra_arr a) lineChars"

definition same_identity :: "ReactiveAssignment \<Rightarrow> ReactiveAssignment \<Rightarrow> bool" where
  "same_identity a b \<longleftrightarrow> ra_kind a = ra_kind b \<and> ra_provider a = ra_provider b \<and> ra_value a = ra_value b"

definition PutReactiveAssignment :: "'f reactive_db \<Rightarrow> ReactiveAssignment \<Rightarrow> instant \<Rightarrow> (go_error, 'f reactive_db) result" where
  "PutReactiveAssignment db a0 now =
     (let a = \<lparr>ra_kind = TrimSpace (ra_kind a0), ra_provider = TrimSpace (ra_provider a0), ra_value = TrimSpace (ra_value a0), ra_arr = TrimSpace (ra_arr a0)\<rparr>
      in if \<not> validAssignment a \<or> now = zeroTime then Inl (Plain ''store: invalid reactive assignment'')
         else if list_ex (\<lambda>x. same_identity (fst x) a) (assignments db)
           then Inr (db\<lparr>assignments := update_rows (\<lambda>x. same_identity (fst x) a) (\<lambda>(b, created, _). (b\<lparr>ra_arr := ra_arr a\<rparr>, created, now)) (assignments db)\<rparr>)
         else Inr (db\<lparr>assignments := assignments db @ [(a, now, now)]\<rparr>))"

definition GetReactiveAssignment :: "'f reactive_db \<Rightarrow> string \<Rightarrow> string \<Rightarrow> string \<Rightarrow> (go_error, ReactiveAssignment option) result" where
  "GetReactiveAssignment db kind provider val =
     (let key = \<lparr>ra_kind = TrimSpace kind, ra_provider = TrimSpace provider, ra_value = TrimSpace val, ra_arr = ''''\<rparr>
      in if \<not> validAssignmentKey key then Inl (Plain ''store: invalid reactive assignment key'')
         else Inr (map_option (\<lambda>x. key\<lparr>ra_arr := ra_arr (fst x)\<rparr>) (find (\<lambda>x. same_identity (fst x) key) (assignments db))))"

subsection \<open>Promotions\<close>

definition ErrReactiveAlreadyPromoted :: go_error where
  "ErrReactiveAlreadyPromoted = Plain ''store: representation already promoted or removed''"

definition GetReactivePromotion :: "'f reactive_db \<Rightarrow> string \<Rightarrow> ReactivePromotion option" where
  "GetReactivePromotion db rid = find (\<lambda>p. pm_rep p = rid) (promotions db)"

definition stagePromotion :: "string \<Rightarrow> string \<Rightarrow> int \<Rightarrow> instant \<Rightarrow> 'f reactive_db \<Rightarrow> (go_error, 'f reactive_db) result" where
  "stagePromotion rid path sz now db =
     (if list_ex (\<lambda>p. pm_rep p = rid) (promotions db) then
        (if list_ex (\<lambda>p. pm_rep p = rid \<and> pm_state p = ''failed'') (promotions db)
           then Inr (db\<lparr>promotions := update_rows (\<lambda>p. pm_rep p = rid \<and> pm_state p = ''failed'')
                  (\<lambda>p. p\<lparr>pm_state := ''staging'', pm_path := path, pm_bytes := sz, pm_updated := now\<rparr>) (promotions db)\<rparr>)
         else Inl (Plain ''store: promotion already in progress''))
      else if \<not> list_ex (\<lambda>c. rc_rep c = rid) (commits db) then Inl (Plain ''FOREIGN KEY constraint failed'')
      else Inr (db\<lparr>promotions := promotions db @ [\<lparr>pm_rep = rid, pm_state = ''staging'', pm_path = path, pm_bytes = sz, pm_created = now, pm_updated = now\<rparr>]\<rparr>))"

definition BeginReactivePromotion :: "('f reactive_db \<Rightarrow> 'f reactive_db) \<Rightarrow> 'f reactive_db \<Rightarrow> string \<Rightarrow> string \<Rightarrow> int \<Rightarrow> instant \<Rightarrow> (go_error, 'f reactive_db) result" where
  "BeginReactivePromotion w db rid path sz now =
     (if rid = '''' \<or> path = '''' \<or> sz \<le> 0 \<or> now = zeroTime then Inl (Plain ''store: invalid reactive promotion'')
      else if (case GetReactiveCommit db rid of None \<Rightarrow> True | Some c \<Rightarrow> rc_state c \<noteq> ''committed'')
        then Inl (Plain ''store: promotion requires committed representation'')
      else if (case GetReactivePromotion db rid of None \<Rightarrow> False | Some p \<Rightarrow> pm_state p = ''promoted'' \<or> pm_state p = ''removed'')
        then Inl ErrReactiveAlreadyPromoted
      else stagePromotion rid path sz now (w db))"

definition CompleteReactivePromotion :: "'f reactive_db \<Rightarrow> string \<Rightarrow> int \<Rightarrow> instant \<Rightarrow> (go_error, 'f reactive_db) result" where
  "CompleteReactivePromotion db rid bytes now =
     (let staged = \<lambda>p. pm_rep p = rid \<and> pm_state p = ''staging'' \<and> pm_bytes p = bytes in
      if bytes \<le> 0 \<or> now = zeroTime then Inl (Plain ''store: invalid promotion completion'')
      else if \<not> list_ex staged (promotions db) then Inl (Plain ''store: promotion cannot complete'')
      else appendReactiveEvent ''promotion'' '''' '''' bytes now
             (db\<lparr>promotions := update_rows staged (\<lambda>p. p\<lparr>pm_state := ''promoted'', pm_updated := now\<rparr>) (promotions db)\<rparr>))"

definition FailReactivePromotion :: "'f reactive_db \<Rightarrow> string \<Rightarrow> instant \<Rightarrow> (go_error, 'f reactive_db) result" where
  "FailReactivePromotion db rid now =
     (if now = zeroTime then Inl (Plain ''store: invalid promotion failure'')
      else Inr (db\<lparr>promotions := update_rows (\<lambda>p. pm_rep p = rid \<and> pm_state p = ''staging'') (\<lambda>p. p\<lparr>pm_state := ''failed'', pm_updated := now\<rparr>) (promotions db)\<rparr>))"

definition RemoveReactivePromotion :: "'f reactive_db \<Rightarrow> string \<Rightarrow> instant \<Rightarrow> (go_error, 'f reactive_db) result" where
  "RemoveReactivePromotion db rid now =
     (let done = \<lambda>p. pm_rep p = rid \<and> pm_state p = ''promoted'' in
      if now = zeroTime then Inl (Plain ''store: invalid promotion removal'')
      else if \<not> list_ex done (promotions db) then Inl (Plain ''store: promotion cannot be removed'')
      else Inr (db\<lparr>promotions := update_rows done (\<lambda>p. p\<lparr>pm_state := ''removed'', pm_updated := now\<rparr>) (promotions db)\<rparr>))"

definition RecoverReactivePromotions :: "'f reactive_db \<Rightarrow> instant \<Rightarrow> (go_error, 'f reactive_db) result" where
  "RecoverReactivePromotions db now =
     (if now = zeroTime then Inl (Plain ''store: invalid promotion recovery'')
      else Inr (db\<lparr>promotions := update_rows (\<lambda>p. pm_state p = ''staging'') (\<lambda>p. p\<lparr>pm_state := ''failed'', pm_updated := now\<rparr>) (promotions db)\<rparr>))"

subsection \<open>Metrics\<close>

record ReactiveMetrics =
  CommitsByPeriod :: "(string \<times> (string \<times> nat) list) list"
  PendingByReason :: "(string \<times> nat) list"
  OldestByReason :: "(string \<times> int) list"
  Identity_counts :: "(string \<times> nat) list"
  UndoTotal :: nat
  PromotionBytes :: int
  HeadroomBytes :: int
  HeadroomKnown :: bool

definition pendingReasons :: "string list" where
  "pendingReasons = [''positive_mismatch'', ''routing_ambiguous'', ''routing_unresolved'', ''supervised_review'', ''weak_evidence'']"

text \<open>\<open>seconds\<close> is the conversion of a duration to seconds through \<open>float64\<close>.\<close>

definition oldestAge :: "(duration \<Rightarrow> int) \<Rightarrow> instant \<Rightarrow> instant list \<Rightarrow> int" where
  "oldestAge seconds now updated =
     (case sortStable stamp_less updated of
        [] \<Rightarrow> 0
      | at # _ \<Rightarrow> (if seconds (time_sub now at) < 0 then 0 else seconds (time_sub now at)))"

definition ReactiveMetrics_of :: "(duration \<Rightarrow> int) \<Rightarrow> 'f reactive_db \<Rightarrow> instant \<Rightarrow> (go_error, ReactiveMetrics) result" where
  "ReactiveMetrics_of seconds db now =
     (if now = zeroTime then Inl (Plain ''store: zero reactive metrics time'')
      else
        (let evs = map snd (events db);
             cs = filter (\<lambda>e. ev_kind e = ''commit'') evs;
             modes = remdups ([''auto'', ''supervised''] @ map ev_mode cs);
             since = \<lambda>d. map (\<lambda>m. (m, length (filter (\<lambda>e. ev_mode e = m \<and> \<not> stamp_less (ev_at e) (now - d)) cs))) modes;
             open_rows = \<lambda>reason. filter (\<lambda>q. rp_state q = ''pending'' \<and> rp_reason q = reason) (pendings db);
             promoted = sum_list (map ev_bytes (filter (\<lambda>e. ev_kind e = ''promotion'') evs))
         in if promoted > MaxInt64 then Inl (Plain ''integer overflow'') else Inr \<lparr>CommitsByPeriod = [(''24h'', since (24 * Hour)), (''7d'', since (7 * 24 * Hour)), (''30d'', since (30 * 24 * Hour))],
               PendingByReason = map (\<lambda>x. (x, length (open_rows x))) pendingReasons,
               OldestByReason = map (\<lambda>x. (x, oldestAge seconds now (map rp_updated (open_rows x)))) pendingReasons,
               Identity_counts = map (\<lambda>x. (x, length (filter (\<lambda>e. ev_outcome e = x) evs))) [''positive_mismatch'', ''strong_evidence'', ''weak_evidence''],
               UndoTotal = length (filter (\<lambda>e. ev_kind e = ''undo'') evs),
               PromotionBytes = promoted,
               HeadroomBytes = (case headroom db of None \<Rightarrow> 0 | Some h \<Rightarrow> fst h),
               HeadroomKnown = (headroom db \<noteq> None)\<rparr>))"

subsection \<open>Statements as steps\<close>

definition decisions :: "string list" where
  "decisions = [''approve'', ''acknowledge'', ''assign'', ''jellyfin_only'', ''remove'', ''undo'']"

definition commit_at :: "'f reactive_db \<Rightarrow> string \<Rightarrow> ReactiveCommit option" where
  "commit_at db rid = find (\<lambda>r. rc_rep r = rid) (commits db)"

definition filed_states :: "string list" where
  "filed_states = [''committed'', ''undoing'', ''undone'']"

definition filed :: "ReactiveCommit list \<Rightarrow> string \<Rightarrow> bool" where
  "filed cs rid \<longleftrightarrow> (\<exists>c \<in> set cs. rc_rep c = rid \<and> rc_state c \<in> set filed_states)"

text \<open>One statement or transaction of one caller. A promotion is staged by a caller that saw the commit completed, which its
  state still shows.\<close>

inductive rx_step :: "'f reactive_db \<Rightarrow> 'f reactive_db \<Rightarrow> bool" where
  propose: "insertProposal valid db p = Inr (b, db') \<Longrightarrow> rx_step db db'"
| begin_commit: "insertCommit rid item fil mode now db = (b, db') \<Longrightarrow> rid \<noteq> '''' \<Longrightarrow> item \<noteq> '''' \<Longrightarrow> fil \<noteq> '''' \<Longrightarrow> mode \<in> {''auto'', ''supervised''} \<Longrightarrow> rx_step db db'"
| park: "ParkReactiveCommit db rid reason now = Inr db' \<Longrightarrow> rx_step db db'"
| abort: "AbortReactiveCommit db rid = Inr db' \<Longrightarrow> rx_step db db'"
| complete: "CompleteReactiveCommit db r now = Inr db' \<Longrightarrow> rx_step db db'"
| start_undo: "rx_step db (startUndo rid now db)"
| complete_undo: "CompleteReactiveUndo db rid now = Inr db' \<Longrightarrow> rx_step db db'"
| sync: "SyncReactivePending db now = Inr db' \<Longrightarrow> rx_step db db'"
| enqueue: "EnqueueReactivePending db rid item reason now = Inr db' \<Longrightarrow> rx_step db db'"
| resolve: "action \<in> set decisions \<Longrightarrow> rx_step db (resolveRow rid action arr now db)"
| assign: "PutReactiveAssignment db a now = Inr db' \<Longrightarrow> rx_step db db'"
| record_promotion: "RecordReactivePromotion db bytes now = Inr db' \<Longrightarrow> rx_step db db'"
| set_headroom: "SetReactivePromotionHeadroom db bytes now = Inr db' \<Longrightarrow> rx_step db db'"
| stage: "stagePromotion rid path sz now db = Inr db' \<Longrightarrow> filed (commits db) rid \<Longrightarrow> sz > 0 \<Longrightarrow> rx_step db db'"
| complete_promotion: "CompleteReactivePromotion db rid bytes now = Inr db' \<Longrightarrow> rx_step db db'"
| fail_promotion: "FailReactivePromotion db rid now = Inr db' \<Longrightarrow> rx_step db db'"
| remove_promotion: "RemoveReactivePromotion db rid now = Inr db' \<Longrightarrow> rx_step db db'"
| recover_promotions: "RecoverReactivePromotions db now = Inr db' \<Longrightarrow> rx_step db db'"

abbreviation rx_run :: "'f reactive_db \<Rightarrow> 'f reactive_db \<Rightarrow> bool" where
  "rx_run \<equiv> rx_step\<^sup>*\<^sup>*"

subsection \<open>Lemmas on rows\<close>

lemma set_update_rows: "set (update_rows P f t) = (\<lambda>r. if P r then f r else r) ` set t"
  by (simp add: update_rows_def)

lemma map_update_rows: "(\<And>r. key (f r) = key r) \<Longrightarrow> map key (update_rows P f t) = map key t"
  by (simp add: update_rows_def)

lemma keys_update_rows: "(\<And>r. key (f r) = key r) \<Longrightarrow> key ` set (update_rows P f t) = key ` set t"
  using map_update_rows [of key f P t] by (metis list.set_map)

lemma find_update_rows:
  assumes "\<And>r. key (f r) = key r"
  shows "find (\<lambda>r. key r = k) (update_rows P f t) = map_option (\<lambda>r. if P r then f r else r) (find (\<lambda>r. key r = k) t)"
proof (induction t)
  case (Cons a t)
  have "key (if P a then f a else a) = key a" using assms by simp
  then show ?case using Cons by (simp add: update_rows_def)
qed (simp add: update_rows_def)

lemma find_filter_kept: "find P xs = Some x \<Longrightarrow> Q x \<Longrightarrow> find P (filter Q xs) = Some x"
  by (induction xs) (auto split: if_splits)

lemma find_append: "find P (xs @ ys) = (case find P xs of None \<Rightarrow> find P ys | Some x \<Rightarrow> Some x)"
  by (induction xs) auto

lemma find_unique: "distinct (map key t) \<Longrightarrow> x \<in> set t \<Longrightarrow> find (\<lambda>r. key r = key x) t = Some x"
  by (induction t) force+

lemma find_Some_in: "find P xs = Some x \<Longrightarrow> x \<in> set xs \<and> P x"
  by (induction xs) (auto split: if_splits)

lemma insert_ignore_set: "set (foldl (insert_ignore key) t xs) \<subseteq> set t \<union> set xs" "set t \<subseteq> set (foldl (insert_ignore key) t xs)"
  by (induction xs arbitrary: t) (fastforce simp: insert_ignore_def split: if_splits)+

lemma insert_ignore_keys: "key ` set (foldl (insert_ignore key) t xs) = key ` set t \<union> key ` set xs"
proof (induction xs arbitrary: t)
  case (Cons a xs)
  have "key ` set (insert_ignore key t a) = insert (key a) (key ` set t)"
    by (auto simp: insert_ignore_def list_ex_iff image_iff) metis
  then show ?case using Cons [of "insert_ignore key t a"] by auto
qed simp

lemma insert_ignore_distinct: "distinct (map key t) \<Longrightarrow> distinct (map key (foldl (insert_ignore key) t xs))"
proof (induction xs arbitrary: t)
  case (Cons a xs)
  have "distinct (map key (insert_ignore key t a))" using Cons.prems by (auto simp: insert_ignore_def list_ex_iff image_iff)
  from Cons.IH [OF this] show ?case by simp
qed simp

subsection \<open>Commits move forward\<close>

definition moved :: "string \<Rightarrow> string \<Rightarrow> bool" where
  "moved s s' \<longleftrightarrow> s = s' \<or> (s = ''committed'' \<and> (s' = ''undoing'' \<or> s' = ''undone'')) \<or> (s = ''undoing'' \<and> s' = ''undone'')"

definition onward :: "ReactiveCommit option \<Rightarrow> ReactiveCommit option \<Rightarrow> bool" where
  "onward a b = (case a of None \<Rightarrow> True
     | Some c \<Rightarrow> rc_state c = ''committing'' \<or>
         (\<exists>c'. b = Some c' \<and> moved (rc_state c) (rc_state c') \<and> c' = c\<lparr>rc_state := rc_state c', rc_updated := rc_updated c'\<rparr>))"

lemma onward_refl [simp]: "onward a a"
  by (simp add: onward_def moved_def split: option.split)

lemma onward_trans:
  assumes "onward a b" and "onward b c"
  shows "onward a c"
proof (cases "\<exists>x. a = Some x \<and> rc_state x \<noteq> ''committing''")
  case True
  then obtain x where x: "a = Some x" "rc_state x \<noteq> ''committing''" by blast
  with assms(1) obtain y where y: "b = Some y" "moved (rc_state x) (rc_state y)" "y = x\<lparr>rc_state := rc_state y, rc_updated := rc_updated y\<rparr>"
    by (auto simp: onward_def)
  have "rc_state y \<noteq> ''committing''" using x(2) y(2) by (auto simp: moved_def)
  with assms(2) y(1) obtain z where z: "c = Some z" "moved (rc_state y) (rc_state z)" "z = y\<lparr>rc_state := rc_state z, rc_updated := rc_updated z\<rparr>"
    by (auto simp: onward_def)
  have "moved (rc_state x) (rc_state z)" using y(2) z(2) by (auto simp: moved_def)
  moreover have "z = x\<lparr>rc_state := rc_state z, rc_updated := rc_updated z\<rparr>" using y(3) z(3)
    by (metis (no_types, lifting) ReactiveCommit.surjective ReactiveCommit.update_convs(4) ReactiveCommit.update_convs(14))
  ultimately show ?thesis using x z(1) by (auto simp: onward_def)
next
  case False
  then show ?thesis by (auto simp: onward_def split: option.split)
qed

lemma append_frame:
  assumes "appendReactiveEvent k m oc b at db = Inr db'"
  shows "commits db' = commits db" "commit_files db' = commit_files db" "commit_episodes db' = commit_episodes db"
    "pendings db' = pendings db" "playback_proposals db' = playback_proposals db" "promotions db' = promotions db"
    "assignments db' = assignments db"
  using assms by (auto simp: appendReactiveEvent_def Let_def split: if_splits)

lemma reopen_frame [simp]:
  "commits (reopen reason c db) = commits db" "commit_files (reopen reason c db) = commit_files db"
  "commit_episodes (reopen reason c db) = commit_episodes db" "playback_proposals (reopen reason c db) = playback_proposals db"
  "promotions (reopen reason c db) = promotions db" "events (reopen reason c db) = events db" "event_seq (reopen reason c db) = event_seq db"
  by (simp_all add: reopen_def)

lemma park_effect:
  assumes "ParkReactiveCommit db rid reason now = Inr db'"
  obtains c where "find (in_state rid ''committing'') (commits db) = Some c"
    "commits db' = update_rows (in_state rid ''committing'') (\<lambda>c. c\<lparr>rc_state := ''parked'', rc_reason := reason, rc_updated := now\<rparr>) (commits db)"
    "commit_files db' = commit_files db" "commit_episodes db' = commit_episodes db" "promotions db' = promotions db"
    "playback_proposals db' = playback_proposals db"
    "appendReactiveEvent ''park'' '''' ''positive_mismatch'' 0 now (reopen ''positive_mismatch'' (c\<lparr>rc_state := ''parked'', rc_reason := reason, rc_updated := now\<rparr>)
       (db\<lparr>commits := commits db'\<rparr>)) = Inr db'"
proof -
  let ?f = "\<lambda>c. c\<lparr>rc_state := ''parked'', rc_reason := reason, rc_updated := now\<rparr>"
  from assms obtain c where c: "find (in_state rid ''committing'') (commits db) = Some c"
    by (simp add: ParkReactiveCommit_def split: if_split_asm option.split_asm)
  have ap: "appendReactiveEvent ''park'' '''' ''positive_mismatch'' 0 now
      (reopen ''positive_mismatch'' (?f c) (db\<lparr>commits := update_rows (in_state rid ''committing'') ?f (commits db)\<rparr>)) = Inr db'"
    using assms c by (simp add: ParkReactiveCommit_def Let_def split: if_split_asm)
  from append_frame [OF ap] have fr: "commits db' = update_rows (in_state rid ''committing'') ?f (commits db)"
    "commit_files db' = commit_files db" "commit_episodes db' = commit_episodes db" "promotions db' = promotions db"
    "playback_proposals db' = playback_proposals db" by simp_all
  show ?thesis by (rule that [OF c fr]) (use ap fr(1) in simp)
qed

lemma complete_effect:
  assumes "CompleteReactiveCommit db r now = Inr db'"
  obtains c g where "find (in_state (rc_rep r) ''committing'') (commits db) = Some c"
    "g = (\<lambda>c. c\<lparr>rc_state := ''committed'', rc_review := rc_review r, rc_reason := rc_reason r, rc_arr := rc_arr r, rc_kind := rc_kind r,
                 rc_arrItem := rc_arrItem r, rc_owner := rc_owner r, rc_prior := rc_prior r, rc_updated := now\<rparr>)"
    "commits db' = update_rows (in_state (rc_rep r) ''committing'') g (commits db)"
    "commit_files db' = foldl (insert_ignore id) (commit_files db) (map (Pair (rc_rep r)) (rc_files r))"
    "commit_episodes db' = foldl (insert_ignore (\<lambda>x. (fst x, fst (snd x)))) (commit_episodes db) (map (Pair (rc_rep r)) (rc_episodes r))"
    "promotions db' = promotions db" "playback_proposals db' = playback_proposals db"
    "rc_rep r \<noteq> ''''" "rc_arr r \<noteq> ''''" "rc_kind r = ''series'' \<or> rc_kind r = ''movie''" "rc_arrItem r > 0" "rc_files r \<noteq> []"
    "\<forall>i \<in> set (rc_files r). i > 0" "\<forall>e \<in> set (rc_episodes r). fst e > 0"
    "pendings db' = pendings (if rc_review r then reopen ''weak_evidence'' (g c) db else db)"
    "\<exists>db0. appendReactiveEvent ''commit'' (rc_mode r) (if rc_review r then ''weak_evidence'' else ''strong_evidence'') 0 now db0 = Inr db' \<and>
       events db0 = events db \<and> event_seq db0 = event_seq db"
proof -
  define g :: "ReactiveCommit \<Rightarrow> ReactiveCommit" where "g = (\<lambda>c. c\<lparr>rc_state := ''committed'', rc_review := rc_review r, rc_reason := rc_reason r, rc_arr := rc_arr r, rc_kind := rc_kind r,
                 rc_arrItem := rc_arrItem r, rc_owner := rc_owner r, rc_prior := rc_prior r, rc_updated := now\<rparr>)"
  from assms obtain c where c: "find (in_state (rc_rep r) ''committing'') (commits db) = Some c"
    by (auto simp: CompleteReactiveCommit_def split: if_splits option.splits)
  let ?db1 = "db\<lparr>commits := update_rows (in_state (rc_rep r) ''committing'') g (commits db)\<rparr>"
  let ?db2 = "if rc_review r then reopen ''weak_evidence'' (g c) ?db1 else ?db1"
  let ?db3 = "?db2\<lparr>commit_files := foldl (insert_ignore id) (commit_files db) (map (Pair (rc_rep r)) (rc_files r)),
     commit_episodes := foldl (insert_ignore (\<lambda>x. (fst x, fst (snd x)))) (commit_episodes db) (map (Pair (rc_rep r)) (rc_episodes r))\<rparr>"
  have ap: "appendReactiveEvent ''commit'' (rc_mode r) (if rc_review r then ''weak_evidence'' else ''strong_evidence'') 0 now ?db3 = Inr db'"
    and ok: "rc_rep r \<noteq> ''''" "rc_arr r \<noteq> ''''" "rc_kind r = ''series'' \<or> rc_kind r = ''movie''" "rc_arrItem r > 0" "rc_files r \<noteq> []"
      "\<forall>i \<in> set (rc_files r). i > 0" "\<forall>e \<in> set (rc_episodes r). fst e > 0"
    using assms c by (simp_all add: CompleteReactiveCommit_def Let_def g_def [symmetric] list_ex_iff not_le split: if_split_asm)
  have re: "pendings (reopen ''weak_evidence'' (g c) ?db1) = pendings (reopen ''weak_evidence'' (g c) db)"
    by (simp add: reopen_def has_proposal_def)
  note fr = append_frame [OF ap]
  show ?thesis
  proof (rule that [of c g])
    show "pendings db' = pendings (if rc_review r then reopen ''weak_evidence'' (g c) db else db)" using fr(4) re by simp
    show "\<exists>db0. appendReactiveEvent ''commit'' (rc_mode r) (if rc_review r then ''weak_evidence'' else ''strong_evidence'') 0 now db0 = Inr db' \<and>
       events db0 = events db \<and> event_seq db0 = event_seq db" using ap by (intro exI [of _ ?db3]) simp
  qed (use c fr ok in \<open>simp_all add: g_def\<close>)
qed

lemma undo_effect:
  assumes "CompleteReactiveUndo db rid now = Inr db'"
  shows "commits db' = update_rows (in_state rid ''undoing'') (\<lambda>c. c\<lparr>rc_state := ''undone'', rc_updated := now\<rparr>) (commits db)"
    "commit_files db' = commit_files db" "commit_episodes db' = commit_episodes db" "promotions db' = promotions db"
    "playback_proposals db' = playback_proposals db" "pendings db' = pendings db"
  using assms by (auto simp: CompleteReactiveUndo_def append_frame split: if_splits)

lemma sync_frame:
  assumes "SyncReactivePending db now = Inr db'"
  shows "commits db' = commits db" "commit_files db' = commit_files db" "commit_episodes db' = commit_episodes db"
    "promotions db' = promotions db" "playback_proposals db' = playback_proposals db" "events db' = events db" "event_seq db' = event_seq db"
  using assms by (auto simp: SyncReactivePending_def insertPendings_def split: if_splits sum.splits)

lemma onward_update:
  assumes "\<And>c. rc_rep (f c) = rc_rep c"
    and "\<And>c. P c \<Longrightarrow> rc_state c \<noteq> ''committing'' \<Longrightarrow> moved (rc_state c) (rc_state (f c)) \<and> f c = c\<lparr>rc_state := rc_state (f c), rc_updated := rc_updated (f c)\<rparr>"
    and "commits db' = update_rows P f (commits db)"
  shows "onward (commit_at db rid) (commit_at db' rid)"
proof (cases "commit_at db rid")
  case (Some c)
  have "commit_at db' rid = Some (if P c then f c else c)"
    using Some unfolding commit_at_def assms(3) by (simp add: find_update_rows [of rc_rep, OF assms(1)])
  then show ?thesis using Some assms(2) [of c] by (auto simp: onward_def moved_def)
qed (simp add: onward_def)

text \<open>The steps that leave the commits alone.\<close>

definition same_commits :: "'f reactive_db \<Rightarrow> 'f reactive_db \<Rightarrow> bool" where
  "same_commits db db' \<longleftrightarrow> commits db' = commits db \<and> commit_files db' = commit_files db \<and> commit_episodes db' = commit_episodes db"

definition same_queue :: "'f reactive_db \<Rightarrow> 'f reactive_db \<Rightarrow> bool" where
  "same_queue db db' \<longleftrightarrow> pendings db' = pendings db \<and> playback_proposals db' = playback_proposals db"

definition same_events :: "'f reactive_db \<Rightarrow> 'f reactive_db \<Rightarrow> bool" where
  "same_events db db' \<longleftrightarrow> events db' = events db \<and> event_seq db' = event_seq db"

lemmas same_defs = same_commits_def same_queue_def same_events_def

lemma insertProposal_frame:
  assumes "insertProposal valid db p = Inr (b, db')"
  shows "same_commits db db'" "promotions db' = promotions db" "same_events db db'"
  using assms by (auto simp: insertProposal_def same_defs split: if_split_asm sum.split_asm prod.split_asm bool.split_asm)

lemma insertCommit_frame:
  assumes "insertCommit rid item fil mode now db = (b, db')"
  shows "promotions db' = promotions db" "same_queue db db'" "same_events db db'"
  using assms by (auto simp: insertCommit_def same_defs split: if_split_asm)

lemma abort_frame:
  assumes "AbortReactiveCommit db rid = Inr db'"
  shows "same_queue db db'" "same_events db db'"
  using assms by (auto simp: AbortReactiveCommit_def same_defs split: if_split_asm)

lemma startUndo_frame:
  "promotions (startUndo rid now db) = promotions db" "same_queue db (startUndo rid now db)" "same_events db (startUndo rid now db)"
  by (simp_all add: startUndo_def same_defs)

lemma enqueue_frame:
  assumes "EnqueueReactivePending db rid item reason now = Inr db'"
  shows "same_commits db db'" "promotions db' = promotions db" "same_events db db'" "playback_proposals db' = playback_proposals db"
  using assms by (auto simp: EnqueueReactivePending_def same_defs split: if_split_asm)

lemma resolveRow_frame:
  "same_commits db (resolveRow rid action arr now db)" "promotions (resolveRow rid action arr now db) = promotions db"
  "same_events db (resolveRow rid action arr now db)"
  by (simp_all add: resolveRow_def same_defs)

lemma assign_frame:
  assumes "PutReactiveAssignment db a now = Inr db'"
  shows "same_commits db db'" "promotions db' = promotions db" "same_queue db db'" "same_events db db'"
  using assms by (auto simp: PutReactiveAssignment_def same_defs Let_def split: if_split_asm)

lemma record_frame:
  assumes "RecordReactivePromotion db bytes now = Inr db'"
  shows "same_commits db db'" "promotions db' = promotions db" "same_queue db db'"
  using assms by (auto simp: RecordReactivePromotion_def same_defs append_frame split: if_split_asm)

lemma headroom_frame:
  assumes "SetReactivePromotionHeadroom db bytes now = Inr db'"
  shows "same_commits db db'" "promotions db' = promotions db" "same_queue db db'" "same_events db db'"
  using assms by (auto simp: SetReactivePromotionHeadroom_def same_defs split: if_split_asm)

lemma promotion_frames:
  "stagePromotion rid path sz now db = Inr db' \<Longrightarrow> same_commits db db' \<and> same_queue db db' \<and> same_events db db'"
  "CompleteReactivePromotion db rid bytes now = Inr db' \<Longrightarrow> same_commits db db' \<and> same_queue db db'"
  "FailReactivePromotion db rid now = Inr db' \<Longrightarrow> same_commits db db' \<and> same_queue db db' \<and> same_events db db'"
  "RemoveReactivePromotion db rid now = Inr db' \<Longrightarrow> same_commits db db' \<and> same_queue db db' \<and> same_events db db'"
  "RecoverReactivePromotions db now = Inr db' \<Longrightarrow> same_commits db db' \<and> same_queue db db' \<and> same_events db db'"
  by (auto simp: stagePromotion_def CompleteReactivePromotion_def FailReactivePromotion_def RemoveReactivePromotion_def
      RecoverReactivePromotions_def append_frame same_defs Let_def split: if_split_asm)

lemma step_same_commits:
  assumes "rx_step db db'"
  obtains "same_commits db db'"
  | rid item fil mode now b where "insertCommit rid item fil mode now db = (b, db')" "rid \<noteq> ''''" "item \<noteq> ''''" "fil \<noteq> ''''" "mode \<in> {''auto'', ''supervised''}"
  | rid reason now where "ParkReactiveCommit db rid reason now = Inr db'"
  | rid where "AbortReactiveCommit db rid = Inr db'"
  | r now where "CompleteReactiveCommit db r now = Inr db'"
  | rid now where "db' = startUndo rid now db"
  | rid now where "CompleteReactiveUndo db rid now = Inr db'"
  using assms
proof cases
  case sync
  then have "same_commits db db'" by (simp add: same_commits_def sync_frame)
  then show ?thesis by (rule that)
qed (use that in \<open>auto dest: insertProposal_frame(1) enqueue_frame(1) assign_frame(1) record_frame(1) headroom_frame(1) promotion_frames
      simp: resolveRow_frame\<close>)

lemma step_onward:
  assumes "rx_step db db'"
  shows "onward (commit_at db rid) (commit_at db' rid)"
  using assms
proof (cases rule: step_same_commits)
  case 1
  then show ?thesis by (simp add: commit_at_def same_commits_def)
next
  case (2 rid' item fil mode now b)
  then show ?thesis
    by (cases "commit_at db rid") (auto simp: insertCommit_def commit_at_def find_append onward_def moved_def split: if_splits)
next
  case (3 rid' reason now)
  then obtain c where "commits db' = update_rows (in_state rid' ''committing'') (\<lambda>c. c\<lparr>rc_state := ''parked'', rc_reason := reason, rc_updated := now\<rparr>) (commits db)"
    by (rule park_effect)
  then show ?thesis by (intro onward_update) (auto simp: in_state_def)
next
  case (4 rid')
  show ?thesis
  proof (cases "commit_at db rid")
    case (Some c)
    then show ?thesis using 4 find_filter_kept [of "\<lambda>r. rc_rep r = rid" "commits db" c "\<lambda>r. \<not> in_state rid' ''committing'' r"]
      by (auto simp: AbortReactiveCommit_def commit_at_def onward_def in_state_def moved_def split: if_splits)
  qed (simp add: onward_def)
next
  case (5 r now)
  then obtain c g where "commits db' = update_rows (in_state (rc_rep r) ''committing'') g (commits db)"
    and g: "g = (\<lambda>c. c\<lparr>rc_state := ''committed'', rc_review := rc_review r, rc_reason := rc_reason r, rc_arr := rc_arr r, rc_kind := rc_kind r,
                 rc_arrItem := rc_arrItem r, rc_owner := rc_owner r, rc_prior := rc_prior r, rc_updated := now\<rparr>)" by (rule complete_effect)
  then show ?thesis by (intro onward_update) (auto simp: in_state_def g)
next
  case (6 rid' now)
  then have "commits db' = update_rows (in_state rid' ''committed'') (\<lambda>c. c\<lparr>rc_state := ''undoing'', rc_updated := now\<rparr>) (commits db)"
    by (simp add: startUndo_def)
  then show ?thesis by (intro onward_update) (auto simp: in_state_def moved_def)
next
  case (7 rid' now)
  from undo_effect(1) [OF this] show ?thesis by (intro onward_update) (auto simp: in_state_def moved_def)
qed

lemma run_onward: "rx_run db db' \<Longrightarrow> onward (commit_at db rid) (commit_at db' rid)"
  by (induction rule: rtranclp_induct) (auto intro: onward_trans step_onward)

subsection \<open>The invariant of the tables\<close>

definition commit_ok :: "(string \<times> int) list \<Rightarrow> ReactiveCommit \<Rightarrow> bool" where
  "commit_ok fs c \<longleftrightarrow> rc_rep c \<noteq> '''' \<and> rc_item c \<noteq> '''' \<and> rc_file c \<noteq> '''' \<and> rc_mode c \<in> {''auto'', ''supervised''} \<and>
     (rc_state c = ''committing'' \<or> rc_state c = ''parked'' \<or>
      rc_state c \<in> set filed_states \<and> rc_arr c \<noteq> '''' \<and> rc_kind c \<in> {''series'', ''movie''} \<and> rc_arrItem c > 0 \<and> (\<exists>i. (rc_rep c, i) \<in> set fs))"

definition promotion_ok :: "ReactivePromotion \<Rightarrow> bool" where
  "promotion_ok p \<longleftrightarrow> pm_state p \<in> {''staging'', ''promoted'', ''failed'', ''removed''} \<and> pm_bytes p > 0"

definition commits_ok :: "ReactiveCommit list \<Rightarrow> (string \<times> int) list \<Rightarrow> (string \<times> int \<times> bool) list \<Rightarrow> bool" where
  "commits_ok cs fs es \<longleftrightarrow> distinct (map rc_rep cs) \<and> (\<forall>c \<in> set cs. commit_ok fs c) \<and>
     distinct fs \<and> (\<forall>x \<in> set fs. filed cs (fst x) \<and> snd x > 0) \<and>
     distinct (map (\<lambda>x. (fst x, fst (snd x))) es) \<and> (\<forall>x \<in> set es. filed cs (fst x) \<and> fst (snd x) > 0)"

definition promotions_ok :: "ReactiveCommit list \<Rightarrow> ReactivePromotion list \<Rightarrow> bool" where
  "promotions_ok cs ps \<longleftrightarrow> distinct (map pm_rep ps) \<and> (\<forall>p \<in> set ps. filed cs (pm_rep p) \<and> promotion_ok p)"

definition pending_ok :: "ReactivePending \<Rightarrow> bool" where
  "pending_ok q \<longleftrightarrow> validPendingReason (rp_reason q) \<and>
     (rp_state q = ''pending'' \<and> rp_action q = '''' \<or> rp_state q = ''resolved'' \<and> rp_action q \<in> set decisions)"

definition queue_ok :: "ReactivePending list \<Rightarrow> 'f Proposal list \<Rightarrow> bool" where
  "queue_ok qs ps \<longleftrightarrow> distinct (map rp_rep qs) \<and> distinct (map pr_rep ps) \<and> rp_rep ` set qs = pr_rep ` set ps \<and> (\<forall>q \<in> set qs. pending_ok q)"

definition events_ok :: "reactive_event table \<Rightarrow> nat \<Rightarrow> bool" where
  "events_ok evs n \<longleftrightarrow> length evs \<le> maxReactiveEvents \<and> distinct (map fst evs) \<and> (\<forall>x \<in> set evs. fst x \<le> n \<and> ev_bytes (snd x) \<ge> 0)"

definition rx_inv :: "'f reactive_db \<Rightarrow> bool" where
  "rx_inv db \<longleftrightarrow> commits_ok (commits db) (commit_files db) (commit_episodes db) \<and> promotions_ok (commits db) (promotions db) \<and>
     queue_ok (pendings db) (playback_proposals db) \<and> events_ok (events db) (event_seq db)"

lemma filed_update:
  assumes "\<And>c. rc_rep (f c) = rc_rep c" and "\<And>c. P c \<Longrightarrow> rc_state c \<in> set filed_states \<Longrightarrow> rc_state (f c) \<in> set filed_states"
    and "filed cs rid"
  shows "filed (update_rows P f cs) rid"
proof -
  from assms(3) obtain c where c: "c \<in> set cs" "rc_rep c = rid" "rc_state c \<in> set filed_states" by (auto simp: filed_def)
  let ?c = "if P c then f c else c"
  have "?c \<in> set (update_rows P f cs)" using c(1) by (auto simp: set_update_rows)
  moreover have "rc_rep ?c = rid" "rc_state ?c \<in> set filed_states" using assms(1,2) c by auto
  ultimately show ?thesis unfolding filed_def by blast
qed

lemma commits_ok_update:
  assumes "commits_ok cs fs es"
    and rep: "\<And>c. rc_rep (f c) = rc_rep c"
    and st: "\<And>c. P c \<Longrightarrow> rc_state c \<in> set filed_states \<Longrightarrow> rc_state (f c) \<in> set filed_states"
    and ok: "\<And>c. P c \<Longrightarrow> commit_ok fs c \<Longrightarrow> commit_ok fs' (f c)"
    and more: "set fs \<subseteq> set fs'" "distinct fs'" "\<forall>x \<in> set fs'. x \<in> set fs \<or> (snd x > 0 \<and> filed (update_rows P f cs) (fst x))"
    and eps: "distinct (map (\<lambda>x. (fst x, fst (snd x))) es')"
      "\<forall>x \<in> set es'. x \<in> set es \<or> (fst (snd x) > 0 \<and> filed (update_rows P f cs) (fst x))"
  shows "commits_ok (update_rows P f cs) fs' es'"
proof -
  have mono: "commit_ok fs' c" if "commit_ok fs c" for c using that more(1) by (auto simp: commit_ok_def)
  have "filed (update_rows P f cs) rid" if "filed cs rid" for rid using filed_update [OF rep st that] by blast
  then have f: "\<forall>x \<in> set fs'. filed (update_rows P f cs) (fst x) \<and> snd x > 0"
    "\<forall>x \<in> set es'. filed (update_rows P f cs) (fst x) \<and> fst (snd x) > 0"
    using assms(1) more(3) eps(2) unfolding commits_ok_def by blast+
  have "\<forall>c \<in> set (update_rows P f cs). commit_ok fs' c"
  proof
    fix x assume "x \<in> set (update_rows P f cs)"
    then obtain c where c: "c \<in> set cs" "x = (if P c then f c else c)" by (auto simp: set_update_rows)
    then have "commit_ok fs c" using assms(1) by (simp add: commits_ok_def)
    then show "commit_ok fs' x" using c(2) mono ok by simp
  qed
  then show ?thesis using assms(1) more(2) eps(1) f unfolding commits_ok_def map_update_rows [of rc_rep, OF rep] by blast
qed

lemma promotions_ok_update:
  assumes "promotions_ok cs ps" and "\<And>c. rc_rep (f c) = rc_rep c"
    and "\<And>c. P c \<Longrightarrow> rc_state c \<in> set filed_states \<Longrightarrow> rc_state (f c) \<in> set filed_states"
  shows "promotions_ok (update_rows P f cs) ps"
  using assms filed_update [OF assms(2,3)] by (auto simp: promotions_ok_def)

lemma append_events:
  assumes "appendReactiveEvent k m oc b at db = Inr db'" and "events_ok (events db) (event_seq db)"
  shows "events_ok (events db') (event_seq db')"
proof -
  let ?n = "Suc (event_seq db)"
  let ?t = "events db @ [(?n, \<lparr>ev_kind = k, ev_mode = m, ev_outcome = oc, ev_bytes = b, ev_at = at\<rparr>)]"
  let ?k = "keep_newest ev_at (\<lambda>_. True) (int maxReactiveEvents) ?t"
  have e: "event_seq db' = ?n" "\<exists>P. events db' = filter P ?k" and b: "b \<ge> 0"
    using assms(1) by (auto simp: appendReactiveEvent_def Let_def split: if_split_asm)
  have d: "distinct (map fst ?t)" using assms(2) by (auto simp: events_ok_def)
  have r: "\<forall>x \<in> set ?t. fst x \<le> ?n \<and> ev_bytes (snd x) \<ge> 0" using assms(2) b by (auto simp: events_ok_def)
  have "length ?k \<le> maxReactiveEvents" using keep_newest_bound [OF d, of "int maxReactiveEvents" "\<lambda>_. True" ev_at] by simp
  moreover obtain P where P: "events db' = filter P ?k" using e(2) by blast
  ultimately have "length (events db') \<le> maxReactiveEvents" using le_trans [OF length_filter_le [of P ?k]] by simp
  moreover have "distinct (map fst (events db'))" using P distinct_keep_newest [OF d] by (simp add: distinct_map_filter)
  moreover have "set (events db') \<subseteq> set ?t" using P set_keep_newest by fastforce
  then have "\<forall>x \<in> set (events db'). fst x \<le> event_seq db' \<and> ev_bytes (snd x) \<ge> 0" using r unfolding e(1) by blast
  ultimately show ?thesis unfolding events_ok_def by blast
qed

lemma queue_proposal:
  "queue_ok (pendings db) (playback_proposals db) \<Longrightarrow> has_proposal db rid \<longleftrightarrow> list_ex (\<lambda>p. rp_rep p = rid) (pendings db)"
proof -
  assume "queue_ok (pendings db) (playback_proposals db)"
  then have "rid \<in> rp_rep ` set (pendings db) \<longleftrightarrow> rid \<in> pr_rep ` set (playback_proposals db)" by (simp add: queue_ok_def)
  then show ?thesis by (auto simp: has_proposal_def list_ex_iff image_iff)
qed

lemma queue_update:
  assumes "queue_ok qs ps" and "\<And>q. rp_rep (f q) = rp_rep q" and "\<And>q. P q \<Longrightarrow> pending_ok q \<Longrightarrow> pending_ok (f q)"
  shows "queue_ok (update_rows P f qs) ps"
proof -
  have "\<forall>q \<in> set (update_rows P f qs). pending_ok q" using assms(1,3) by (auto simp: set_update_rows queue_ok_def)
  then show ?thesis using assms(1) keys_update_rows [of rp_rep f P qs, OF assms(2)] map_update_rows [of rp_rep f P qs, OF assms(2)]
    by (simp add: queue_ok_def)
qed

lemma reopen_queue:
  assumes "queue_ok (pendings db) (playback_proposals db)" and "validPendingReason reason"
  shows "queue_ok (pendings (reopen reason c db)) (playback_proposals db)"
  using assms queue_proposal [OF assms(1), of "rc_rep c"]
  by (auto simp: reopen_def pending_ok_def intro!: queue_update)

lemma unique_rows: "distinct (map key t) \<Longrightarrow> x \<in> set t \<Longrightarrow> y \<in> set t \<Longrightarrow> key x = key y \<Longrightarrow> x = y"
  by (simp add: distinct_map inj_on_def)

lemma committing_not_filed:
  assumes "distinct (map rc_rep cs)" and "find (in_state rid ''committing'') cs = Some c"
  shows "\<not> filed cs rid"
proof
  assume "filed cs rid"
  then obtain d where d: "d \<in> set cs" "rc_rep d = rid" "rc_state d \<in> set filed_states" by (auto simp: filed_def)
  have c: "c \<in> set cs" "rc_rep c = rid" "rc_state c = ''committing''" using find_Some_in [OF assms(2)] by (auto simp: in_state_def)
  have "c = d" using unique_rows [of rc_rep cs c d] assms(1) c d by simp
  then show False using c(3) d(3) by (simp add: filed_states_def)
qed

lemma commits_ok_insert:
  assumes "insertCommit rid item fil mode now db = (b, db')" "rid \<noteq> ''''" "item \<noteq> ''''" "fil \<noteq> ''''" "mode \<in> {''auto'', ''supervised''}"
    and "commits_ok (commits db) (commit_files db) (commit_episodes db)"
  shows "commits_ok (commits db') (commit_files db') (commit_episodes db') \<and> (\<forall>x. filed (commits db) x \<longrightarrow> filed (commits db') x)"
proof (cases "list_ex (\<lambda>r. rc_rep r = rid) (commits db)")
  case False
  let ?c = "emptyCommit\<lparr>rc_rep := rid, rc_item := item, rc_file := fil, rc_state := ''committing'', rc_mode := mode, rc_created := now, rc_updated := now\<rparr>"
  have db': "commits db' = commits db @ [?c]" "commit_files db' = commit_files db" "commit_episodes db' = commit_episodes db"
    using assms(1) False by (auto simp: insertCommit_def)
  have f: "filed (commits db') x" if "filed (commits db) x" for x using that by (auto simp: filed_def db'(1))
  have "commit_ok (commit_files db) ?c" using assms(2-5) by (simp add: commit_ok_def)
  moreover have "rid \<notin> rc_rep ` set (commits db)" using False by (auto simp: list_ex_iff)
  ultimately show ?thesis using assms(6) f by (auto simp: commits_ok_def db')
qed (use assms in \<open>simp add: insertCommit_def\<close>)

lemma commits_ok_abort:
  assumes "AbortReactiveCommit db rid = Inr db'" and "commits_ok (commits db) (commit_files db) (commit_episodes db)"
  shows "commits_ok (commits db') (commit_files db') (commit_episodes db') \<and> (\<forall>x. x \<noteq> rid \<and> filed (commits db) x \<longrightarrow> filed (commits db') x) \<and>
    (db' \<noteq> db \<longrightarrow> promotions db' = filter (\<lambda>p. pm_rep p \<noteq> rid) (promotions db))"
proof (cases "list_ex (in_state rid ''committing'') (commits db)")
  case True
  have db': "commits db' = filter (\<lambda>r. \<not> in_state rid ''committing'' r) (commits db)"
      "commit_files db' = filter (\<lambda>x. fst x \<noteq> rid) (commit_files db)" "commit_episodes db' = filter (\<lambda>x. fst x \<noteq> rid) (commit_episodes db)"
      "promotions db' = filter (\<lambda>p. pm_rep p \<noteq> rid) (promotions db)"
    using assms(1) True by (auto simp: AbortReactiveCommit_def split: if_split_asm)
  obtain d where d: "d \<in> set (commits db)" "in_state rid ''committing'' d" using True by (auto simp: list_ex_iff)
  have f: "filed (commits db') x" if "filed (commits db) x" for x
    using that by (auto simp: filed_def db'(1) in_state_def filed_states_def)
  have c: "commit_ok (commit_files db') c" if h: "c \<in> set (commits db')" for c
  proof -
    have in_db: "c \<in> set (commits db)" "\<not> in_state rid ''committing'' c" using h by (auto simp: db'(1))
    then have "rc_rep c \<noteq> rid" using unique_rows [of rc_rep "commits db" c d] assms(2) d by (auto simp: commits_ok_def in_state_def)
    moreover have "commit_ok (commit_files db) c" using in_db(1) assms(2) by (simp add: commits_ok_def)
    ultimately show ?thesis by (auto simp: commit_ok_def db'(2))
  qed
  have "commits_ok (commits db') (commit_files db') (commit_episodes db')"
    using assms(2) f c unfolding commits_ok_def by (auto simp: db' distinct_map_filter)
  then show ?thesis using f db'(4) by blast
qed (use assms in \<open>auto simp: AbortReactiveCommit_def split: if_split_asm\<close>)

lemma commits_ok_complete:
  assumes "CompleteReactiveCommit db r now = Inr db'" and ok: "commits_ok (commits db) (commit_files db) (commit_episodes db)"
  shows "commits_ok (commits db') (commit_files db') (commit_episodes db')"
proof (rule complete_effect [OF assms(1)])
  fix c g
  let ?P = "in_state (rc_rep r) ''committing''"
  assume c: "find ?P (commits db) = Some c"
    and g: "g = (\<lambda>c. c\<lparr>rc_state := ''committed'', rc_review := rc_review r, rc_reason := rc_reason r, rc_arr := rc_arr r, rc_kind := rc_kind r,
                 rc_arrItem := rc_arrItem r, rc_owner := rc_owner r, rc_prior := rc_prior r, rc_updated := now\<rparr>)"
    and cs: "commits db' = update_rows ?P g (commits db)"
    and fs: "commit_files db' = foldl (insert_ignore id) (commit_files db) (map (Pair (rc_rep r)) (rc_files r))"
    and es: "commit_episodes db' = foldl (insert_ignore (\<lambda>x. (fst x, fst (snd x)))) (commit_episodes db) (map (Pair (rc_rep r)) (rc_episodes r))"
    and r: "rc_arr r \<noteq> ''''" "rc_kind r = ''series'' \<or> rc_kind r = ''movie''" "rc_arrItem r > 0" "rc_files r \<noteq> []"
      "\<forall>i \<in> set (rc_files r). i > 0" "\<forall>e \<in> set (rc_episodes r). fst e > 0"
  have "g c \<in> set (update_rows ?P g (commits db))" using find_Some_in [OF c] by (force simp: set_update_rows)
  moreover have "rc_rep (g c) = rc_rep r" "rc_state (g c) \<in> set filed_states" using find_Some_in [OF c] by (simp_all add: g in_state_def filed_states_def)
  ultimately have fl: "filed (update_rows ?P g (commits db)) (rc_rep r)" unfolding filed_def by blast
  have "(rc_rep r, hd (rc_files r)) \<in> id ` set (commit_files db')" unfolding fs insert_ignore_keys using r(4) by auto
  then have some: "\<exists>i. (rc_rep r, i) \<in> set (commit_files db')" by auto
  show ?thesis unfolding cs
  proof (rule commits_ok_update [OF ok])
    show "commit_ok (commit_files db') (g c)" if "?P c" "commit_ok (commit_files db) c" for c
      using that some r(1-3) by (auto simp: commit_ok_def g in_state_def filed_states_def)
    show "set (commit_files db) \<subseteq> set (commit_files db')" unfolding fs by (rule insert_ignore_set(2))
    show "distinct (commit_files db')" using ok insert_ignore_distinct [of id "commit_files db"] unfolding fs commits_ok_def by simp
    show "\<forall>x \<in> set (commit_files db'). x \<in> set (commit_files db) \<or> snd x > 0 \<and> filed (update_rows ?P g (commits db)) (fst x)"
      using insert_ignore_set(1) [of id "commit_files db" "map (Pair (rc_rep r)) (rc_files r)"] fl r(5) unfolding fs by auto
    show "distinct (map (\<lambda>x. (fst x, fst (snd x))) (commit_episodes db'))"
      using ok insert_ignore_distinct [of "\<lambda>x. (fst x, fst (snd x))" "commit_episodes db"] unfolding es commits_ok_def by blast
    show "\<forall>x \<in> set (commit_episodes db'). x \<in> set (commit_episodes db) \<or> fst (snd x) > 0 \<and> filed (update_rows ?P g (commits db)) (fst x)"
      using insert_ignore_set(1) [of "\<lambda>x. (fst x, fst (snd x))" "commit_episodes db" "map (Pair (rc_rep r)) (rc_episodes r)"] fl r(6) unfolding es by fastforce
  qed (simp_all add: g in_state_def filed_states_def)
qed

lemma step_commits:
  assumes "rx_step db db'" and ok: "commits_ok (commits db) (commit_files db) (commit_episodes db)"
  shows "commits_ok (commits db') (commit_files db') (commit_episodes db')"
  using assms(1)
proof (cases rule: step_same_commits)
  case 1
  then show ?thesis using ok by (simp add: same_commits_def)
next
  case 2
  then show ?thesis using commits_ok_insert ok by blast
next
  case (3 rid reason now)
  from park_effect [OF this] obtain c where e:
    "commits db' = update_rows (in_state rid ''committing'') (\<lambda>c. c\<lparr>rc_state := ''parked'', rc_reason := reason, rc_updated := now\<rparr>) (commits db)"
    "commit_files db' = commit_files db" "commit_episodes db' = commit_episodes db" by blast
  show ?thesis unfolding e by (rule commits_ok_update [OF ok]) (use ok in \<open>auto simp: commits_ok_def in_state_def filed_states_def commit_ok_def\<close>)
next
  case 4
  then show ?thesis using commits_ok_abort ok by blast
next
  case 5
  then show ?thesis using commits_ok_complete ok by blast
next
  case (6 rid now)
  then have e: "commits db' = update_rows (in_state rid ''committed'') (\<lambda>c. c\<lparr>rc_state := ''undoing'', rc_updated := now\<rparr>) (commits db)"
    "commit_files db' = commit_files db" "commit_episodes db' = commit_episodes db" by (simp_all add: startUndo_def)
  show ?thesis unfolding e by (rule commits_ok_update [OF ok]) (use ok in \<open>auto simp: commits_ok_def in_state_def filed_states_def commit_ok_def\<close>)
next
  case (7 rid now)
  note e = undo_effect(1-3) [OF 7]
  show ?thesis unfolding e by (rule commits_ok_update [OF ok]) (use ok in \<open>auto simp: commits_ok_def in_state_def filed_states_def commit_ok_def\<close>)
qed

lemma promotions_same: "promotions_ok (commits db) (promotions db) \<Longrightarrow> same_commits db db' \<Longrightarrow> promotions db' = promotions db \<Longrightarrow>
    promotions_ok (commits db') (promotions db')"
  by (simp add: same_commits_def)

lemma promotions_rows:
  assumes "promotions_ok cs ps" and "\<And>p. pm_rep (f p) = pm_rep p" and "\<And>p. P p \<Longrightarrow> promotion_ok p \<Longrightarrow> promotion_ok (f p)"
  shows "promotions_ok cs (update_rows P f ps)"
  using assms unfolding promotions_ok_def map_update_rows [of pm_rep, OF assms(2)] by (auto simp: set_update_rows)

lemma stage_promotions:
  assumes "stagePromotion rid path sz now db = Inr db'" "filed (commits db) rid" "sz > 0" "promotions_ok (commits db) (promotions db)"
  shows "promotions_ok (commits db) (promotions db')"
proof (cases "list_ex (\<lambda>p. pm_rep p = rid) (promotions db)")
  case True
  then have "promotions db' = update_rows (\<lambda>p. pm_rep p = rid \<and> pm_state p = ''failed'')
      (\<lambda>p. p\<lparr>pm_state := ''staging'', pm_path := path, pm_bytes := sz, pm_updated := now\<rparr>) (promotions db)"
    using assms(1) by (auto simp: stagePromotion_def split: if_split_asm)
  then show ?thesis using assms(3,4) by (auto simp: promotion_ok_def intro!: promotions_rows)
next
  case False
  then have "promotions db' = promotions db @ [\<lparr>pm_rep = rid, pm_state = ''staging'', pm_path = path, pm_bytes = sz, pm_created = now, pm_updated = now\<rparr>]"
    using assms(1) by (auto simp: stagePromotion_def split: if_split_asm)
  moreover have "rid \<notin> pm_rep ` set (promotions db)" using False by (auto simp: list_ex_iff)
  ultimately show ?thesis using assms(2-4) by (auto simp: promotions_ok_def promotion_ok_def)
qed

lemma advance_promotions:
  assumes "promotions_ok cs (promotions db)"
  shows "CompleteReactivePromotion db rid bytes now = Inr db' \<Longrightarrow> promotions_ok cs (promotions db')"
    "FailReactivePromotion db rid now = Inr db' \<Longrightarrow> promotions_ok cs (promotions db')"
    "RemoveReactivePromotion db rid now = Inr db' \<Longrightarrow> promotions_ok cs (promotions db')"
    "RecoverReactivePromotions db now = Inr db' \<Longrightarrow> promotions_ok cs (promotions db')"
  using assms by (auto simp: CompleteReactivePromotion_def FailReactivePromotion_def RemoveReactivePromotion_def RecoverReactivePromotions_def
      Let_def append_frame promotion_ok_def split: if_split_asm intro!: promotions_rows)

lemma step_promotions:
  assumes "rx_step db db'" and c: "commits_ok (commits db) (commit_files db) (commit_episodes db)" and ok: "promotions_ok (commits db) (promotions db)"
  shows "promotions_ok (commits db') (promotions db')"
  using assms(1)
proof cases
  case (begin_commit rid item fil mode now b)
  from commits_ok_insert [OF begin_commit c] insertCommit_frame(1) [OF begin_commit(1)] ok show ?thesis by (auto simp: promotions_ok_def)
next
  case (park rid reason now)
  from park_effect [OF park] obtain c where e:
    "commits db' = update_rows (in_state rid ''committing'') (\<lambda>c. c\<lparr>rc_state := ''parked'', rc_reason := reason, rc_updated := now\<rparr>) (commits db)"
    "promotions db' = promotions db" by blast
  show ?thesis unfolding e by (rule promotions_ok_update [OF ok]) (auto simp: in_state_def filed_states_def)
next
  case (abort rid)
  show ?thesis
  proof (cases "db' = db")
    case False
    then show ?thesis using commits_ok_abort [OF abort c] ok by (auto simp: promotions_ok_def distinct_map_filter)
  qed (use ok in simp)
next
  case (complete r now)
  then obtain c g where e: "commits db' = update_rows (in_state (rc_rep r) ''committing'') g (commits db)" "promotions db' = promotions db"
    and g: "g = (\<lambda>c. c\<lparr>rc_state := ''committed'', rc_review := rc_review r, rc_reason := rc_reason r, rc_arr := rc_arr r, rc_kind := rc_kind r,
                 rc_arrItem := rc_arrItem r, rc_owner := rc_owner r, rc_prior := rc_prior r, rc_updated := now\<rparr>)" by (rule complete_effect)
  show ?thesis unfolding e by (rule promotions_ok_update [OF ok]) (auto simp: in_state_def filed_states_def g)
next
  case (start_undo rid now)
  show ?thesis unfolding start_undo startUndo_def using promotions_ok_update [OF ok, of "\<lambda>c. c\<lparr>rc_state := ''undoing'', rc_updated := now\<rparr>"]
    by (simp add: filed_states_def)
next
  case (complete_undo rid now)
  note e = undo_effect(1,4) [OF complete_undo]
  show ?thesis unfolding e by (rule promotions_ok_update [OF ok]) (auto simp: in_state_def filed_states_def)
next
  case (stage rid path sz now)
  then show ?thesis using stage_promotions [OF stage ok] promotion_frames(1) [OF stage(1)] by (simp add: same_commits_def)
next
  case (complete_promotion rid bytes now)
  then show ?thesis using advance_promotions(1) [OF ok] promotion_frames(2) by (metis same_commits_def)
next
  case (fail_promotion rid now)
  then show ?thesis using advance_promotions(2) [OF ok] promotion_frames(3) by (metis same_commits_def)
next
  case (remove_promotion rid now)
  then show ?thesis using advance_promotions(3) [OF ok] promotion_frames(4) by (metis same_commits_def)
next
  case (recover_promotions now)
  then show ?thesis using advance_promotions(4) [OF ok] promotion_frames(5) by (metis same_commits_def)
next
  case (sync now)
  show ?thesis using ok sync_frame [OF sync] by simp
next
  case (resolve action rid arr now)
  show ?thesis unfolding resolve(1) by (rule promotions_same [OF ok resolveRow_frame(1,2)])
qed (use ok in \<open>auto intro: promotions_same dest: insertProposal_frame enqueue_frame assign_frame record_frame headroom_frame\<close>)

lemma insertPendings_queue:
  assumes "insertPendings rows db = Inr db'" and ok: "queue_ok (pendings db) (playback_proposals db)" and "\<forall>q \<in> set rows. pending_ok q"
  shows "queue_ok (pendings db') (playback_proposals db')"
proof -
  have db': "pendings db' = foldl (insert_ignore rp_rep) (pendings db) rows" "playback_proposals db' = playback_proposals db"
    and rows: "\<forall>r \<in> set rows. has_proposal db (rp_rep r) \<or> (\<exists>q \<in> set (pendings db). rp_rep q = rp_rep r)"
    using assms(1) by (auto simp: insertPendings_def list_ex_iff split: if_split_asm)
  have "rp_rep r \<in> rp_rep ` set (pendings db)" if h: "r \<in> set rows" for r
  proof -
    have "\<exists>q \<in> set (pendings db). rp_rep q = rp_rep r" using bspec [OF rows h] queue_proposal [OF ok, of "rp_rep r"] by (auto simp: list_ex_iff)
    then show ?thesis by (metis image_eqI)
  qed
  then have "rp_rep ` set (pendings db') = rp_rep ` set (pendings db)" unfolding db'(1) insert_ignore_keys by blast
  moreover have "distinct (map rp_rep (pendings db'))" using ok insert_ignore_distinct unfolding db'(1) queue_ok_def by blast
  moreover have "\<forall>q \<in> set (pendings db'). pending_ok q"
    using insert_ignore_set(1) [of rp_rep "pendings db" rows] assms(3) ok unfolding db'(1) queue_ok_def by blast
  ultimately show ?thesis using ok db'(2) unfolding queue_ok_def by simp
qed

lemma newPending_ok: "validPendingReason reason \<Longrightarrow> pending_ok (newPending rid item reason a b)"
  by (simp add: pending_ok_def newPending_def)

lemma sync_queue:
  assumes "SyncReactivePending db now = Inr db'" and ok: "queue_ok (pendings db) (playback_proposals db)"
  shows "queue_ok (pendings db') (playback_proposals db')"
proof -
  let ?r1 = "map (\<lambda>p. newPending (pr_rep p) (pr_item p) ''supervised_review'' (pr_created p) now)
                  (filter (\<lambda>p. \<not> list_ex (\<lambda>c. rc_rep c = pr_rep p) (commits db)) (playback_proposals db))"
  let ?r2 = "map (\<lambda>c. newPending (rc_rep c) (rc_item c) ''positive_mismatch'' (rc_created c) now) (filter (\<lambda>c. rc_state c = ''parked'') (commits db))"
  let ?r3 = "map (\<lambda>c. newPending (rc_rep c) (rc_item c) ''weak_evidence'' (rc_created c) now)
                 (filter (\<lambda>c. rc_state c = ''committed'' \<and> rc_review c) (commits db))"
  from assms(1) obtain db1 db2 where s: "insertPendings ?r1 db = Inr db1" "insertPendings ?r2 db1 = Inr db2" "insertPendings ?r3 db2 = Inr db'"
    by (auto simp: SyncReactivePending_def split: if_split_asm sum.split_asm)
  have ok1: "\<forall>q \<in> set ?r1. pending_ok q" and ok2: "\<forall>q \<in> set ?r2. pending_ok q" and ok3: "\<forall>q \<in> set ?r3. pending_ok q"
    by (auto intro!: newPending_ok simp: validPendingReason_def)
  show ?thesis
    by (rule insertPendings_queue [OF s(3) insertPendings_queue [OF s(2) insertPendings_queue [OF s(1) ok ok1] ok2] ok3])
qed

lemma proposal_queue:
  assumes "insertProposal valid db p = Inr (b, db')" and ok: "queue_ok (pendings db) (playback_proposals db)"
  shows "queue_ok (pendings db') (playback_proposals db')"
proof (cases b)
  case True
  have db': "playback_proposals db' = playback_proposals db @ [p]" "\<not> list_ex (\<lambda>q. pr_rep q = pr_rep p) (playback_proposals db)"
    "\<not> list_ex (\<lambda>q. rp_rep q = pr_rep p) (pendings db)"
    "pendings db' = pendings db @ [\<lparr>rp_rep = pr_rep p, rp_item = pr_item p, rp_reason = ''supervised_review'', rp_state = ''pending'',
                   rp_action = '''', rp_arr = '''', rp_created = pr_created p, rp_updated = pr_created p\<rparr>]"
    using assms(1) True
    by (auto simp: insertProposal_def CreatePlaybackProposal_def split: if_split_asm sum.split_asm prod.split_asm bool.split_asm)
  have "pr_rep p \<notin> pr_rep ` set (playback_proposals db)" "pr_rep p \<notin> rp_rep ` set (pendings db)" using db'(2,3) by (auto simp: list_ex_iff)
  then show ?thesis using ok by (auto simp: queue_ok_def db'(1,4) pending_ok_def validPendingReason_def)
next
  case False
  then have "db' = db" using assms(1) by (auto simp: insertProposal_def split: if_split_asm sum.split_asm prod.split_asm bool.split_asm)
  then show ?thesis using ok by simp
qed

lemma enqueue_queue:
  assumes "EnqueueReactivePending db rid item reason now = Inr db'" and ok: "queue_ok (pendings db) (playback_proposals db)"
  shows "queue_ok (pendings db') (playback_proposals db)"
proof -
  have "validPendingReason reason" using assms(1) by (auto simp: EnqueueReactivePending_def split: if_split_asm)
  moreover have "pendings db' = update_rows (\<lambda>q. rp_rep q = rid \<and> rp_state q = ''pending'') (\<lambda>q. q\<lparr>rp_reason := reason, rp_updated := now\<rparr>) (pendings db)"
    using assms(1) queue_proposal [OF ok, of rid] by (auto simp: EnqueueReactivePending_def split: if_split_asm)
  ultimately show ?thesis using ok by (auto simp: pending_ok_def intro!: queue_update)
qed

lemma queue_same: "queue_ok (pendings db) (playback_proposals db) \<Longrightarrow> same_queue db db' \<Longrightarrow> queue_ok (pendings db') (playback_proposals db')"
  by (simp add: same_queue_def)

lemma step_queue:
  assumes "rx_step db db'" and ok: "queue_ok (pendings db) (playback_proposals db)"
  shows "queue_ok (pendings db') (playback_proposals db')"
  using assms(1)
proof cases
  case propose
  then show ?thesis using proposal_queue ok by blast
next
  case (park rid reason now)
  from park_effect [OF park] obtain c where
    "appendReactiveEvent ''park'' '''' ''positive_mismatch'' 0 now (reopen ''positive_mismatch'' (c\<lparr>rc_state := ''parked'', rc_reason := reason, rc_updated := now\<rparr>)
       (db\<lparr>commits := commits db'\<rparr>)) = Inr db'" by blast
  note fr = append_frame(4,5) [OF this]
  show ?thesis unfolding fr using reopen_queue [of "db\<lparr>commits := commits db'\<rparr>" "''positive_mismatch''"] ok by (simp add: validPendingReason_def)
next
  case (complete r now)
  then obtain c g where "pendings db' = pendings (if rc_review r then reopen ''weak_evidence'' (g c) db else db)"
    "playback_proposals db' = playback_proposals db" by (rule complete_effect)
  then show ?thesis using reopen_queue [OF ok, of "''weak_evidence''"] ok by (simp add: validPendingReason_def)
next
  case (start_undo rid now)
  show ?thesis unfolding start_undo by (rule queue_same [OF ok startUndo_frame(2)])
next
  case (complete_undo rid now)
  show ?thesis using ok undo_effect(5,6) [OF complete_undo] by simp
next
  case (sync now)
  show ?thesis by (rule sync_queue [OF sync ok])
next
  case (enqueue rid item reason now)
  show ?thesis using enqueue_queue [OF enqueue ok] enqueue_frame(4) [OF enqueue] by simp
next
  case (resolve action rid arr now)
  show ?thesis unfolding resolve(1) resolveRow_def using resolve(2) ok by (auto simp: pending_ok_def intro!: queue_update)
qed (use ok in \<open>auto intro: queue_same dest: insertCommit_frame(2) abort_frame(1) assign_frame(3) record_frame(3) headroom_frame(3) promotion_frames\<close>)

lemma events_same: "events_ok (events db) (event_seq db) \<Longrightarrow> same_events db db' \<Longrightarrow> events_ok (events db') (event_seq db')"
  by (simp add: same_events_def)

lemma step_events:
  assumes "rx_step db db'" and ok: "events_ok (events db) (event_seq db)"
  shows "events_ok (events db') (event_seq db')"
  using assms(1)
proof cases
  case (park rid reason now)
  from park_effect [OF park] obtain c where
    ap: "appendReactiveEvent ''park'' '''' ''positive_mismatch'' 0 now (reopen ''positive_mismatch'' (c\<lparr>rc_state := ''parked'', rc_reason := reason, rc_updated := now\<rparr>)
       (db\<lparr>commits := commits db'\<rparr>)) = Inr db'" by blast
  show ?thesis by (rule append_events [OF ap]) (use ok in simp)
next
  case (complete r now)
  then obtain db0 where e: "appendReactiveEvent ''commit'' (rc_mode r) (if rc_review r then ''weak_evidence'' else ''strong_evidence'') 0 now db0 = Inr db'"
    "events db0 = events db" "event_seq db0 = event_seq db" by (rule complete_effect) blast
  show ?thesis by (rule append_events [OF e(1)]) (use ok e(2,3) in simp)
next
  case (start_undo rid now)
  show ?thesis unfolding start_undo by (rule events_same [OF ok startUndo_frame(3)])
next
  case (complete_undo rid now)
  let ?db0 = "db\<lparr>commits := update_rows (in_state rid ''undoing'') (\<lambda>c. c\<lparr>rc_state := ''undone'', rc_updated := now\<rparr>) (commits db)\<rparr>"
  have "appendReactiveEvent ''undo'' '''' '''' 0 now ?db0 = Inr db'" using complete_undo by (simp add: CompleteReactiveUndo_def split: if_split_asm)
  then show ?thesis by (rule append_events) (use ok in simp)
next
  case (sync now)
  show ?thesis using ok sync_frame [OF sync] by simp
next
  case (resolve action rid arr now)
  show ?thesis unfolding resolve(1) by (rule events_same [OF ok resolveRow_frame(3)])
next
  case (record_promotion bytes now)
  then show ?thesis using append_events ok by (auto simp: RecordReactivePromotion_def split: if_split_asm)
next
  case (complete_promotion rid bytes now)
  let ?db0 = "db\<lparr>promotions := update_rows (\<lambda>p. pm_rep p = rid \<and> pm_state p = ''staging'' \<and> pm_bytes p = bytes)
     (\<lambda>p. p\<lparr>pm_state := ''promoted'', pm_updated := now\<rparr>) (promotions db)\<rparr>"
  have "appendReactiveEvent ''promotion'' '''' '''' bytes now ?db0 = Inr db'"
    using complete_promotion by (simp add: CompleteReactivePromotion_def Let_def split: if_split_asm)
  then show ?thesis by (rule append_events) (use ok in simp)
qed (use ok in \<open>auto intro: events_same dest: insertProposal_frame(3) insertCommit_frame(3) abort_frame(2) enqueue_frame(3) assign_frame(4)
      headroom_frame(4) promotion_frames\<close>)

lemma run_inv: "rx_run db db' \<Longrightarrow> rx_inv db \<Longrightarrow> rx_inv db'"
  by (induction rule: rtranclp_induct) (auto simp: rx_inv_def intro: step_commits step_promotions step_queue step_events)

subsection \<open>The operations are runs\<close>

definition empty_reactive :: "'f reactive_db" where
  "empty_reactive = \<lparr>playback_coverage = [], playback_media = [], playback_proposals = [], commits = [], commit_files = [], commit_episodes = [],
     pendings = [], assignments = [], events = [], event_seq = 0, headroom = None, promotions = []\<rparr>"

lemma empty_inv: "rx_inv empty_reactive"
  by (simp add: rx_inv_def empty_reactive_def commits_ok_def promotions_ok_def queue_ok_def events_ok_def)

lemma fetchCommit_found: "fetchCommit cx db rid = Inr r \<Longrightarrow> r = GetReactiveCommit db rid"
  by (auto simp: fetchCommit_def split: option.split_asm)

lemma fetchCommit_failed: "fetchCommit cx db rid = Inl e \<Longrightarrow> cx 0 \<noteq> None \<or> cx 1 \<noteq> None \<or> cx 2 \<noteq> None"
  by (auto simp: fetchCommit_def split: option.split_asm)

lemma begin_refused:
  assumes "insertCommit rid item fil mode now db = (False, db)" and "GetReactiveCommit (w db) rid = Some r"
    and "rc_state r = ''undone'' \<or> rc_state r = ''undoing''" and "rid \<noteq> ''''" "item \<noteq> ''''" "fil \<noteq> ''''" "mode = ''auto'' \<or> mode = ''supervised''" "now \<noteq> zeroTime"
  shows "\<exists>e. fst (BeginReactiveCommit w cx db rid item fil mode now) = Inl e \<and> ((\<forall>n. cx n = None) \<longrightarrow> e = ErrReactiveNoRecommit)"
proof (cases "cx 0")
  case None
  have valid: "\<not> (rid = '''' \<or> item = '''' \<or> fil = '''' \<or> (mode \<noteq> ''auto'' \<and> mode \<noteq> ''supervised'') \<or> now = zeroTime)" using assms(4-8) by blast
  show ?thesis
  proof (cases "fetchCommit (\<lambda>n. cx (n + 1)) (w db) rid")
    case (Inl e)
    then show ?thesis using None valid fetchCommit_failed [OF Inl] by (auto simp: BeginReactiveCommit_def Let_def assms(1))
  next
    case (Inr ro)
    then have "ro = Some r" using fetchCommit_found [OF Inr] assms(2) by simp
    with Inr show ?thesis using None valid assms(3) by (auto simp: BeginReactiveCommit_def Let_def assms(1))
  qed
qed (use assms(4-8) in \<open>auto simp: BeginReactiveCommit_def\<close>)

lemma begin_run:
  assumes "\<forall>x. rx_run x (w x)"
  shows "rx_run db (snd (BeginReactiveCommit w cx db rid item fil mode now))"
proof (cases "rid = '''' \<or> item = '''' \<or> fil = '''' \<or> (mode \<noteq> ''auto'' \<and> mode \<noteq> ''supervised'') \<or> now = zeroTime")
  case False
  obtain b d where d: "insertCommit rid item fil mode now db = (b, d)" by fastforce
  with False have "rx_step db d" by (intro rx_step.begin_commit [OF d]) auto
  then have "rx_run db (w d)" using assms by (meson converse_rtranclp_into_rtranclp)
  then show ?thesis using False d by (auto simp: BeginReactiveCommit_def Let_def split: option.split sum.split)
qed (auto simp: BeginReactiveCommit_def)

lemma begin_undo_run:
  assumes "\<forall>x. rx_run x (w x)"
  shows "rx_run db (snd (BeginReactiveUndo w cx db rid now))"
proof -
  have "rx_run db (w (startUndo rid now db))" using assms rx_step.start_undo by (metis converse_rtranclp_into_rtranclp)
  then show ?thesis by (simp add: BeginReactiveUndo_def Let_def split: option.split)
qed

lemma valid_decision: "validPendingAction reason action \<Longrightarrow> action \<in> set decisions"
  by (auto simp: validPendingAction_def decisions_def split: if_split_asm)

lemma resolve_run:
  assumes "\<forall>n x. rx_run x (w n x)"
  shows "rx_run db (snd (ResolveReactivePending w db rid action arr now))"
proof (cases "GetReactivePending db rid")
  case (Some q)
  have r1: "rx_run db (w 1 (w 0 db))" using assms rtranclp_trans by metis
  have r2: "rx_run db (resolveRow rid action (TrimSpace arr) now (w 0 db))" if "validPendingAction (rp_reason q) action"
    using assms rx_step.resolve [OF valid_decision [OF that]] by (metis rtranclp.rtrancl_into_rtrancl)
  show ?thesis unfolding ResolveReactivePending_def Some Let_def using r1 r2 by (auto split: option.split)
qed (simp add: ResolveReactivePending_def)

lemma filed_at: "commit_at db rid = Some c \<Longrightarrow> rc_state c \<in> set filed_states \<Longrightarrow> filed (commits db) rid"
  unfolding commit_at_def filed_def by (drule find_Some_in) blast

lemma commit_at_get: "GetReactiveCommit db rid = None \<longleftrightarrow> commit_at db rid = None"
  "GetReactiveCommit db rid = Some c \<Longrightarrow> \<exists>d. commit_at db rid = Some d \<and> rc_state d = rc_state c \<and> rc_item d = rc_item c \<and> rc_file d = rc_file c"
  by (auto simp: GetReactiveCommit_def commit_at_def)

lemma promotion_run:
  assumes "\<forall>x. rx_run x (w x)" and "BeginReactivePromotion w db rid path sz now = Inr db'"
  shows "rx_run db db'"
proof -
  from assms(2) obtain c where g: "GetReactiveCommit db rid = Some c" "rc_state c = ''committed''" and sz: "sz > 0"
    and st: "stagePromotion rid path sz now (w db) = Inr db'"
    by (auto simp: BeginReactivePromotion_def split: if_split_asm option.split_asm)
  obtain d where d: "commit_at db rid = Some d" "rc_state d = ''committed''" using commit_at_get(2) [OF g(1)] g(2) by auto
  have "onward (commit_at db rid) (commit_at (w db) rid)" using assms(1) run_onward by blast
  then obtain e where "commit_at (w db) rid = Some e" "rc_state e \<in> set filed_states"
    using d by (auto simp: onward_def moved_def filed_states_def)
  from rx_step.stage [OF st filed_at [OF this] sz] show ?thesis using assms(1) by (metis rtranclp.rtrancl_into_rtrancl)
qed

text \<open>C25: reactive acquisitions never go back. Whatever statements concurrent callers interleave, from an empty database the
  tables keep their invariant (unique keys; files, episodes and promotions only of completed commits, which name
  a media manager, a kind, an item and at least one file; exactly the proposals are in the queue; the event
  log is bounded). A commit that is parked or complete keeps everything but its state, and that only moves on to undoing and
  undone; once there, every attempt to commit the title again is refused, even if other callers act in the middle of it or its context ends.\<close>

theorem reactive_lifecycle:
  assumes "rx_run empty_reactive db" and w: "\<forall>x. rx_run x (w x)"
  shows "rx_inv db \<and> (\<forall>db' rid. rx_run db db' \<longrightarrow> onward (commit_at db rid) (commit_at db' rid)) \<and>
    (\<forall>rid c item fil mode now cx. commit_at db rid = Some c \<and> rc_state c \<in> {''undoing'', ''undone''} \<and> item \<noteq> '''' \<and> fil \<noteq> '''' \<and>
       mode \<in> {''auto'', ''supervised''} \<and> now \<noteq> zeroTime \<longrightarrow>
       (\<exists>e. fst (BeginReactiveCommit w cx db rid item fil mode now) = Inl e \<and> ((\<forall>n. cx n = None) \<longrightarrow> e = ErrReactiveNoRecommit)))"
proof (intro conjI allI impI)
  show inv: "rx_inv db" by (rule run_inv [OF assms(1) empty_inv])
  show "onward (commit_at db rid) (commit_at db' rid)" if "rx_run db db'" for db' rid using that by (rule run_onward)
  fix rid item fil mode :: string and c now cx
  assume h: "commit_at db rid = Some c \<and> rc_state c \<in> {''undoing'', ''undone''} \<and> item \<noteq> '''' \<and> fil \<noteq> '''' \<and> mode \<in> {''auto'', ''supervised''} \<and> now \<noteq> zeroTime"
  then have c: "c \<in> set (commits db)" "rc_rep c = rid" using find_Some_in [of "\<lambda>r. rc_rep r = rid" "commits db" c] by (simp_all add: commit_at_def)
  then have rid: "rid \<noteq> ''''" using inv by (auto simp: rx_inv_def commits_ok_def commit_ok_def)
  have ins: "insertCommit rid item fil mode now db = (False, db)" using c by (auto simp: insertCommit_def list_ex_iff)
  have "onward (commit_at db rid) (commit_at (w db) rid)" using w run_onward by blast
  then obtain d where "commit_at (w db) rid = Some d" "rc_state d = ''undoing'' \<or> rc_state d = ''undone''"
    using h by (auto simp: onward_def moved_def)
  moreover from this obtain e where "GetReactiveCommit (w db) rid = Some e" by (metis commit_at_get(1) option.exhaust option.distinct(1))
  ultimately have "GetReactiveCommit (w db) rid = Some e" "rc_state e = ''undone'' \<or> rc_state e = ''undoing''" using commit_at_get(2) by fastforce+
  then show "\<exists>e. fst (BeginReactiveCommit w cx db rid item fil mode now) = Inl e \<and> ((\<forall>n. cx n = None) \<longrightarrow> e = ErrReactiveNoRecommit)"
    using h rid ins by (intro begin_refused) auto
qed

definition demo_commit :: ReactiveCommit where
  "demo_commit = emptyCommit\<lparr>rc_rep := ''r'', rc_item := ''i'', rc_file := ''f'', rc_state := ''committing'', rc_mode := ''auto'', rc_arr := ''radarr'',
     rc_kind := ''movie'', rc_arrItem := 7, rc_files := [3]\<rparr>"

theorem reactive_lifecycle_witness:
  "\<exists>db :: int reactive_db. rx_run empty_reactive db \<and> map_option rc_state (commit_at db ''r'') = Some ''undoing'' \<and> rx_inv db \<and>
     fst (BeginReactiveCommit (\<lambda>x. x) (\<lambda>_. None) db ''r'' ''i'' ''f'' ''auto'' 9) = Inl ErrReactiveNoRecommit"
proof -
  define d1 :: "int reactive_db" where "d1 = snd (insertCommit ''r'' ''i'' ''f'' ''auto'' 5 empty_reactive)"
  have s1: "rx_step empty_reactive d1" unfolding d1_def by (rule rx_step.begin_commit [OF prod.collapse [symmetric]]) simp_all
  have c1: "commits d1 = [emptyCommit\<lparr>rc_rep := ''r'', rc_item := ''i'', rc_file := ''f'', rc_state := ''committing'', rc_mode := ''auto'', rc_created := 5, rc_updated := 5\<rparr>]"
    by (simp add: d1_def insertCommit_def empty_reactive_def)
  have "\<exists>d2. CompleteReactiveCommit d1 demo_commit 6 = Inr d2"
    by (simp add: CompleteReactiveCommit_def c1 demo_commit_def emptyCommit_def in_state_def zeroTime_def Second_def appendReactiveEvent_def event_allowed_def Let_def)
  then obtain d2 where d2: "CompleteReactiveCommit d1 demo_commit 6 = Inr d2" by blast
  from d2 obtain c g where "commits d2 = update_rows (in_state (rc_rep demo_commit) ''committing'') g (commits d1)"
    and "g = (\<lambda>c. c\<lparr>rc_state := ''committed'', rc_review := rc_review demo_commit, rc_reason := rc_reason demo_commit, rc_arr := rc_arr demo_commit,
      rc_kind := rc_kind demo_commit, rc_arrItem := rc_arrItem demo_commit, rc_owner := rc_owner demo_commit, rc_prior := rc_prior demo_commit, rc_updated := 6\<rparr>)"
    by (rule complete_effect)
  then have c2: "map_option rc_state (commit_at d2 ''r'') = Some ''committed''"
    by (simp add: commit_at_def c1 update_rows_def in_state_def demo_commit_def)
  define d3 where "d3 = startUndo ''r'' 7 d2"
  have c3: "map_option rc_state (commit_at d3 ''r'') = Some ''undoing''"
  proof -
    from c2 obtain z where z: "commit_at d2 ''r'' = Some z" "rc_state z = ''committed''" by auto
    then have "rc_rep z = ''r''" using find_Some_in [of "\<lambda>r. rc_rep r = ''r''" "commits d2" z] by (simp add: commit_at_def)
    with z show ?thesis by (simp add: d3_def startUndo_def commit_at_def find_update_rows in_state_def)
  qed
  have "rx_run empty_reactive d1" using s1 by (rule r_into_rtranclp)
  then have "rx_run empty_reactive d2" using rx_step.complete [OF d2] by (rule rtranclp.rtrancl_into_rtrancl)
  then have run: "rx_run empty_reactive d3" unfolding d3_def using rx_step.start_undo by (rule rtranclp.rtrancl_into_rtrancl)
  from c3 obtain z where z: "commit_at d3 ''r'' = Some z" "rc_state z = ''undoing''" by auto
  have w: "\<forall>x :: int reactive_db. rx_run x x" by simp
  note life = reactive_lifecycle [OF run w]
  have "\<exists>e. fst (BeginReactiveCommit (\<lambda>x. x) (\<lambda>_. None) d3 ''r'' ''i'' ''f'' ''auto'' 9) = Inl e \<and>
      ((\<forall>n :: nat. (None :: go_error option) = None) \<longrightarrow> e = ErrReactiveNoRecommit)"
    by (rule conjunct2 [OF conjunct2 [OF life], rule_format, of _ z]) (use z in \<open>simp add: zeroTime_def Second_def\<close>)
  then have "fst (BeginReactiveCommit (\<lambda>x. x) (\<lambda>_. None) d3 ''r'' ''i'' ''f'' ''auto'' 9) = Inl ErrReactiveNoRecommit" by simp
  then show ?thesis using life run c3 by (intro exI [of _ d3]) simp
qed

text \<open>A decision that is accepted fits the reason of its entry and is recorded once, with nothing else changed; a
  refused one changes nothing.\<close>

lemma resolve_decides:
  assumes "ResolveReactivePending (\<lambda>_ x. x) db rid action arr now = (err, db')" and "distinct (map rp_rep (pendings db))"
  shows "err \<noteq> None \<Longrightarrow> db' = db"
    "err = None \<Longrightarrow> \<exists>q q'. GetReactivePending db rid = Some q \<and> GetReactivePending db' rid = Some q' \<and> rp_state q' = ''resolved'' \<and> rp_action q' = action \<and>
       rp_reason q' = rp_reason q \<and> (q' = q \<or> rp_state q = ''pending'' \<and> validPendingAction (rp_reason q) action) \<and>
       (\<exists>qs. db' = db\<lparr>pendings := qs\<rparr> \<and> filter (\<lambda>x. rp_rep x \<noteq> rid) qs = filter (\<lambda>x. rp_rep x \<noteq> rid) (pendings db))"
proof -
  show "err \<noteq> None \<Longrightarrow> db' = db"
    using assms(1) by (auto simp: ResolveReactivePending_def Let_def split: if_split_asm option.split_asm)
  assume e: "err = None"
  then obtain q where q: "GetReactivePending db rid = Some q" using assms(1) by (auto simp: ResolveReactivePending_def split: option.split_asm)
  have in_t: "q \<in> set (pendings db)" "rp_rep q = rid" using find_Some_in q unfolding GetReactivePending_def by fastforce+
  have same: "filter (\<lambda>x. rp_rep x \<noteq> rid) (update_rows (\<lambda>x. rp_rep x = rid \<and> P x) f t) = filter (\<lambda>x. rp_rep x \<noteq> rid) t"
    if "\<And>x. rp_rep (f x) = rp_rep x" for P f t using that by (induction t) (auto simp: update_rows_def)
  show "\<exists>q q'. GetReactivePending db rid = Some q \<and> GetReactivePending db' rid = Some q' \<and> rp_state q' = ''resolved'' \<and> rp_action q' = action \<and>
       rp_reason q' = rp_reason q \<and> (q' = q \<or> rp_state q = ''pending'' \<and> validPendingAction (rp_reason q) action) \<and>
       (\<exists>qs. db' = db\<lparr>pendings := qs\<rparr> \<and> filter (\<lambda>x. rp_rep x \<noteq> rid) qs = filter (\<lambda>x. rp_rep x \<noteq> rid) (pendings db))"
  proof (cases "rp_state q = ''resolved''")
    case True
    then have "db' = db\<lparr>pendings := pendings db\<rparr>" "rp_action q = action"
      using assms(1) q e by (simp_all add: ResolveReactivePending_def split: if_split_asm)
    with True q show ?thesis by (intro exI [of _ q]) (auto intro: exI [of _ "pendings db"])
  next
    case False
    then have v: "validPendingAction (rp_reason q) action" "db' = resolveRow rid action (TrimSpace arr) now db"
      "list_ex (\<lambda>q. rp_rep q = rid \<and> rp_state q = ''pending'') (pendings db)"
      using assms(1) q e by (auto simp: ResolveReactivePending_def Let_def split: if_split_asm)
    then obtain p where "p \<in> set (pendings db)" "rp_rep p = rid" "rp_state p = ''pending''" by (auto simp: list_ex_iff)
    then have st: "rp_state q = ''pending''" using unique_rows [OF assms(2), of p q] in_t by simp
    let ?q = "q\<lparr>rp_state := ''resolved'', rp_action := action, rp_arr := TrimSpace arr, rp_updated := now\<rparr>"
    have "GetReactivePending db' rid = Some ?q"
      using q in_t(2) st unfolding GetReactivePending_def v(2) resolveRow_def by (simp add: find_update_rows)
    moreover have "\<exists>qs. db' = db\<lparr>pendings := qs\<rparr> \<and> filter (\<lambda>x. rp_rep x \<noteq> rid) qs = filter (\<lambda>x. rp_rep x \<noteq> rid) (pendings db)"
      unfolding v(2) resolveRow_def by (rule exI, rule conjI [OF refl], rule same) simp
    ultimately show ?thesis using q v(1) st by (intro exI [of _ q] exI [of _ ?q]) simp
  qed
qed

text \<open>The reason is read before the row is updated, so a change of reason in between is not noticed: here the
  dispatcher parks an entry for want of a route while an operator approves it.\<close>

lemma resolve_race:
  "\<exists>db. (let w = (\<lambda>n x. if n = 0 then projr (EnqueueReactivePending x ''r'' ''i'' ''routing_unresolved'' 4) else x);
       (err, db') = ResolveReactivePending w (db :: int reactive_db) ''r'' ''approve'' '''' 5 in
     err = None \<and> map_option (\<lambda>q. validPendingAction (rp_reason q) (rp_action q)) (GetReactivePending db' ''r'') = Some False)"
proof -
  have trim: "TrimSpace [] = []" by code_simp
  show ?thesis
    by (rule exI [of _ "empty_reactive\<lparr>pendings := [newPending ''r'' ''i'' ''supervised_review'' 1 1]\<rparr>"])
      (simp add: empty_reactive_def newPending_def ResolveReactivePending_def EnqueueReactivePending_def GetReactivePending_def validPendingReason_def
        validPendingAction_def ContainsAny_def zeroTime_def Second_def update_rows_def resolveRow_def trim)
qed

end
