(* ===== verification/ReactiveRouting.thy ===== *)
theory ReactiveRouting
  imports ReactiveStore MediaIdentity
begin

section \<open>Choosing a media manager for a title\<close>

text \<open>
  \<open>reactivequeue/router.go\<close> and \<open>reactivequeue/targets.go\<close>: which configured media manager (an Arr) a title goes to. The HTTP
  request with the decoding of its reply is the argument \<open>ask\<close>, and Unicode case folding is the argument \<open>eqFold\<close>.

  Results: a route names a configured target that answered for the title; it is owned only if that target lists the title, and
  an owner is remembered only if it is the only one.
\<close>

subsection \<open>Targets\<close>

record ArrTarget =
  at_name :: string
  BaseURL :: string
  APIKey :: string
  RootFolder :: string
  QualityProfile :: int

definition CanAdd :: "ArrTarget \<Rightarrow> bool" where
  "CanAdd t \<longleftrightarrow> RootFolder t \<noteq> '''' \<and> QualityProfile t > 0"

record ArrInstance =
  ai_name :: string
  ai_url :: string
  AppType :: string
  APIKeyRef :: string
  ai_root :: string
  ai_profile :: int

definition TrimRightSlash :: "string \<Rightarrow> string" where
  "TrimRightSlash s = rev (dropWhile (\<lambda>c. c = CHR ''/'') (rev s))"

fun TargetsFromInstances :: "(string \<Rightarrow> string option) \<Rightarrow> ArrInstance list \<Rightarrow> ArrTarget list \<times> string list" where
  "TargetsFromInstances lookup [] = ([], [])"
| "TargetsFromInstances lookup (inst # rest) =
     (let (targets, unresolved) = TargetsFromInstances lookup rest;
          app = ToLowerASCII (TrimSpace (AppType inst));
          url = TrimRightSlash (TrimSpace (ai_url inst));
          key = (case lookup (TrimSpace (APIKeyRef inst)) of Some k \<Rightarrow> TrimSpace k | None \<Rightarrow> '''')
      in if app \<noteq> ''sonarr'' \<and> app \<noteq> ''radarr'' then (targets, unresolved)
         else if url = '''' then (targets, unresolved)
         else if key = '''' then (targets, ai_name inst # unresolved)
         else (\<lparr>at_name = ai_name inst, BaseURL = url, APIKey = key, RootFolder = TrimSpace (ai_root inst), QualityProfile = ai_profile inst\<rparr> # targets, unresolved))"

definition ResolveTargets :: "ArrInstance list \<Rightarrow> ArrTarget list \<Rightarrow> (string \<Rightarrow> string option) \<Rightarrow> ArrTarget list \<times> string list" where
  "ResolveTargets instances envTargets lookup =
     (let (targets, unresolved) = TargetsFromInstances lookup instances
      in if targets = [] then (envTargets, unresolved) else (targets, unresolved))"

subsection \<open>The router\<close>

definition maxArrTargets :: nat where "maxArrTargets = 64"
definition maxArrRows :: int where "maxArrRows = 10000"

record RouteResult =
  ArrName :: string
  rt_reason :: string
  Tier :: int
  Owned :: bool
  Declared :: bool
  rt_root :: string
  rt_profile :: int

definition noRoute :: RouteResult where
  "noRoute = \<lparr>ArrName = '''', rt_reason = '''', Tier = 0, Owned = False, Declared = False, rt_root = '''', rt_profile = 0\<rparr>"

record arrRow =
  row_id :: int
  TVDBID :: int
  TMDBID :: int
  IMDBID :: string

record Router =
  targets_of :: "ArrTarget list"
  defaults :: "(string \<times> string) list"

definition NewRouter :: "ArrTarget list \<Rightarrow> (go_error, Router) result" where
  "NewRouter ts = (if length ts > maxArrTargets then Inl (Plain ''reactivequeue: invalid routing dependencies'')
     else Inr \<lparr>targets_of = ts, defaults = []\<rparr>)"

definition SetDefaultDestinations :: "Router \<Rightarrow> string \<Rightarrow> string \<Rightarrow> Router" where
  "SetDefaultDestinations r series movie = r\<lparr>defaults := [(''series'', TrimSpace series), (''movie'', TrimSpace movie)]\<rparr>"

definition routingKey :: "ProviderIdentity option \<Rightarrow> (string \<times> string) option" where
  "routingKey identity =
     (case identity of None \<Rightarrow> None
      | Some i \<Rightarrow>
          if Kind i = ''series'' then
            (if TrimSpace (TVDB (IDs i)) \<noteq> '''' then Some (''tvdb'', TrimSpace (TVDB (IDs i)))
             else if TrimSpace (IMDB (IDs i)) \<noteq> '''' then Some (''imdb'', TrimSpace (IMDB (IDs i))) else None)
          else if Kind i = ''movie'' then
            (if TrimSpace (TMDB (IDs i)) \<noteq> '''' then Some (''tmdb'', TrimSpace (TMDB (IDs i)))
             else if TrimSpace (IMDB (IDs i)) \<noteq> '''' then Some (''imdb'', TrimSpace (IMDB (IDs i))) else None)
          else None)"

text \<open>\<open>url.QueryEscape\<close>.\<close>

definition upper_hex :: "nat \<Rightarrow> char" where
  "upper_hex n = char_of (if n < 10 then 48 + n else 55 + n)"

definition unreserved :: "char \<Rightarrow> bool" where
  "unreserved c = (let n = of_char c :: nat in
     65 \<le> n \<and> n \<le> 90 \<or> 97 \<le> n \<and> n \<le> 122 \<or> 48 \<le> n \<and> n \<le> 57 \<or> c \<in> {CHR ''-'', CHR ''_'', CHR ''.'', CHR ''~''})"

definition QueryEscape :: "string \<Rightarrow> string" where
  "QueryEscape s = concat (map (\<lambda>c. if unreserved c then [c] else if c = CHR '' '' then ''+''
     else [CHR ''%'', upper_hex (of_char c div 16), upper_hex (of_char c mod 16)]) s)"

definition arrPath :: "ProviderIdentity \<Rightarrow> string \<Rightarrow> string \<Rightarrow> string" where
  "arrPath i provider val =
     (let resource = (if Kind i = ''series'' then ''series'' else ''movie'');
          query = (if Kind i = ''series'' then ''tvdbId'' else ''tmdbId'')
      in ''/api/v3/'' @ resource @ (if provider \<noteq> ''imdb'' then ''?'' @ query @ ''='' @ QueryEscape val else ''''))"

type_synonym arr_service = "ArrTarget \<Rightarrow> string \<Rightarrow> (go_error, int \<times> arrRow list) result"

definition targetState :: "(string \<Rightarrow> string \<Rightarrow> bool) \<Rightarrow> arr_service \<Rightarrow> ArrTarget \<Rightarrow> ProviderIdentity option \<Rightarrow> (go_error, bool \<times> bool) result" where
  "targetState eqFold ask target identity =
     (case identity of None \<Rightarrow> Inr (False, False)
      | Some i \<Rightarrow>
          (case routingKey identity of
             None \<Rightarrow> Inr (False, False)
           | Some (provider, val) \<Rightarrow>
               (case ask target (arrPath i provider val) of
                  Inl e \<Rightarrow> Inl e
                | Inr (status, rows) \<Rightarrow>
                    if status = 404 then Inr (False, False)
                    else if status \<noteq> 200 then Inr (False, False)
                    else if int (length rows) > maxArrRows then Inl (Plain ''reactivequeue: Arr row limit exceeded'')
                    else if provider \<noteq> ''imdb'' then Inr (rows \<noteq> [], True)
                    else Inr (list_ex (\<lambda>row. eqFold (TrimSpace (IMDBID row)) val) rows, True))))"

definition addableRoute :: "ArrTarget \<Rightarrow> RouteResult \<Rightarrow> RouteResult" where
  "addableRoute target r =
     (if \<not> CanAdd target then r
      else r\<lparr>Declared := True, rt_root := RootFolder target, rt_profile := QualityProfile target\<rparr>)"

text \<open>The loop over all targets.\<close>

fun compatibleLoop :: "(string \<Rightarrow> string \<Rightarrow> bool) \<Rightarrow> arr_service \<Rightarrow> ProviderIdentity option \<Rightarrow> ArrTarget list \<Rightarrow> (go_error, (ArrTarget \<times> bool) list) result" where
  "compatibleLoop eqFold ask identity [] = Inr []"
| "compatibleLoop eqFold ask identity (t # ts) =
     (case targetState eqFold ask t identity of
        Inl e \<Rightarrow> Inl e
      | Inr (owns, app) \<Rightarrow>
          (case compatibleLoop eqFold ask identity ts of
             Inl e \<Rightarrow> Inl e
           | Inr cs \<Rightarrow> Inr (if app then (t, owns) # cs else cs)))"

definition defaultRoute :: "Router \<Rightarrow> string \<Rightarrow> (ArrTarget \<times> bool) list \<Rightarrow> RouteResult" where
  "defaultRoute r kind compatible =
     (let name = (case map_of (defaults r) kind of None \<Rightarrow> '''' | Some n \<Rightarrow> n);
          unresolved = noRoute\<lparr>rt_reason := ''routing_unresolved'', Tier := 2\<rparr>
      in if name = '''' then unresolved
         else case find (\<lambda>c. at_name (fst c) = name \<and> CanAdd (fst c)) compatible of
           None \<Rightarrow> unresolved
         | Some c \<Rightarrow> addableRoute (fst c) (noRoute\<lparr>ArrName := at_name (fst c), Tier := 2\<rparr>))"

definition assignedRoute :: "(string \<Rightarrow> string \<Rightarrow> bool) \<Rightarrow> arr_service \<Rightarrow> Router \<Rightarrow> ProviderIdentity option \<Rightarrow> string \<Rightarrow> (go_error, RouteResult) result" where
  "assignedRoute eqFold ask r identity name =
     (let unresolved = noRoute\<lparr>rt_reason := ''routing_unresolved'', Tier := 2\<rparr> in
      case find (\<lambda>t. at_name t = name) (targets_of r) of
        None \<Rightarrow> Inr unresolved
      | Some t \<Rightarrow>
          (case targetState eqFold ask t identity of
             Inl e \<Rightarrow> Inl e
           | Inr (owns, app) \<Rightarrow>
               if app then Inr (let res = noRoute\<lparr>ArrName := name, Tier := 2, Owned := owns\<rparr> in if \<not> owns then addableRoute t res else res)
               else Inr unresolved))"

definition Resolve :: "(string \<Rightarrow> string \<Rightarrow> bool) \<Rightarrow> arr_service \<Rightarrow> Router \<Rightarrow> 'f reactive_db \<Rightarrow> ProviderIdentity option \<Rightarrow> instant \<Rightarrow>
  (go_error, RouteResult) result \<times> 'f reactive_db" where
  "Resolve eqFold ask r db identity now =
     (case (identity, routingKey identity) of
        (Some i, Some (provider, val)) \<Rightarrow>
          (case GetReactiveAssignment db (Kind i) provider val of
             Inl e \<Rightarrow> (Inl e, db)
           | Inr (Some a) \<Rightarrow> (assignedRoute eqFold ask r identity (ra_arr a), db)
           | Inr None \<Rightarrow>
               (case compatibleLoop eqFold ask identity (targets_of r) of
                  Inl e \<Rightarrow> (Inl e, db)
                | Inr compatible \<Rightarrow>
                    (let owners = map fst (filter snd compatible) in
                     if length compatible = 1 then
                       (let (t, owns) = hd compatible; res = noRoute\<lparr>ArrName := at_name t, Tier := 0, Owned := owns\<rparr>
                        in (Inr (if \<not> owns then addableRoute t res else res), db))
                     else if length owners = 1 then
                       (case PutReactiveAssignment db \<lparr>ra_kind = Kind i, ra_provider = provider, ra_value = val, ra_arr = at_name (hd owners)\<rparr> now of
                          Inl e \<Rightarrow> (Inl e, db)
                        | Inr db' \<Rightarrow> (Inr (noRoute\<lparr>ArrName := at_name (hd owners), Tier := 1, Owned := True\<rparr>), db'))
                     else if length owners > 1 then (Inr (noRoute\<lparr>rt_reason := ''routing_ambiguous'', Tier := 3\<rparr>), db)
                     else (Inr (defaultRoute r (Kind i) compatible), db))))
      | _ \<Rightarrow> (Inr (noRoute\<lparr>rt_reason := ''routing_ambiguous'', Tier := 3\<rparr>), db))"

definition Remember :: "Router \<Rightarrow> 'f reactive_db \<Rightarrow> ProviderIdentity option \<Rightarrow> string \<Rightarrow> instant \<Rightarrow> (go_error, 'f reactive_db) result" where
  "Remember r db identity name now =
     (case (identity, routingKey identity) of
        (Some i, Some (provider, val)) \<Rightarrow>
          if list_ex (\<lambda>t. at_name t = name) (targets_of r)
            then PutReactiveAssignment db \<lparr>ra_kind = Kind i, ra_provider = provider, ra_value = val, ra_arr = name\<rparr> now
          else Inl (Plain ''reactivequeue: invalid explicit assignment'')
      | _ \<Rightarrow> Inl (Plain ''reactivequeue: invalid explicit assignment''))"

subsection \<open>What a route means\<close>

lemma compatibleLoop_exact:
  "compatibleLoop eqFold ask identity ts = Inr cs \<Longrightarrow> (t, owns) \<in> set cs \<longleftrightarrow> t \<in> set ts \<and> targetState eqFold ask t identity = Inr (owns, True)"
  by (induction ts arbitrary: cs) (auto split: sum.splits if_splits)

text \<open>\<open>supports ... res\<close>: the result is a route to a configured target that answered for the title, or a reason.\<close>

definition supports :: "(string \<Rightarrow> string \<Rightarrow> bool) \<Rightarrow> arr_service \<Rightarrow> Router \<Rightarrow> ProviderIdentity option \<Rightarrow> RouteResult \<Rightarrow> bool" where
  "supports eqFold ask r identity res =
     (if rt_reason res = '''' then
        (\<exists>t \<in> set (targets_of r). \<exists>owns. at_name t = ArrName res \<and> targetState eqFold ask t identity = Inr (owns, True) \<and> (Owned res \<longrightarrow> owns) \<and>
           (Declared res \<longrightarrow> CanAdd t \<and> \<not> owns \<and> rt_root res = RootFolder t \<and> rt_profile res = QualityProfile t))
      else ArrName res = '''' \<and> \<not> Owned res \<and> \<not> Declared res \<and> validPendingReason (rt_reason res))"

lemma supports_none:
  "supports eqFold ask r i (noRoute\<lparr>rt_reason := ''routing_unresolved'', Tier := n\<rparr>)"
  "supports eqFold ask r i (noRoute\<lparr>rt_reason := ''routing_ambiguous'', Tier := n\<rparr>)"
  by (simp_all add: supports_def noRoute_def validPendingReason_def)

lemma supports_target:
  assumes "t \<in> set (targets_of r)" and "targetState eqFold ask t i = Inr (owns, True)"
  shows "supports eqFold ask r i (if \<not> owns then addableRoute t (noRoute\<lparr>ArrName := at_name t, Tier := n, Owned := owns\<rparr>)
      else noRoute\<lparr>ArrName := at_name t, Tier := n, Owned := owns\<rparr>)"
  using assms by (auto simp: supports_def addableRoute_def noRoute_def)

lemma assignedRoute_supported:
  assumes "assignedRoute eqFold ask r i name = Inr res"
  shows "supports eqFold ask r i res"
proof (cases "find (\<lambda>t. at_name t = name) (targets_of r)")
  case (Some t)
  have t: "t \<in> set (targets_of r)" "at_name t = name" using find_Some_in [OF Some] by simp_all
  from assms Some obtain owns app where st: "targetState eqFold ask t i = Inr (owns, app)"
    by (auto simp: assignedRoute_def split: sum.split_asm)
  show ?thesis
  proof (cases app)
    case True
    then show ?thesis using assms Some st supports_target [OF t(1), of eqFold ask i owns 2] t(2) by (auto simp: assignedRoute_def Let_def)
  qed (use assms Some st supports_none in \<open>auto simp: assignedRoute_def\<close>)
qed (use assms supports_none in \<open>auto simp: assignedRoute_def\<close>)

lemma defaultRoute_supported:
  assumes "compatibleLoop eqFold ask i (targets_of r) = Inr cs" and "filter snd cs = []"
  shows "supports eqFold ask r i (defaultRoute r kind cs)"
proof -
  have "supports eqFold ask r i (addableRoute (fst c) (noRoute\<lparr>ArrName := at_name (fst c), Tier := 2\<rparr>))" if h: "c \<in> set cs" for c
  proof -
    obtain t owns where c: "c = (t, owns)" by fastforce
    have "\<not> owns" using assms(2) h c by (auto simp: filter_empty_conv)
    moreover have "t \<in> set (targets_of r)" "targetState eqFold ask t i = Inr (owns, True)" using compatibleLoop_exact [OF assms(1)] h c by auto
    ultimately show ?thesis using c by (auto simp: supports_def addableRoute_def noRoute_def)
  qed
  then show ?thesis using supports_none find_Some_in by (fastforce simp: defaultRoute_def Let_def split: option.split)
qed

lemma assignment_roundtrip:
  assumes "PutReactiveAssignment db a now = Inr db'"
  shows "GetReactiveAssignment db' (ra_kind a) (ra_provider a) (ra_value a) =
    Inr (Some \<lparr>ra_kind = TrimSpace (ra_kind a), ra_provider = TrimSpace (ra_provider a), ra_value = TrimSpace (ra_value a), ra_arr = TrimSpace (ra_arr a)\<rparr>)"
proof -
  let ?a = "\<lparr>ra_kind = TrimSpace (ra_kind a), ra_provider = TrimSpace (ra_provider a), ra_value = TrimSpace (ra_value a), ra_arr = TrimSpace (ra_arr a)\<rparr>"
  let ?k = "?a\<lparr>ra_arr := ''''\<rparr>"
  have key: "validAssignmentKey ?k" using assms by (auto simp: PutReactiveAssignment_def Let_def validAssignment_def validAssignmentKey_def split: if_split_asm)
  have upd: "find (\<lambda>x. same_identity (fst x) b) (update_rows (\<lambda>x. same_identity (fst x) b) (\<lambda>(c, created, _). (c\<lparr>ra_arr := n\<rparr>, created, now)) t) =
      map_option (\<lambda>(c, created, _). (c\<lparr>ra_arr := n\<rparr>, created, now)) (find (\<lambda>x. same_identity (fst x) b) t)" for b n and t :: "(ReactiveAssignment \<times> instant \<times> instant) list"
    by (induction t) (auto simp: update_rows_def same_identity_def)
  have "\<exists>x. find (\<lambda>x. same_identity (fst x) ?a) (assignments db') = Some x \<and> ra_arr (fst x) = TrimSpace (ra_arr a)"
  proof (cases "list_ex (\<lambda>x. same_identity (fst x) ?a) (assignments db)")
    case True
    then obtain y1 y2 y3 where "find (\<lambda>x. same_identity (fst x) ?a) (assignments db) = Some (y1, y2, y3)"
      by (metis (no_types, lifting) find_None_iff list_ex_iff option.exhaust prod.collapse)
    then show ?thesis using True assms upd [of ?a "ra_arr ?a" "assignments db"]
      by (auto simp: PutReactiveAssignment_def Let_def split: if_split_asm)
  next
    case False
    then have "find (\<lambda>x. same_identity (fst x) ?a) (assignments db) = None" by (auto simp: find_None_iff list_ex_iff)
    then show ?thesis using False assms
      by (auto simp: PutReactiveAssignment_def Let_def find_append same_identity_def split: if_split_asm)
  qed
  then show ?thesis using key by (auto simp: GetReactiveAssignment_def Let_def same_identity_def)
qed

text \<open>C27: routing is sound. A result without a reason names a configured target that answered for the title; it
  claims ownership only if that target lists the title, and offers an addition only if it does not and the
  target has a root folder and a profile. A result with a reason routes nowhere, and the queue accepts the reason. The tables
  change only to remember an owner, which is then the only one among the targets that answered, and is what the next lookup of that
  title returns. Two owners without a remembered choice are never routed.\<close>

theorem routing_sound:
  assumes "Resolve eqFold ask r db (Some i) now = (Inr res, db')"
  shows "supports eqFold ask r (Some i) res \<and>
    (db' \<noteq> db \<longrightarrow> Owned res \<and> (\<exists>cs t key. compatibleLoop eqFold ask (Some i) (targets_of r) = Inr cs \<and> map fst (filter snd cs) = [t] \<and>
       at_name t = ArrName res \<and> routingKey (Some i) = Some key \<and>
       map_sum id (map_option ra_arr) (GetReactiveAssignment db' (Kind i) (fst key) (snd key)) = Inr (Some (TrimSpace (ArrName res))))) \<and>
    (\<forall>key cs. routingKey (Some i) = Some key \<and> GetReactiveAssignment db (Kind i) (fst key) (snd key) = Inr None \<and>
       compatibleLoop eqFold ask (Some i) (targets_of r) = Inr cs \<and> length (filter snd cs) \<ge> 2 \<longrightarrow> rt_reason res = ''routing_ambiguous'')"
proof (cases "routingKey (Some i)")
  case None
  then show ?thesis using assms supports_none by (auto simp: Resolve_def)
next
  case (Some key)
  obtain provider val where k: "key = (provider, val)" by fastforce
  from assms Some k obtain ao where ao: "GetReactiveAssignment db (Kind i) provider val = Inr ao" by (auto simp: Resolve_def split: sum.split_asm)
  show ?thesis
  proof (cases ao)
    case (Some a)
    then show ?thesis using assms \<open>routingKey (Some i) = Some key\<close> k ao assignedRoute_supported by (auto simp: Resolve_def)
  next
    case None
    with assms \<open>routingKey (Some i) = Some key\<close> k ao obtain cs where cs: "compatibleLoop eqFold ask (Some i) (targets_of r) = Inr cs"
      by (auto simp: Resolve_def split: sum.split_asm)
    let ?owners = "map fst (filter snd cs)"
    note res = assms \<open>routingKey (Some i) = Some key\<close> k ao None cs
    consider (one) "length cs = 1" | (owner) "length cs \<noteq> 1" "length ?owners = 1" | (many) "length cs \<noteq> 1" "length ?owners > 1" | (free) "length cs \<noteq> 1" "?owners = []"
      by (metis One_nat_def length_0_conv less_one linorder_neqE_nat)
    then show ?thesis
    proof cases
      case one
      then obtain t owns where c: "cs = [(t, owns)]" by (metis One_nat_def length_0_conv length_Suc_conv surj_pair)
      have "t \<in> set (targets_of r)" "targetState eqFold ask t (Some i) = Inr (owns, True)" using compatibleLoop_exact [OF cs, of t owns] c by auto
      note sup = supports_target [OF this, of 0]
      have "db' = db" "res = (if \<not> owns then addableRoute t (noRoute\<lparr>ArrName := at_name t, Tier := 0, Owned := owns\<rparr>) else noRoute\<lparr>ArrName := at_name t, Tier := 0, Owned := owns\<rparr>)"
        using res c by (auto simp: Resolve_def Let_def)
      with sup cs c show ?thesis by auto
    next
      case owner
      then obtain t where t: "?owners = [t]" by (metis One_nat_def length_0_conv length_Suc_conv)
      then have "t \<in> set ?owners" by simp
      then have "(t, True) \<in> set cs" by auto
      then have st: "t \<in> set (targets_of r)" "targetState eqFold ask t (Some i) = Inr (True, True)" using compatibleLoop_exact [OF cs] by auto
      from res owner t have put: "PutReactiveAssignment db \<lparr>ra_kind = Kind i, ra_provider = provider, ra_value = val, ra_arr = at_name t\<rparr> now = Inr db'"
        and rr: "res = noRoute\<lparr>ArrName := at_name t, Tier := 1, Owned := True\<rparr>"
        by (auto simp: Resolve_def Let_def split: sum.split_asm)
      have "supports eqFold ask r (Some i) res" using supports_target [OF st, of 1] rr by simp
      then show ?thesis using rr cs t k \<open>routingKey (Some i) = Some key\<close> assignment_roundtrip [OF put] owner
        by (auto simp: noRoute_def)
    next
      case many
      then have "db' = db" "res = noRoute\<lparr>rt_reason := ''routing_ambiguous'', Tier := 3\<rparr>" using res by (auto simp: Resolve_def Let_def)
      then show ?thesis using supports_none by (simp add: noRoute_def)
    next
      case free
      then have e: "filter snd cs = []" by simp
      have "db' = db" "res = defaultRoute r (Kind i) cs" using res free by (auto simp: Resolve_def Let_def)
      then show ?thesis using defaultRoute_supported [OF cs e] cs e by auto
    qed
  qed
qed

lemma visible_not_space: "33 \<le> (of_char c :: nat) \<Longrightarrow> (of_char c :: nat) < 128 \<Longrightarrow> \<not> is_space_lead c \<and> \<not> is_space_last c"
  by (auto simp: is_space_lead_def is_space_last_def space_codes_def)

lemma TrimSpace_visible:
  "s \<noteq> [] \<Longrightarrow> 33 \<le> (of_char (hd s) :: nat) \<and> (of_char (hd s) :: nat) < 128 \<Longrightarrow>
    33 \<le> (of_char (last s) :: nat) \<and> (of_char (last s) :: nat) < 128 \<Longrightarrow> TrimSpace s = s"
  by (rule TrimSpace_id) (simp_all add: visible_not_space)

definition demo_movie :: ProviderIdentity where
  "demo_movie = \<lparr>Kind = ''movie'', Title = ''x'', IDs = \<lparr>TVDB = '''', TMDB = ''42'', IMDB = ''''\<rparr>, Episodes = [], Year = 0, RuntimeMinutes = 0\<rparr>"

definition demo_targets :: "ArrTarget list" where
  "demo_targets = [\<lparr>at_name = ''hd'', BaseURL = '''', APIKey = ''k'', RootFolder = '''', QualityProfile = 0\<rparr>,
     \<lparr>at_name = ''uhd'', BaseURL = '''', APIKey = ''k'', RootFolder = '''', QualityProfile = 0\<rparr>]"

definition demo_arr :: arr_service where
  "demo_arr t path = Inr (200, if at_name t = ''uhd'' then [\<lparr>row_id = 1, TVDBID = 0, TMDBID = 42, IMDBID = ''''\<rparr>] else [])"

theorem routing_sound_witness:
  "\<exists>res db'. Resolve (=) demo_arr \<lparr>targets_of = demo_targets, defaults = []\<rparr> (empty_reactive :: int reactive_db) (Some demo_movie) 5 = (Inr res, db') \<and>
     ArrName res = ''uhd'' \<and> supports (=) demo_arr \<lparr>targets_of = demo_targets, defaults = []\<rparr> (Some demo_movie) res"
proof -
  let ?r = "Resolve (=) demo_arr \<lparr>targets_of = demo_targets, defaults = []\<rparr> (empty_reactive :: int reactive_db) (Some demo_movie) 5"
  have trim: "TrimSpace ''movie'' = ''movie''" "TrimSpace ''tmdb'' = ''tmdb''" "TrimSpace ''42'' = ''42''" "TrimSpace ''uhd'' = ''uhd''"
    by (rule TrimSpace_visible; simp)+
  have k: "routingKey (Some demo_movie) = Some (''tmdb'', ''42'')" "Kind demo_movie = ''movie''" by (simp_all add: routingKey_def demo_movie_def trim)
  have v: "validAssignmentKey \<lparr>ra_kind = ''movie'', ra_provider = ''tmdb'', ra_value = ''42'', ra_arr = ''''\<rparr>"
    "validAssignment \<lparr>ra_kind = ''movie'', ra_provider = ''tmdb'', ra_value = ''42'', ra_arr = ''uhd''\<rparr>" by code_simp+
  have "map_sum id ArrName (fst ?r) = Inr ''uhd''"
    by (simp add: Resolve_def k trim v GetReactiveAssignment_def PutReactiveAssignment_def empty_reactive_def demo_targets_def targetState_def demo_arr_def
        maxArrRows_def zeroTime_def Second_def noRoute_def)
  then obtain res where "fst ?r = Inr res" "ArrName res = ''uhd''" by (cases "fst ?r") auto
  then have r: "?r = (Inr res, snd ?r)" by (metis prod.collapse)
  from routing_sound [OF r] r \<open>ArrName res = ''uhd''\<close> show ?thesis by blast
qed

end
