(* ===== verification/ReactiveService.thy ===== *)
theory ReactiveService
  imports ReactiveRouting
begin

section \<open>Committing played titles\<close>

text \<open>
  \<open>reactivecommit/reactivecommit.go\<close>, \<open>reactivequeue/reactivequeue.go\<close> and \<open>reactivedispatch/dispatcher.go\<close>: a proposal is committed
  to a media manager after its evidence was classified, an operator decides entries of the queue, and a dispatcher works through
  them. The tables are those of \<open>ReactiveStore\<close>, the proofs those of \<open>ProofStore\<close>, the route is the modelled router's.

  The registrar that talks to a media manager, the removal of output files, \<open>os.Stat\<close>, the items table and the identity check are
  fields of \<open>rx_env\<close>; \<open>'x\<close> is the state of the world they act on and \<open>'m\<close> the media facts. Calls of one operation are not
  interleaved with others here. The context of \<open>Commit\<close> and \<open>Undo\<close> is a sequence of readings, one for every call they pass it to; the calls
  of \<open>rx_env\<close> answer as they like.

  Results: a commit that fails leaves the tables as they were unless its context or the one of its clean-up ends at two points that are
  named, one that succeeds is justified by its evidence; the dispatcher accounts for
  every entry it examines and changes the tables by steps of their relation only.
\<close>

subsection \<open>Data\<close>

record Registration =
  rg_arr :: string
  rg_kind :: string
  rg_item :: int
  rg_files :: "int list"
  rg_owner :: bool
  rg_prior :: "bool option"
  rg_episodes :: "(int \<times> bool) list"

record CommitRequest =
  cq_identity :: ProviderIdentity
  cq_path :: string
  cq_target :: string
  cq_root :: string
  cq_profile :: int
  cq_episodes :: bool
  cq_movie :: bool

record 'm Item =
  it_strm :: "string option"
  it_identity :: "ProviderIdentity option"
  it_display :: string
  it_facts :: "'m option"
  it_factsFile :: string

record ('x, 'm) rx_env =
  getItem :: "string \<Rightarrow> (go_error, 'm Item option) result"
  statFile :: "string \<Rightarrow> go_error option"
  verifyIdentity :: "ProviderIdentity \<Rightarrow> string \<Rightarrow> int \<Rightarrow> int \<Rightarrow> 'm option \<Rightarrow> string \<Rightarrow> string list"
  proofs_db :: proof_db
  registrarCommit :: "'x \<Rightarrow> CommitRequest \<Rightarrow> (go_error, Registration) result \<times> 'x"
  registrarUndo :: "'x \<Rightarrow> Registration \<Rightarrow> go_error option \<times> 'x"
  RemoveCommitted :: "'x \<Rightarrow> 'm Item option \<Rightarrow> go_error option \<times> 'x"
  monitorEp :: bool
  monitorMv :: bool

record Commit_Request =
  rq_rep :: string
  rq_mode :: string
  rq_target :: string
  rq_root :: string
  rq_profile :: int

record Commit_Result =
  rs_state :: string
  rs_review :: bool
  rs_reason :: string

definition emptyResult :: Commit_Result where
  "emptyResult = \<lparr>rs_state = '''', rs_review = False, rs_reason = ''''\<rparr>"

definition MaxEpisodes :: int where "MaxEpisodes = 256"

definition ErrArrFileAlreadyPresent :: go_error where
  "ErrArrFileAlreadyPresent = Plain ''reactivecommit: Arr file already present''"

subsection \<open>Classification of the evidence\<close>

fun episodeVerdict :: "('x, 'm) rx_env \<Rightarrow> ProviderIdentity \<Rightarrow> string \<Rightarrow> 'm option \<Rightarrow> EpisodeProviderIDs list \<Rightarrow> string option" where
  "episodeVerdict env i disp facts [] = None"
| "episodeVerdict env i disp facts (ep # eps) =
     (case verifyIdentity env i disp (e_season ep) (e_episode ep) facts '''' of
        v # _ \<Rightarrow> Some v
      | [] \<Rightarrow> episodeVerdict env i disp facts eps)"

definition identityVerdict :: "('x, 'm) rx_env \<Rightarrow> ProviderIdentity \<Rightarrow> string \<Rightarrow> 'm option \<Rightarrow> string option" where
  "identityVerdict env i disp facts =
     (if Kind i = ''series'' \<and> Episodes i \<noteq> [] then episodeVerdict env i disp facts (Episodes i)
      else case verifyIdentity env i disp 0 0 facts '''' of v # _ \<Rightarrow> Some v | [] \<Rightarrow> None)"

definition strongProof :: "Evidence \<Rightarrow> bool" where
  "strongProof p \<longleftrightarrow> Kind_of p = KindAuthoritative \<and>
     Provenance_of p \<in> {ProvenancePAR2IFSC, ProvenanceHTTPDigest, ProvenanceTorrentMerkle, ProvenanceIADigest}"

definition classify :: "('x, 'm) rx_env \<Rightarrow> (nat \<Rightarrow> go_error option) \<Rightarrow> 'f Proposal \<Rightarrow> 'm Item \<Rightarrow> ProviderIdentity \<Rightarrow> instant \<Rightarrow> (go_error, string \<times> bool) result" where
  "classify env ctx proposal item i now =
     (let facts = (if it_factsFile item \<noteq> '''' \<and> it_factsFile item \<noteq> pr_file proposal then None else it_facts item) in
      case identityVerdict env i (it_display item) facts of
        Some v \<Rightarrow> Inr (''identity_'' @ v, False)
      | None \<Rightarrow>
          (case (case ctx 6 of Some e \<Rightarrow> Inl e | None \<Rightarrow> ListContinuity (proofs_db env) (pr_rep proposal)) of
             Inl e \<Rightarrow> Inl e
           | Inr ces \<Rightarrow>
               if list_ex (\<lambda>entry. ce_relation entry = ContinuityConflict) ces then Inr (''continuity_conflict'', False)
               else case (case ctx 7 of Some e \<Rightarrow> Inl e | None \<Rightarrow> ListContentProofs (proofs_db env) [pr_rep proposal] now) of
                 Inl e \<Rightarrow> Inl e
               | Inr ps \<Rightarrow> Inr ('''', list_ex strongProof ps)))"

subsection \<open>Commit and undo\<close>

text \<open>The deferred clean-up: an error after the record was created aborts it, under a context of its own that ends after ten seconds.\<close>

definition cleanup :: "go_error option \<Rightarrow> string \<Rightarrow> (go_error, Commit_Result) result \<times> 'f reactive_db \<times> 'x \<Rightarrow> (go_error, Commit_Result) result \<times> 'f reactive_db \<times> 'x" where
  "cleanup cleanupCtx rid out =
     (case out of
        (Inr v, db, x) \<Rightarrow> (Inr v, db, x)
      | (Inl e, db, x) \<Rightarrow>
          (case (case cleanupCtx of Some a \<Rightarrow> Inl a | None \<Rightarrow> AbortReactiveCommit db rid) of
             Inl a \<Rightarrow> (Inl (Joined [e, a]), db, x)
           | Inr db' \<Rightarrow> (Inl (Joined [e]), db', x)))"

definition register :: "('x, 'm) rx_env \<Rightarrow> (nat \<Rightarrow> go_error option) \<Rightarrow> instant \<Rightarrow> 'f reactive_db \<Rightarrow> 'x \<Rightarrow> ReactiveCommit \<Rightarrow> Commit_Request \<Rightarrow> ProviderIdentity \<Rightarrow> string \<Rightarrow> bool \<Rightarrow>
  (go_error, Commit_Result) result \<times> 'f reactive_db \<times> 'x" where
  "register env ctx now db x record0 req i path strong =
     (case registrarCommit env x \<lparr>cq_identity = i, cq_path = path, cq_target = rq_target req, cq_root = rq_root req, cq_profile = rq_profile req,
             cq_episodes = monitorEp env, cq_movie = monitorMv env\<rparr> of
        (Inl e, x1) \<Rightarrow> (Inl e, db, x1)
      | (Inr g, x1) \<Rightarrow>
          (let r = record0\<lparr>rc_arr := rg_arr g, rc_kind := rg_kind g, rc_arrItem := rg_item g, rc_files := rg_files g, rc_episodes := rg_episodes g,
                     rc_owner := rg_owner g, rc_prior := rg_prior g, rc_review := \<not> strong,
                     rc_reason := (if \<not> strong then ''weak_evidence'' else rc_reason record0)\<rparr>
           in case (case ctx 8 of Some e \<Rightarrow> Inl e | None \<Rightarrow> CompleteReactiveCommit db r now) of
                Inl e \<Rightarrow> (Inl e, db, snd (registrarUndo env x1 g))
              | Inr db' \<Rightarrow> (Inr \<lparr>rs_state = ''committed'', rs_review = rc_review r, rs_reason = rc_reason r\<rparr>, db', x1)))"

definition commitCreated :: "('x, 'm) rx_env \<Rightarrow> (nat \<Rightarrow> go_error option) \<Rightarrow> (nat \<Rightarrow> instant) \<Rightarrow> 'f reactive_db \<Rightarrow> 'x \<Rightarrow> ReactiveCommit \<Rightarrow> Commit_Request \<Rightarrow> 'f Proposal \<Rightarrow>
  (go_error, Commit_Result) result \<times> 'f reactive_db \<times> 'x" where
  "commitCreated env ctx clk db x record0 req proposal =
     (case getItem env (pr_item proposal) of
        Inl e \<Rightarrow> (Inl e, db, x)
      | Inr None \<Rightarrow> (Inl (Plain ''reactivecommit: incomplete proposal identity or output''), db, x)
      | Inr (Some item) \<Rightarrow>
          (case (it_strm item, it_identity item) of
             (Some path, Some i) \<Rightarrow>
               if path = '''' then (Inl (Plain ''reactivecommit: incomplete proposal identity or output''), db, x)
               else if int (length (Episodes i)) > MaxEpisodes then (Inl (Plain ''reactivecommit: episode bound exceeded''), db, x)
               else (case statFile env path of
                 Some e \<Rightarrow> (Inl (Wrapped ''reactivecommit: committed source unavailable: '' e), db, x)
               | None \<Rightarrow>
                   (case classify env ctx proposal item i (clk 1) of
                      Inl e \<Rightarrow> (Inl e, db, x)
                    | Inr (reason, strong) \<Rightarrow>
                        if reason \<noteq> '''' then
                          (case (case ctx 8 of Some e \<Rightarrow> Inl e | None \<Rightarrow> ParkReactiveCommit db (pr_rep proposal) reason (clk 2)) of
                             Inl e \<Rightarrow> (Inl e, db, x)
                           | Inr db' \<Rightarrow> (Inr \<lparr>rs_state = ''parked'', rs_review = False, rs_reason = reason\<rparr>, db', x))
                        else register env ctx (clk 2) db x record0 req i path strong))
           | _ \<Rightarrow> (Inl (Plain ''reactivecommit: incomplete proposal identity or output''), db, x)))"

text \<open>
  The readings of the context: 0 at entry, 1 for the proposal, 2 to 5 for \<open>BeginReactiveCommit\<close> (its INSERT and the three queries of
  its read), 6 and 7 for the two lists of \<open>classify\<close>, 8 for parking or completing; reading 9 is the clean-up's own context.
\<close>

definition Commit :: "('x, 'm) rx_env \<Rightarrow> (nat \<Rightarrow> go_error option) \<Rightarrow> (nat \<Rightarrow> instant) \<Rightarrow> 'f reactive_db \<Rightarrow> 'x \<Rightarrow> Commit_Request \<Rightarrow>
  (go_error, Commit_Result) result \<times> 'f reactive_db \<times> 'x" where
  "Commit env ctx clk db x req =
     (case ctx 0 of
        Some e \<Rightarrow> (Inl e, db, x)
      | None \<Rightarrow>
          if rq_rep req = '''' \<or> (rq_mode req \<noteq> ''auto'' \<and> rq_mode req \<noteq> ''supervised'') then (Inl (Plain ''reactivecommit: invalid request''), db, x)
          else case ctx 1 of
            Some e \<Rightarrow> (Inl e, db, x)
          | None \<Rightarrow>
          case GetPlaybackProposal (playback_proposals db) (rq_rep req) of
            None \<Rightarrow> (Inl (Plain ''reactivecommit: proposal not found''), db, x)
          | Some p \<Rightarrow>
              (case BeginReactiveCommit (\<lambda>d. d) (\<lambda>n. ctx (n + 2)) db (pr_rep p) (pr_item p) (pr_file p) (rq_mode req) (clk 0) of
                 (Inl e, db1) \<Rightarrow> (Inl e, db1, x)
               | (Inr (record0, created), db1) \<Rightarrow>
                   if rc_state record0 = ''committed'' \<or> rc_state record0 = ''parked''
                     then (Inr \<lparr>rs_state = rc_state record0, rs_review = rc_review record0, rs_reason = rc_reason record0\<rparr>, db1, x)
                   else if \<not> created then (Inl (Plain ''reactivecommit: commit already in progress''), db1, x)
                   else cleanup (ctx 9) (pr_rep p) (commitCreated env ctx clk db1 x record0 req p)))"

text \<open>The readings of the context: 0 to 3 for \<open>BeginReactiveUndo\<close>, 4 for \<open>CompleteReactiveUndo\<close>.\<close>

definition Undo :: "('x, 'm) rx_env \<Rightarrow> (nat \<Rightarrow> go_error option) \<Rightarrow> (nat \<Rightarrow> instant) \<Rightarrow> 'f reactive_db \<Rightarrow> 'x \<Rightarrow> string \<Rightarrow> go_error option \<times> 'f reactive_db \<times> 'x" where
  "Undo env ctx clk db x rid =
     (if rid = '''' then (Some (Plain ''reactivecommit: empty representation''), db, x)
      else case BeginReactiveUndo (\<lambda>d. d) ctx db rid (clk 0) of
        (Inl e, db1) \<Rightarrow> (Some e, db1, x)
      | (Inr r, db1) \<Rightarrow>
          if rc_state r = ''undone'' then (None, db1, x)
          else
            (case registrarUndo env x \<lparr>rg_arr = rc_arr r, rg_kind = rc_kind r, rg_item = rc_arrItem r, rg_files = rc_files r, rg_owner = rc_owner r,
                    rg_prior = rc_prior r, rg_episodes = rc_episodes r\<rparr> of
               (Some e, x1) \<Rightarrow> (Some e, db1, x1)
             | (None, x1) \<Rightarrow>
                 (case getItem env (rc_item r) of
                    Inl e \<Rightarrow> (Some e, db1, x1)
                  | Inr item \<Rightarrow>
                      (case RemoveCommitted env x1 item of
                         (Some e, x2) \<Rightarrow> (Some e, db1, x2)
                       | (None, x2) \<Rightarrow>
                           (case (case ctx 4 of Some e \<Rightarrow> Inl e | None \<Rightarrow> CompleteReactiveUndo db1 rid (clk 1)) of
                              Inl e \<Rightarrow> (Some e, db1, x2)
                            | Inr db2 \<Rightarrow> (None, db2, x2))))))"

subsection \<open>The operator's queue\<close>

record Queue_Decision =
  qd_rep :: string
  qd_action :: string
  qd_arr :: string
  qd_root :: string
  qd_profile :: int

definition ListQueue :: "go_error option \<Rightarrow> (nat \<Rightarrow> instant) \<Rightarrow> 'f reactive_db \<Rightarrow> string \<Rightarrow> int \<Rightarrow> (go_error, ReactivePending list) result \<times> 'f reactive_db" where
  "ListQueue ctx clk db after limit =
     (case ctx of Some e \<Rightarrow> (Inl e, db)
      | None \<Rightarrow>
          (case SyncReactivePending db (clk 0) of
             Inl e \<Rightarrow> (Inl e, db)
           | Inr db1 \<Rightarrow> (ListReactivePending db1 after limit, db1)))"

definition requeue :: "'f reactive_db \<Rightarrow> ReactivePending \<Rightarrow> string \<Rightarrow> instant \<Rightarrow> go_error option \<times> 'f reactive_db" where
  "requeue db entry reason now =
     (case EnqueueReactivePending db (rp_rep entry) (rp_item entry) reason now of Inl e \<Rightarrow> (Some e, db) | Inr db' \<Rightarrow> (None, db'))"

definition decideCommit :: "('x, 'm) rx_env \<Rightarrow> (nat \<Rightarrow> go_error option) \<Rightarrow> (nat \<Rightarrow> instant) \<Rightarrow> 'f reactive_db \<Rightarrow> 'x \<Rightarrow> ReactivePending \<Rightarrow> Queue_Decision \<Rightarrow>
  (Commit_Result \<times> go_error option) \<times> 'f reactive_db \<times> 'x" where
  "decideCommit env ctx clk db x entry d =
     (if qd_action d = ''assign'' \<and> qd_arr d = '''' then ((emptyResult, Some (Plain ''reactivequeue: assignment requires Arr target'')), db, x)
      else case Commit env (\<lambda>n. ctx (n + 1)) (\<lambda>n. clk (n + 1)) db x
          \<lparr>rq_rep = qd_rep d, rq_mode = ''supervised'', rq_target = qd_arr d, rq_root = qd_root d, rq_profile = qd_profile d\<rparr> of
        (Inl e, db1, x1) \<Rightarrow> ((emptyResult, Some e), db1, x1)
      | (Inr v, db1, x1) \<Rightarrow>
          if rs_state v = ''parked'' then
            (case requeue db1 entry ''positive_mismatch'' (clk 4) of (err, db2) \<Rightarrow> ((v, err), db2, x1))
          else if rs_review v then
            (case requeue db1 entry ''weak_evidence'' (clk 4) of (err, db2) \<Rightarrow> ((v, err), db2, x1))
          else
            (case ResolveReactivePending (\<lambda>_ y. y) db1 (rp_rep entry) (qd_action d) (qd_arr d) (clk 4) of (err, db2) \<Rightarrow> ((v, err), db2, x1)))"

definition Decide :: "('x, 'm) rx_env \<Rightarrow> (nat \<Rightarrow> go_error option) \<Rightarrow> (nat \<Rightarrow> instant) \<Rightarrow> 'f reactive_db \<Rightarrow> 'x \<Rightarrow> Queue_Decision \<Rightarrow>
  (Commit_Result \<times> go_error option) \<times> 'f reactive_db \<times> 'x" where
  "Decide env ctx clk db0 x d =
     (let resolve = (\<lambda>db arr x1 st. case ResolveReactivePending (\<lambda>_ y. y) db (qd_rep d) (qd_action d) arr (clk 4) of
            (err, db2) \<Rightarrow> ((emptyResult\<lparr>rs_state := st\<rparr>, err), db2, x1))
      in case ctx 0 of Some e \<Rightarrow> ((emptyResult, Some e), db0, x)
      | None \<Rightarrow>
          (case SyncReactivePending db0 (clk 0) of
             Inl e \<Rightarrow> ((emptyResult, Some e), db0, x)
           | Inr db \<Rightarrow>
               (case GetReactivePending db (qd_rep d) of
                  None \<Rightarrow> ((emptyResult, Some (Plain ''reactivequeue: pending entry unavailable'')), db, x)
                | Some entry \<Rightarrow>
                    if rp_state entry \<noteq> ''pending'' then ((emptyResult, Some (Plain ''reactivequeue: pending entry unavailable'')), db, x)
                    else if qd_action d = ''approve'' \<or> qd_action d = ''assign'' then decideCommit env ctx clk db x entry d
                    else if qd_action d = ''jellyfin_only'' \<or> qd_action d = ''acknowledge'' then resolve db (qd_arr d) x ''resolved''
                    else if qd_action d = ''remove'' then
                      (case GetPlaybackProposal (playback_proposals db) (rp_rep entry) of
                         None \<Rightarrow> ((emptyResult, Some (Plain ''reactivequeue: proposal unavailable'')), db, x)
                       | Some p \<Rightarrow>
                           (case getItem env (pr_item p) of
                              Inl e \<Rightarrow> ((emptyResult, Some e), db, x)
                            | Inr None \<Rightarrow> ((emptyResult, Some (Plain ''reactivequeue: item unavailable'')), db, x)
                            | Inr (Some item) \<Rightarrow>
                                (case RemoveCommitted env x (Some item) of
                                   (Some e, x1) \<Rightarrow> ((emptyResult, Some e), db, x1)
                                 | (None, x1) \<Rightarrow> resolve db '''' x1 ''resolved'')))
                    else if qd_action d = ''undo'' then
                      (case Undo env (\<lambda>n. ctx (n + 1)) (\<lambda>n. clk (n + 1)) db x (rp_rep entry) of
                         (Some e, db1, x1) \<Rightarrow> ((emptyResult, Some e), db1, x1)
                       | (None, db1, x1) \<Rightarrow> resolve db1 '''' x1 ''undone'')
                    else ((emptyResult, Some (Plain ''reactivequeue: invalid decision'')), db, x))))"

definition Actions :: "string \<Rightarrow> string list" where
  "Actions reason =
     (if reason = ''supervised_review'' then [''approve'', ''assign'', ''jellyfin_only'', ''remove'']
      else if reason = ''weak_evidence'' then [''acknowledge'', ''undo'']
      else if reason = ''positive_mismatch'' then [''jellyfin_only'', ''remove'']
      else if reason = ''routing_unresolved'' \<or> reason = ''routing_ambiguous'' then [''assign'', ''jellyfin_only'', ''remove'']
      else [])"

subsection \<open>The dispatcher\<close>

definition BatchSize :: nat where "BatchSize = 25"

record Dispatch_Result =
  Examined :: nat
  Committed :: nat
  Parked :: nat
  Errors :: nat

definition noDispatch :: Dispatch_Result where
  "noDispatch = \<lparr>Examined = 0, Committed = 0, Parked = 0, Errors = 0\<rparr>"

text \<open>\<open>errors.Is\<close>.\<close>

fun errorIs :: "go_error \<Rightarrow> go_error \<Rightarrow> bool" where
  "errorIs target (Plain s) = (target = Plain s)"
| "errorIs target (Wrapped s e) = (target = Wrapped s e \<or> errorIs target e)"
| "errorIs target (Joined es) = (target = Joined es \<or> list_ex (errorIs target) es)"
| "errorIs target (RetryableError e) = (target = RetryableError e \<or> errorIs target e)"
| "errorIs target (classified e c) = (target = classified e c \<or> errorIs target e)"
| "errorIs target (HTTPError c s n ce) = (target = HTTPError c s n ce \<or> (case ce of None \<Rightarrow> False | Some e \<Rightarrow> errorIs target e))"

type_synonym 'f router = "'f reactive_db \<Rightarrow> ProviderIdentity option \<Rightarrow> instant \<Rightarrow> (go_error, RouteResult) result \<times> 'f reactive_db"

definition failed :: "Dispatch_Result \<Rightarrow> Dispatch_Result" where
  "failed r = r\<lparr>Errors := Errors r + 1\<rparr>"

definition parked :: "Dispatch_Result \<Rightarrow> Dispatch_Result" where
  "parked r = r\<lparr>Parked := Parked r + 1\<rparr>"

definition parkEntry :: "Dispatch_Result \<Rightarrow> 'f reactive_db \<Rightarrow> 'x \<Rightarrow> ReactivePending \<Rightarrow> string \<Rightarrow> instant \<Rightarrow> Dispatch_Result \<times> 'f reactive_db \<times> 'x" where
  "parkEntry res db x entry reason now =
     (case requeue db entry reason now of (Some _, db1) \<Rightarrow> (failed res, db1, x) | (None, db1) \<Rightarrow> (parked res, db1, x))"

definition dispatchCommit :: "('x, 'm) rx_env \<Rightarrow> (nat \<Rightarrow> go_error option) \<Rightarrow> (nat \<Rightarrow> instant) \<Rightarrow> Dispatch_Result \<Rightarrow> 'f reactive_db \<Rightarrow> 'x \<Rightarrow> ReactivePending \<Rightarrow>
  RouteResult \<Rightarrow> Dispatch_Result \<times> 'f reactive_db \<times> 'x" where
  "dispatchCommit env ctx clk res db x entry route =
     (case Commit env ctx clk db x \<lparr>rq_rep = rp_rep entry, rq_mode = ''auto'', rq_target = ArrName route, rq_root = rt_root route, rq_profile = rt_profile route\<rparr> of
        (Inl e, db1, x1) \<Rightarrow>
          if errorIs ErrArrFileAlreadyPresent e then
            (case ResolveReactivePending (\<lambda>_ y. y) db1 (rp_rep entry) ''jellyfin_only'' '''' (clk 4) of
               (Some _, db2) \<Rightarrow> (failed res, db2, x1)
             | (None, db2) \<Rightarrow> (parked res, db2, x1))
          else (failed res, db1, x1)
      | (Inr v, db1, x1) \<Rightarrow>
          if rs_state v = ''committed'' then
            (if rs_review v then (parked res, db1, x1)
             else case ResolveReactivePending (\<lambda>_ y. y) db1 (rp_rep entry) ''approve'' (ArrName route) (clk 4) of
               (Some _, db2) \<Rightarrow> (failed res, db2, x1)
             | (None, db2) \<Rightarrow> (res\<lparr>Committed := Committed res + 1\<rparr>, db2, x1))
          else if rs_state v = ''parked'' \<or> rs_state v = ''pending'' then (parked res, db1, x1)
          else (failed res, db1, x1))"

definition dispatchEntry :: "'f router \<Rightarrow> ('x, 'm) rx_env \<Rightarrow> (nat \<Rightarrow> go_error option) \<Rightarrow> (nat \<Rightarrow> instant) \<Rightarrow> Dispatch_Result \<Rightarrow> 'f reactive_db \<Rightarrow> 'x \<Rightarrow> ReactivePending \<Rightarrow>
  Dispatch_Result \<times> 'f reactive_db \<times> 'x" where
  "dispatchEntry route env ctx clk res0 db x entry =
     (let res = res0\<lparr>Examined := Examined res0 + 1\<rparr> in
      case GetPlaybackProposal (playback_proposals db) (rp_rep entry) of
        None \<Rightarrow> (failed res, db, x)
      | Some p \<Rightarrow>
          (case getItem env (pr_item p) of
             Inl _ \<Rightarrow> (failed res, db, x)
           | Inr None \<Rightarrow> (failed res, db, x)
           | Inr (Some item) \<Rightarrow>
               (case it_identity item of
                  None \<Rightarrow> parkEntry res db x entry ''routing_unresolved'' (clk 5)
                | Some i \<Rightarrow>
                    (case route db (Some i) (clk 6) of
                       (Inl _, db1) \<Rightarrow> (failed res, db1, x)
                     | (Inr rt, db1) \<Rightarrow>
                         if ArrName rt = '''' \<or> (\<not> Owned rt \<and> \<not> Declared rt)
                           then parkEntry res db1 x entry (if rt_reason rt = '''' then ''routing_unresolved'' else rt_reason rt) (clk 5)
                         else dispatchCommit env ctx clk res db1 x entry rt))))"

text \<open>\<open>ctx n\<close> and \<open>clk n\<close> are the readings during the entry at position \<open>n\<close>.\<close>

fun processLoop :: "'f router \<Rightarrow> ('x, 'm) rx_env \<Rightarrow> (nat \<Rightarrow> nat \<Rightarrow> go_error option) \<Rightarrow> (nat \<Rightarrow> nat \<Rightarrow> instant) \<Rightarrow> nat \<Rightarrow> Dispatch_Result \<Rightarrow> 'f reactive_db \<Rightarrow> 'x \<Rightarrow>
  ReactivePending list \<Rightarrow> (Dispatch_Result \<times> go_error option) \<times> 'f reactive_db \<times> 'x" where
  "processLoop route env ctx clk n res db x [] = ((res, None), db, x)"
| "processLoop route env ctx clk n res db x (entry # es) =
     (case ctx n 0 of
        Some e \<Rightarrow> ((res, Some e), db, x)
      | None \<Rightarrow>
          if rp_reason entry \<noteq> ''supervised_review'' then processLoop route env ctx clk (Suc n) res db x es
          else case dispatchEntry route env (\<lambda>k. ctx n (k + 1)) (clk n) res db x entry of
            (res1, db1, x1) \<Rightarrow> processLoop route env ctx clk (Suc n) res1 db1 x1 es)"

text \<open>A page of the queue after the cursor, from the start again when nothing is left.\<close>

definition nextPage :: "'f reactive_db \<Rightarrow> string \<Rightarrow> (go_error, ReactivePending list) result" where
  "nextPage db after =
     (case ListReactivePending db after (int BatchSize) of
        Inl e \<Rightarrow> Inl e
      | Inr es \<Rightarrow> if es = [] \<and> after \<noteq> '''' then ListReactivePending db '''' (int BatchSize) else Inr es)"

definition Process :: "'f router \<Rightarrow> ('x, 'm) rx_env \<Rightarrow> string \<Rightarrow> go_error option \<Rightarrow> instant \<Rightarrow> (nat \<Rightarrow> nat \<Rightarrow> go_error option) \<Rightarrow> (nat \<Rightarrow> nat \<Rightarrow> instant) \<Rightarrow>
  string \<Rightarrow> 'f reactive_db \<Rightarrow> 'x \<Rightarrow> ((Dispatch_Result \<times> go_error option) \<times> string) \<times> 'f reactive_db \<times> 'x" where
  "Process route env mode ctx0 now ctx clk after db x =
     (case ctx0 of
        Some e \<Rightarrow> (((noDispatch, Some e), after), db, x)
      | None \<Rightarrow>
          if mode = ''off'' then (((noDispatch, None), after), db, x)
          else case SyncReactivePending db now of
            Inl e \<Rightarrow> (((noDispatch, Some e), after), db, x)
          | Inr db1 \<Rightarrow>
              if mode = ''supervised'' then (((noDispatch, None), after), db1, x)
              else case nextPage db1 after of
                Inl e \<Rightarrow> (((noDispatch, Some e), after), db1, x)
              | Inr es \<Rightarrow>
                  (case processLoop route env ctx clk 0 noDispatch db1 x es of
                     (out, db2, x2) \<Rightarrow> ((out, if length es = BatchSize then rp_rep (last es) else ''''), db2, x2)))"

subsection \<open>A commit is justified or leaves no trace\<close>

lemma proposal_found: "GetPlaybackProposal (playback_proposals db) rid = Some p \<Longrightarrow> pr_rep p = rid \<and> has_proposal db rid"
  unfolding GetPlaybackProposal_def has_proposal_def by (drule find_Some_in) (auto simp: list_ex_iff)

lemma reopen_row:
  assumes "has_proposal db (rc_rep c)"
  shows "\<exists>q. GetReactivePending (reopen reason c db) (rc_rep c) = Some q \<and> rp_reason q = reason \<and> rp_state q = ''pending''"
proof (cases "list_ex (\<lambda>p. rp_rep p = rc_rep c) (pendings db)")
  case True
  then obtain q where q: "find (\<lambda>p. rp_rep p = rc_rep c) (pendings db) = Some q"
    by (metis (no_types, lifting) find_None_iff list_ex_iff option.exhaust)
  then show ?thesis using True assms find_Some_in [OF q] by (simp add: reopen_def GetReactivePending_def find_update_rows)
next
  case False
  then have "find (\<lambda>p. rp_rep p = rc_rep c) (pendings db) = None" by (auto simp: find_None_iff list_ex_iff)
  then show ?thesis using False assms by (simp add: reopen_def GetReactivePending_def find_append)
qed

lemma commitCreated_error:
  assumes "commitCreated env ctx clk db x r0 req p = (Inl e, db', x')"
  shows "db' = db"
  using assms by (auto simp: commitCreated_def register_def Let_def split: sum.split_asm option.split_asm prod.split_asm if_split_asm)

lemma commitCreated_step:
  assumes "commitCreated env ctx clk db x r0 req p = (out, db', x')"
  shows "rx_run db db'"
proof (cases out)
  case (Inl e)
  then have "db' = db" using commitCreated_error [OF assms [unfolded Inl]] by simp
  then show ?thesis by simp
next
  case (Inr v)
  have "rx_step db db'" using assms Inr rx_step.park [of db _ _ _ db'] rx_step.complete [of db _ _ db']
    by (auto simp: commitCreated_def register_def Let_def split: sum.split_asm option.split_asm prod.split_asm if_split_asm)
  then show ?thesis by blast
qed

lemma begin_cases:
  assumes "BeginReactiveCommit (\<lambda>d. d) cx db rid item fil mode now = (out, db1)"
  obtains (refused) e where "out = Inl e" "db1 = db"
  | (cut) e where "out = Inl e" "insertCommit rid item fil mode now db = (True, db1)" "commit_at db rid = None" "\<exists>n \<in> {1, 2, 3}. cx n \<noteq> None"
  | (old) r where "out = Inr (r, False)" "db1 = db" "GetReactiveCommit db rid = Some r"
  | (fresh) r where "out = Inr (r, True)" "insertCommit rid item fil mode now db = (True, db1)" "GetReactiveCommit db1 rid = Some r" "commit_at db rid = None"
      "rc_state r = ''committing''" "rc_rep r = rid" "rc_reason r = ''''" "rid \<noteq> ''''"
proof (cases "rid = '''' \<or> item = '''' \<or> fil = '''' \<or> (mode \<noteq> ''auto'' \<and> mode \<noteq> ''supervised'') \<or> now = zeroTime \<or> cx 0 \<noteq> None")
  case True
  then show ?thesis using assms refused by (auto simp: BeginReactiveCommit_def split: if_split_asm)
next
  case False
  note valid = False
  show ?thesis
  proof (cases "list_ex (\<lambda>r. rc_rep r = rid) (commits db)")
    case True
    then have ins: "insertCommit rid item fil mode now db = (False, db)" by (simp add: insertCommit_def)
    from True have "commit_at db rid \<noteq> None" by (auto simp: commit_at_def find_None_iff list_ex_iff)
    then obtain r where r: "GetReactiveCommit db rid = Some r" using commit_at_get(1) by (metis option.exhaust)
    have "fetchCommit (\<lambda>n. cx (n + 1)) db rid = Inr (Some r) \<or> isl (fetchCommit (\<lambda>n. cx (n + 1)) db rid)"
      using fetchCommit_found [of "\<lambda>n. cx (n + 1)" db rid] r by (cases "fetchCommit (\<lambda>n. cx (n + 1)) db rid") auto
    then show ?thesis using assms valid ins refused old [of r] r
      by (cases "fetchCommit (\<lambda>n. cx (n + 1)) db rid") (auto simp: BeginReactiveCommit_def Let_def split: if_split_asm)
  next
    case False
    let ?c = "emptyCommit\<lparr>rc_rep := rid, rc_item := item, rc_file := fil, rc_state := ''committing'', rc_mode := mode, rc_created := now, rc_updated := now\<rparr>"
    let ?db1 = "db\<lparr>commits := commits db @ [?c]\<rparr>"
    have ins: "insertCommit rid item fil mode now db = (True, ?db1)" using False by (simp add: insertCommit_def)
    have none: "commit_at db rid = None" using False by (auto simp: commit_at_def find_None_iff list_ex_iff)
    then obtain fs es where g: "GetReactiveCommit ?db1 rid = Some (?c\<lparr>rc_files := fs, rc_episodes := es\<rparr>)"
      by (simp add: GetReactiveCommit_def commit_at_def find_append)
    have v: "(rid = '''' \<or> item = '''' \<or> fil = '''' \<or> (mode \<noteq> ''auto'' \<and> mode \<noteq> ''supervised'') \<or> now = zeroTime) = False" "cx 0 = None"
      using valid by blast+
    show ?thesis
    proof (cases "fetchCommit (\<lambda>n. cx (n + 1)) ?db1 rid")
      case (Inl e)
      have "(Inl e, ?db1) = (out, db1)"
        using assms by (simp only: BeginReactiveCommit_def v if_False option.case ins Let_def prod.case Inl sum.case)
      then have "out = Inl e" "db1 = ?db1" by simp_all
      then show ?thesis using cut [of e] ins none fetchCommit_failed [OF Inl] by (auto simp: numeral_eq_Suc)
    next
      case (Inr ro)
      then have ro: "ro = Some (?c\<lparr>rc_files := fs, rc_episodes := es\<rparr>)" using fetchCommit_found [OF Inr] g by simp
      have run: "out = Inr (?c\<lparr>rc_files := fs, rc_episodes := es\<rparr>, True) \<and> db1 = ?db1"
        using assms unfolding BeginReactiveCommit_def v if_False option.case ins Let_def prod.case Inr ro sum.case by simp
      show ?thesis
      proof (rule fresh)
        show "out = Inr (?c\<lparr>rc_files := fs, rc_episodes := es\<rparr>, True)" using run by blast
        show "insertCommit rid item fil mode now db = (True, db1)"
          "GetReactiveCommit db1 rid = Some (?c\<lparr>rc_files := fs, rc_episodes := es\<rparr>)" using run ins g by simp_all
      qed (use none valid in \<open>simp_all add: emptyCommit_def\<close>)
    qed
  qed
qed

lemma abort_restores:
  assumes "insertCommit rid item fil mode now db = (True, db1)" and "commit_at db rid = None" and inv: "rx_inv db" and "rid \<noteq> ''''"
  shows "AbortReactiveCommit db1 rid = Inr db"
proof -
  let ?c = "emptyCommit\<lparr>rc_rep := rid, rc_item := item, rc_file := fil, rc_state := ''committing'', rc_mode := mode, rc_created := now, rc_updated := now\<rparr>"
  have db1: "db1 = db\<lparr>commits := commits db @ [?c]\<rparr>" using assms(1) by (auto simp: insertCommit_def split: if_split_asm)
  have none: "\<forall>c \<in> set (commits db). rc_rep c \<noteq> rid" using assms(2) by (auto simp: commit_at_def find_None_iff)
  then have nf: "\<not> filed (commits db) rid" by (auto simp: filed_def)
  have "filter (\<lambda>r. \<not> in_state rid ''committing'' r) (commits db @ [?c]) = commits db"
    using none by (simp add: in_state_def filter_id_conv)
  moreover have "filter (\<lambda>x. fst x \<noteq> rid) (commit_files db) = commit_files db" "filter (\<lambda>x. fst x \<noteq> rid) (commit_episodes db) = commit_episodes db"
    "filter (\<lambda>p. pm_rep p \<noteq> rid) (promotions db) = promotions db"
    using inv nf unfolding rx_inv_def commits_ok_def promotions_ok_def filter_id_conv by metis+
  ultimately show ?thesis using assms(4) by (simp add: AbortReactiveCommit_def db1 in_state_def)
qed

definition contradicted :: "('x, 'm) rx_env \<Rightarrow> 'f Proposal \<Rightarrow> 'm Item \<Rightarrow> ProviderIdentity \<Rightarrow> bool" where
  "contradicted env p item i \<longleftrightarrow>
     identityVerdict env i (it_display item) (if it_factsFile item \<noteq> '''' \<and> it_factsFile item \<noteq> pr_file p then None else it_facts item) \<noteq> None \<or>
     (\<exists>ces. ListContinuity (proofs_db env) (pr_rep p) = Inr ces \<and> (\<exists>entry \<in> set ces. ce_relation entry = ContinuityConflict))"

lemma classify_decides:
  assumes "classify env ctx p item i now = Inr (reason, strong)"
  shows "reason \<noteq> '''' \<longleftrightarrow> contradicted env p item i"
    "reason = '''' \<Longrightarrow> \<exists>ps. ListContentProofs (proofs_db env) [pr_rep p] now = Inr ps \<and> (strong \<longleftrightarrow> (\<exists>x \<in> set ps. strongProof x))"
  using assms by (auto simp: classify_def contradicted_def Let_def list_ex_iff split: option.split_asm sum.split_asm if_split_asm)

text \<open>What a commit that was made now says about its proposal.\<close>

definition justified :: "('x, 'm) rx_env \<Rightarrow> instant \<Rightarrow> 'f Proposal \<Rightarrow> 'f reactive_db \<Rightarrow> Commit_Result \<Rightarrow> bool" where
  "justified env now p db' v \<longleftrightarrow> (\<exists>item i. getItem env (pr_item p) = Inr (Some item) \<and> it_identity item = Some i \<and>
     (rs_state v = ''parked'' \<longleftrightarrow> contradicted env p item i) \<and>
     (rs_state v = ''committed'' \<longrightarrow> (\<exists>ps. ListContentProofs (proofs_db env) [pr_rep p] now = Inr ps \<and> (rs_review v \<longleftrightarrow> \<not> (\<exists>x \<in> set ps. strongProof x)))) \<and>
     (rs_state v = ''parked'' \<or> rs_review v \<longrightarrow> (\<exists>q. GetReactivePending db' (pr_rep p) = Some q \<and> rp_state q = ''pending'' \<and>
        rp_reason q = (if rs_state v = ''parked'' then ''positive_mismatch'' else ''weak_evidence''))))"

definition reported :: "'f reactive_db \<Rightarrow> string \<Rightarrow> Commit_Result \<Rightarrow> bool" where
  "reported db rid v \<longleftrightarrow> (\<exists>c. commit_at db rid = Some c \<and> rc_state c = rs_state v \<and> rc_review c = rs_review v \<and> rc_reason c = rs_reason v) \<and>
     (rs_state v = ''parked'' \<or> rs_state v = ''committed'')"

lemma park_reported:
  assumes "ParkReactiveCommit db rid reason now = Inr db'" and "commit_at db rid = Some c" "rc_state c = ''committing''" "\<not> rc_review c" and "has_proposal db rid"
  shows "reported db' rid \<lparr>rs_state = ''parked'', rs_review = False, rs_reason = reason\<rparr>"
    "\<exists>q. GetReactivePending db' rid = Some q \<and> rp_state q = ''pending'' \<and> rp_reason q = ''positive_mismatch''"
proof -
  have rep: "rc_rep c = rid" using find_Some_in assms(2) unfolding commit_at_def by fastforce
  let ?f = "\<lambda>c. c\<lparr>rc_state := ''parked'', rc_reason := reason, rc_updated := now\<rparr>"
  from park_effect [OF assms(1)] obtain d where d: "find (in_state rid ''committing'') (commits db) = Some d"
    "commits db' = update_rows (in_state rid ''committing'') ?f (commits db)"
    "appendReactiveEvent ''park'' '''' ''positive_mismatch'' 0 now (reopen ''positive_mismatch'' (?f d) (db\<lparr>commits := commits db'\<rparr>)) = Inr db'"
    by blast
  show "reported db' rid \<lparr>rs_state = ''parked'', rs_review = False, rs_reason = reason\<rparr>"
    using assms(2-4) rep unfolding reported_def commit_at_def d(2) by (simp add: find_update_rows in_state_def)
  have "rc_rep (?f d) = rid" using find_Some_in [OF d(1)] by (simp add: in_state_def)
  then show "\<exists>q. GetReactivePending db' rid = Some q \<and> rp_state q = ''pending'' \<and> rp_reason q = ''positive_mismatch''"
    using reopen_row [of "db\<lparr>commits := commits db'\<rparr>" "?f d" "''positive_mismatch''"] assms(5) append_frame(4) [OF d(3)]
    by (auto simp: GetReactivePending_def has_proposal_def)
qed

lemma complete_reported:
  assumes "CompleteReactiveCommit db r now = Inr db'" and "rc_rep r = rid" and "commit_at db rid = Some c" "rc_state c = ''committing''" and "has_proposal db rid"
  shows "reported db' rid \<lparr>rs_state = ''committed'', rs_review = rc_review r, rs_reason = rc_reason r\<rparr>"
    "rc_review r \<Longrightarrow> \<exists>q. GetReactivePending db' rid = Some q \<and> rp_state q = ''pending'' \<and> rp_reason q = ''weak_evidence''"
proof -
  have rep: "rc_rep c = rid" using find_Some_in assms(3) unfolding commit_at_def by fastforce
  from assms(1) obtain d g where d: "find (in_state (rc_rep r) ''committing'') (commits db) = Some d"
    and g: "g = (\<lambda>c. c\<lparr>rc_state := ''committed'', rc_review := rc_review r, rc_reason := rc_reason r, rc_arr := rc_arr r, rc_kind := rc_kind r,
                 rc_arrItem := rc_arrItem r, rc_owner := rc_owner r, rc_prior := rc_prior r, rc_updated := now\<rparr>)"
    and cs: "commits db' = update_rows (in_state (rc_rep r) ''committing'') g (commits db)"
    and q: "pendings db' = pendings (if rc_review r then reopen ''weak_evidence'' (g d) db else db)" by (rule complete_effect)
  show "reported db' rid \<lparr>rs_state = ''committed'', rs_review = rc_review r, rs_reason = rc_reason r\<rparr>"
    using assms(2-4) rep unfolding reported_def commit_at_def cs by (simp add: find_update_rows in_state_def g)
  assume "rc_review r"
  moreover have "rc_rep (g d) = rid" using find_Some_in [OF d] assms(2) by (simp add: in_state_def g)
  ultimately show "\<exists>q. GetReactivePending db' rid = Some q \<and> rp_state q = ''pending'' \<and> rp_reason q = ''weak_evidence''"
    using reopen_row [of db "g d" "''weak_evidence''"] assms(5) q by (auto simp: GetReactivePending_def)
qed

lemma commitCreated_justified:
  assumes "commitCreated env ctx clk db x r0 req p = (Inr v, db', x')" and r0: "rc_rep r0 = pr_rep p" "rc_reason r0 = ''''"
    and c: "commit_at db (pr_rep p) = Some c" "rc_state c = ''committing''" "\<not> rc_review c" and "has_proposal db (pr_rep p)"
  shows "reported db' (pr_rep p) v \<and> justified env (clk 1) p db' v"
proof -
  from assms(1) obtain item i path reason strong where it: "getItem env (pr_item p) = Inr (Some item)" "it_identity item = Some i" "it_strm item = Some path"
    and cl: "classify env ctx p item i (clk 1) = Inr (reason, strong)"
    and rest: "if reason \<noteq> '''' then ParkReactiveCommit db (pr_rep p) reason (clk 2) = Inr db' \<and> v = \<lparr>rs_state = ''parked'', rs_review = False, rs_reason = reason\<rparr>
       else register env ctx (clk 2) db x r0 req i path strong = (Inr v, db', x')"
    by (auto simp: commitCreated_def split: sum.split_asm option.split_asm prod.split_asm if_split_asm)
  show ?thesis
  proof (cases "reason = ''''")
    case False
    with rest have v: "v = \<lparr>rs_state = ''parked'', rs_review = False, rs_reason = reason\<rparr>" and pk: "ParkReactiveCommit db (pr_rep p) reason (clk 2) = Inr db'" by auto
    from park_reported [OF pk c assms(7)] have "reported db' (pr_rep p) v" "\<exists>q. GetReactivePending db' (pr_rep p) = Some q \<and> rp_state q = ''pending'' \<and> rp_reason q = ''positive_mismatch''"
      unfolding v by blast+
    moreover have "contradicted env p item i" using classify_decides(1) [OF cl] False by blast
    ultimately show ?thesis using it v unfolding justified_def by (intro conjI exI [of _ item] exI [of _ i]) simp_all
  next
    case True
    with rest have "register env ctx (clk 2) db x r0 req i path strong = (Inr v, db', x')" by simp
    then obtain r where r: "CompleteReactiveCommit db r (clk 2) = Inr db'" "rc_rep r = rc_rep r0" "rc_review r = (\<not> strong)"
      and v: "v = \<lparr>rs_state = ''committed'', rs_review = rc_review r, rs_reason = rc_reason r\<rparr>"
      by (auto simp: register_def Let_def split: option.split_asm sum.split_asm prod.split_asm)
    from r(2) r0(1) have rep: "rc_rep r = pr_rep p" by simp
    have q: "rs_review v \<longrightarrow> (\<exists>q. GetReactivePending db' (pr_rep p) = Some q \<and> rp_state q = ''pending'' \<and> rp_reason q = ''weak_evidence'')"
      using complete_reported(2) [OF r(1) rep c(1,2) assms(7)] v by simp
    have "reported db' (pr_rep p) v" using complete_reported(1) [OF r(1) rep c(1,2) assms(7)] v by simp
    moreover have "\<not> contradicted env p item i" using classify_decides(1) [OF cl] True by blast
    moreover obtain ps where "ListContentProofs (proofs_db env) [pr_rep p] (clk 1) = Inr ps" "strong \<longleftrightarrow> (\<exists>x \<in> set ps. strongProof x)"
      using classify_decides(2) [OF cl True] by blast
    ultimately show ?thesis using it q v r(3) unfolding justified_def by (intro conjI exI [of _ item] exI [of _ i]) auto
  qed
qed

lemma insert_row:
  assumes "insertCommit rid item fil mode now db = (True, db1)" and "commit_at db rid = None"
  shows "\<exists>c. commit_at db1 rid = Some c \<and> rc_state c = ''committing'' \<and> \<not> rc_review c" "playback_proposals db1 = playback_proposals db"
  using assms by (auto simp: insertCommit_def commit_at_def find_append emptyCommit_def split: if_split_asm)

lemma cleanup_cases:
  assumes "cleanup cctx rid out = (res, db', x')"
  obtains v where "out = (Inr v, db', x')" "res = Inr v"
  | e e' db1 where "out = (Inl e, db1, x')" "res = Inl e'" "AbortReactiveCommit db1 rid = Inr db' \<or> (cctx \<noteq> None \<or> isl (AbortReactiveCommit db1 rid)) \<and> db' = db1"
  using assms by (cases out) (auto simp: cleanup_def split: sum.split_asm option.split_asm)

text \<open>The one trace a failed commit can leave: a record in progress, of a title that had none.\<close>

definition stranded :: "'f reactive_db \<Rightarrow> 'f reactive_db \<Rightarrow> string \<Rightarrow> bool" where
  "stranded db db' rid \<longleftrightarrow> commit_at db rid = None \<and> (\<exists>c. db' = db\<lparr>commits := commits db @ [c]\<rparr> \<and> rc_rep c = rid \<and> rc_state c = ''committing'')"

lemma insert_stranded: "insertCommit rid item fil mode now db = (True, db1) \<Longrightarrow> commit_at db rid = None \<Longrightarrow> stranded db db1 rid"
  by (auto simp: insertCommit_def stranded_def emptyCommit_def split: if_split_asm)

lemma commit_sound:
  assumes inv: "rx_inv db" and run: "Commit env ctx clk db x req = (out, db', x')"
  shows "rx_run db db' \<and>
    (case out of Inl e \<Rightarrow> db' = db \<or> stranded db db' (rq_rep req) \<and> (\<exists>n \<in> {3, 4, 5, 9}. ctx n \<noteq> None)
     | Inr v \<Rightarrow> \<exists>p. GetPlaybackProposal (playback_proposals db) (rq_rep req) = Some p \<and> reported db' (rq_rep req) v \<and>
         (db' = db \<and> x' = x \<and> commit_at db (rq_rep req) \<noteq> None \<or> commit_at db (rq_rep req) = None \<and> justified env (clk 1) p db' v))"
proof (cases "ctx 0 = None \<and> ctx 1 = None \<and> \<not> (rq_rep req = '''' \<or> (rq_mode req \<noteq> ''auto'' \<and> rq_mode req \<noteq> ''supervised'')) \<and>
    GetPlaybackProposal (playback_proposals db) (rq_rep req) \<noteq> None")
  case False
  then have "db' = db \<and> isl out" using run by (auto simp: Commit_def split: option.split_asm if_split_asm)
  then show ?thesis by (cases out) auto
next
  case True
  then obtain p where p: "GetPlaybackProposal (playback_proposals db) (rq_rep req) = Some p" by blast
  have rep: "pr_rep p = rq_rep req" "has_proposal db (rq_rep req)" using proposal_found [OF p] by simp_all
  let ?opened = "BeginReactiveCommit (\<lambda>d. d) (\<lambda>n. ctx (n + 2)) db (pr_rep p) (pr_item p) (pr_file p) (rq_mode req) (clk 0)"
  obtain b db1 where b: "?opened = (b, db1)" by fastforce
  have run1: "rx_run db db1" using begin_run [of "\<lambda>d. d" db "\<lambda>n. ctx (n + 2)" "pr_rep p" "pr_item p" "pr_file p" "rq_mode req" "clk 0"] b by simp
  from b show ?thesis
  proof (cases rule: begin_cases)
    case (refused e)
    then have "db' = db \<and> isl out" using run True p b by (auto simp: Commit_def)
    then show ?thesis by (cases out) auto
  next
    case (cut e)
    then have "db' = db1" "out = Inl e" using run True p b by (auto simp: Commit_def)
    moreover have "\<exists>n \<in> {3, 4, 5, 9}. ctx n \<noteq> None" using cut(4) by (auto simp: numeral_eq_Suc)
    ultimately show ?thesis using run1 insert_stranded [OF cut(2,3)] rep(1) by simp
  next
    case (old r)
    then obtain c where c: "commit_at db (rq_rep req) = Some c" "rc_state c = rc_state r" "rc_review c = rc_review r" "rc_reason c = rc_reason r"
      using rep by (auto simp: GetReactiveCommit_def commit_at_def)
    have "db' = db \<and> x' = x \<and> (isl out \<or> out = Inr \<lparr>rs_state = rc_state r, rs_review = rc_review r, rs_reason = rc_reason r\<rparr> \<and> (rc_state r = ''parked'' \<or> rc_state r = ''committed''))"
      using run True p b old by (auto simp: Commit_def split: if_split_asm)
    then show ?thesis using c p by (cases out) (auto simp: reported_def)
  next
    case (fresh r)
    have "cleanup (ctx 9) (pr_rep p) (commitCreated env ctx clk db1 x r req p) = (out, db', x')" using run True p b fresh by (simp add: Commit_def)
    then show ?thesis
    proof (cases rule: cleanup_cases)
      case (1 v)
      from insert_row [OF fresh(2,4)] obtain c where c: "commit_at db1 (pr_rep p) = Some c" "rc_state c = ''committing''" "\<not> rc_review c" and pp: "playback_proposals db1 = playback_proposals db" by blast
      have "rx_run db db'" using run1 commitCreated_step [OF 1(1)] by simp
      moreover have "reported db' (pr_rep p) v \<and> justified env (clk 1) p db' v"
        by (rule commitCreated_justified [OF 1(1) fresh(6,7) c]) (use rep pp in \<open>simp add: has_proposal_def\<close>)
      ultimately show ?thesis using 1(2) p rep(1) fresh(4) by auto
    next
      case (2 e e' db2)
      have "db2 = db1" by (rule commitCreated_error [OF 2(1)])
      then have "db' = db \<or> ctx 9 \<noteq> None \<and> db' = db1" using 2(3) abort_restores [OF fresh(2,4) inv fresh(8)] by auto
      then show ?thesis using 2(2) run1 insert_stranded [OF fresh(2,4)] rep(1) by auto
    qed
  qed
qed

text \<open>A record left in progress blocks its title: every later commit is refused and changes nothing.\<close>

lemma stranded_is_final:
  assumes "commit_at db (rq_rep req) = Some c" and "rc_state c = ''committing''"
  shows "\<exists>e. Commit env ctx clk db x req = (Inl e, db, x)"
proof (cases "GetPlaybackProposal (playback_proposals db) (rq_rep req)")
  case (Some p)
  have rep: "pr_rep p = rq_rep req" using proposal_found [OF Some] by simp
  obtain b db1 where b: "BeginReactiveCommit (\<lambda>d. d) (\<lambda>n. ctx (n + 2)) db (pr_rep p) (pr_item p) (pr_file p) (rq_mode req) (clk 0) = (b, db1)" by fastforce
  from b show ?thesis
  proof (cases rule: begin_cases)
    case (old r)
    then have "rc_state r = ''committing''" using assms rep by (auto simp: GetReactiveCommit_def commit_at_def)
    then show ?thesis using old b Some by (auto simp: Commit_def split: option.split)
  qed (use assms(1) rep b Some in \<open>auto simp: Commit_def split: option.split\<close>)
qed (auto simp: Commit_def split: option.split)

text \<open>C26: committing a played title is atomic and justified. If \<open>Commit\<close> returns an error, the tables are as
  before, with one exception: when the context ends between the INSERT of the record and the end of reading it back, or the ten seconds of the clean-up
  run out, a record in progress of a title that had none stays behind. If it succeeds, the record in the tables is what it reports, and unless the title was
  committed or parked before, it is parked if and only if the identity check or the continuity ledger contradicts it; it is
  committed without review if and only if an authoritative proof of one of the four accepted provenances (PAR2, HTTP digest, torrent Merkle
  tree, archive digest) is known, and whatever needs a review is open in the
  queue with the right reason. The tables move only by steps of their relation.\<close>

theorem commit_contract:
  assumes inv: "rx_inv db" and run: "Commit env ctx clk db x req = (out, db', x')"
  shows "rx_run db db' \<and>
    (case out of Inl e \<Rightarrow> db' = db \<or> stranded db db' (rq_rep req) \<and> (\<exists>n \<in> {3, 4, 5, 9}. ctx n \<noteq> None)
     | Inr v \<Rightarrow> \<exists>p. GetPlaybackProposal (playback_proposals db) (rq_rep req) = Some p \<and> reported db' (rq_rep req) v \<and>
         (db' = db \<and> x' = x \<and> commit_at db (rq_rep req) \<noteq> None \<or> commit_at db (rq_rep req) = None \<and> justified env (clk 1) p db' v))"
  using assms by (rule commit_sound)

definition demo_proposal :: "int Proposal" where
  "demo_proposal = \<lparr>pr_rep = ''r'', pr_item = ''i'', pr_file = ''f'', pr_kind = ExtentDeclaredBytes, pr_delivered = 9, pr_total = 10, pr_threshold = 1, pr_created = 1\<rparr>"

definition demo_state :: "int reactive_db" where
  "demo_state = empty_reactive\<lparr>playback_proposals := [demo_proposal], pendings := [newPending ''r'' ''i'' ''supervised_review'' 1 1]\<rparr>"

definition demo_env :: "(nat, unit) rx_env" where
  "demo_env = \<lparr>getItem = (\<lambda>_. Inr (Some \<lparr>it_strm = Some ''p'', it_identity = Some demo_movie, it_display = ''x'', it_facts = None, it_factsFile = ''''\<rparr>)),
     statFile = (\<lambda>_. None), verifyIdentity = (\<lambda>_ _ _ _ _ _. []),
     proofs_db = \<lparr>content_proofs = [], continuity = [], canonicals = [], alias_rows = [], routes = [], spans = []\<rparr>,
     registrarCommit = (\<lambda>x _. (Inr \<lparr>rg_arr = ''radarr'', rg_kind = ''movie'', rg_item = 7, rg_files = [3], rg_owner = False, rg_prior = None, rg_episodes = []\<rparr>, x + 1)),
     registrarUndo = (\<lambda>x _. (None, x)), RemoveCommitted = (\<lambda>x _. (None, x + 1)), monitorEp = False, monitorMv = False\<rparr>"

lemma demo_state_inv: "rx_inv demo_state"
  by (simp add: demo_state_def demo_proposal_def empty_reactive_def newPending_def rx_inv_def commits_ok_def promotions_ok_def queue_ok_def events_ok_def
      pending_ok_def validPendingReason_def)

theorem commit_contract_witness:
  "\<exists>v db' x'. Commit demo_env (\<lambda>_. None) (\<lambda>n. 5) demo_state 0 \<lparr>rq_rep = ''r'', rq_mode = ''auto'', rq_target = '''', rq_root = '''', rq_profile = 0\<rparr> = (Inr v, db', x') \<and>
     rs_review v \<and> reported db' ''r'' v \<and> justified demo_env 5 demo_proposal db' v"
proof -
  let ?req = "\<lparr>rq_rep = ''r'', rq_mode = ''auto'', rq_target = '''', rq_root = '''', rq_profile = 0\<rparr>"
  let ?c = "Commit demo_env (\<lambda>_. None) (\<lambda>n. 5) demo_state 0 ?req"
  have s: "playback_proposals demo_state = [demo_proposal]" "commits demo_state = []" "commit_files demo_state = []" "commit_episodes demo_state = []"
    by (simp_all add: demo_state_def empty_reactive_def)
  have "fst ?c = Inr \<lparr>rs_state = ''committed'', rs_review = True, rs_reason = ''weak_evidence''\<rparr>"
    by (simp add: Commit_def GetPlaybackProposal_def s demo_proposal_def BeginReactiveCommit_def fetchCommit_def insertCommit_def GetReactiveCommit_def emptyCommit_def zeroTime_def
        Second_def commitCreated_def demo_env_def demo_movie_def MaxEpisodes_def classify_def identityVerdict_def ListContinuity_def by_observed_def sortStable_def
        ListContentProofs_def listContentProofs_def register_def CompleteReactiveCommit_def in_state_def appendReactiveEvent_def event_allowed_def Let_def cleanup_def)
  then obtain v db' x' where v: "?c = (Inr v, db', x')" "rs_review v" by (metis (no_types, lifting) Commit_Result.select_convs(2) prod.collapse)
  have none: "commit_at demo_state ''r'' = None" by (simp add: commit_at_def s)
  have "GetPlaybackProposal (playback_proposals demo_state) ''r'' = Some demo_proposal" by (simp add: GetPlaybackProposal_def s demo_proposal_def)
  then show ?thesis using commit_contract [OF demo_state_inv v(1)] v none by auto
qed

subsection \<open>Undoing and deciding\<close>

lemma undo_run: "Undo env ctx clk db x rid = (err, db', x') \<Longrightarrow> rx_run db db'"
proof -
  assume u: "Undo env ctx clk db x rid = (err, db', x')"
  let ?db1 = "snd (BeginReactiveUndo (\<lambda>d. d) ctx db rid (clk 0))"
  have r: "rx_run db ?db1" by (rule begin_undo_run) simp
  have "db' = db \<or> db' = ?db1 \<or> CompleteReactiveUndo ?db1 rid (clk 1) = Inr db'"
    using u by (auto simp: Undo_def split: if_split_asm prod.split_asm sum.split_asm option.split_asm)
  then show ?thesis using r rx_step.complete_undo by (metis rtranclp.rtrancl_into_rtrancl rtranclp.rtrancl_refl)
qed

text \<open>An undo that failed after it began is refused ever after: the registrar is not asked again.\<close>

lemma failed_undo_is_final:
  assumes "commit_at db rid = Some c" "rc_state c = ''undoing''" "distinct (map rc_rep (commits db))" "rid \<noteq> ''''"
  shows "Undo env (\<lambda>_. None) clk db x rid = (Some (Plain ''store: reactive commit cannot undo''), db, x)"
proof -
  have c: "c \<in> set (commits db)" "rc_rep c = rid" using find_Some_in assms(1) unfolding commit_at_def by fastforce+
  have no: "\<not> in_state rid ''committed'' d" if h: "d \<in> set (commits db)" for d
  proof
    assume d: "in_state rid ''committed'' d"
    then have "c = d" using unique_rows [OF assms(3) c(1) h] c(2) by (simp add: in_state_def)
    then show False using d assms(2) by (simp add: in_state_def)
  qed
  then have "update_rows (in_state rid ''committed'') f (commits db) = commits db" for f by (simp add: update_rows_def map_idI)
  then have st: "startUndo rid (clk 0) db = db" by (simp add: startUndo_def)
  have "\<not> list_ex (in_state rid ''committed'') (commits db)" using no by (auto simp: list_ex_iff)
  moreover obtain r where "GetReactiveCommit db rid = Some r" "rc_state r = ''undoing''" using assms(1,2) by (auto simp: GetReactiveCommit_def commit_at_def)
  ultimately show ?thesis using assms(4) by (simp add: Undo_def BeginReactiveUndo_def fetchCommit_def st)
qed

text \<open>The queue acts before it checks: a decision that does not fit the reason is refused after the files are gone.\<close>

lemma decide_acts_before_check:
  "Decide demo_env (\<lambda>_. None) (\<lambda>_. 5) (demo_state\<lparr>pendings := [newPending ''r'' ''i'' ''weak_evidence'' 1 1]\<rparr>) 0
     \<lparr>qd_rep = ''r'', qd_action = ''remove'', qd_arr = '''', qd_root = '''', qd_profile = 0\<rparr> =
   ((emptyResult\<lparr>rs_state := ''resolved''\<rparr>, Some (Plain ''store: invalid reactive pending decision'')),
    demo_state\<lparr>pendings := [newPending ''r'' ''i'' ''weak_evidence'' 1 1]\<rparr>, 1)"
  by (simp add: Decide_def demo_env_def demo_state_def empty_reactive_def demo_proposal_def newPending_def SyncReactivePending_def insertPendings_def
      insert_ignore_def zeroTime_def Second_def GetReactivePending_def GetPlaybackProposal_def ResolveReactivePending_def validPendingAction_def has_proposal_def)

text \<open>The actions offered for a reason are exactly those the store accepts.\<close>

lemma actions_accepted: "action \<in> set (Actions reason) \<longleftrightarrow> validPendingAction reason action"
proof -
  have perm: "(a \<or> b \<or> c \<or> d) = (a \<or> c \<or> d \<or> b)" for a b c d by blast
  show ?thesis unfolding Actions_def validPendingAction_def by simp (intro impI, rule perm)
qed

lemma requeue_run: "requeue db entry reason now = (err, db') \<Longrightarrow> rx_run db db'"
  using rx_step.enqueue by (fastforce simp: requeue_def split: sum.split_asm)

lemma resolve_now_run: "ResolveReactivePending (\<lambda>_ y. y) db rid action arr now = (err, db') \<Longrightarrow> rx_run db db'"
  using resolve_run [of "\<lambda>_ y. y" db rid action arr now] by simp

subsection \<open>The dispatcher accounts for every entry\<close>

text \<open>What the dispatcher needs of its router: the tables change by their steps only.\<close>

locale dispatch_router =
  fixes route :: "'f router"
  assumes route_run: "route db i now = (out, db') \<Longrightarrow> rx_run db db'"
begin

definition tallied :: "Dispatch_Result \<Rightarrow> Dispatch_Result \<Rightarrow> bool" where
  "tallied r r' \<longleftrightarrow> Examined r' = Examined r \<and> Committed r' + Parked r' + Errors r' = Committed r + Parked r + Errors r + 1"

lemma tally: "tallied r (failed r)" "tallied r (parked r)" "tallied r (r\<lparr>Committed := Committed r + 1\<rparr>)"
  by (simp_all add: tallied_def failed_def parked_def)

lemma parkEntry_ok:
  assumes "parkEntry res db x entry reason now = (res', db', x')"
  shows "rx_run db db' \<and> tallied res res'"
  using assms tally requeue_run by (auto simp: parkEntry_def split: prod.split_asm option.split_asm)

lemma dispatchCommit_ok:
  assumes "rx_inv db" and "dispatchCommit env ctx clk res db x entry rt = (res', db', x')"
  shows "rx_run db db' \<and> tallied res res'"
proof -
  obtain out db1 x1 where c: "Commit env ctx clk db x \<lparr>rq_rep = rp_rep entry, rq_mode = ''auto'', rq_target = ArrName rt, rq_root = rt_root rt, rq_profile = rt_profile rt\<rparr> = (out, db1, x1)"
    by (metis prod.exhaust)
  have r: "rx_run db db1" using commit_sound [OF assms(1) c] by blast
  have "(db' = db1 \<or> (\<exists>action arr err. ResolveReactivePending (\<lambda>_ y. y) db1 (rp_rep entry) action arr (clk 4) = (err, db'))) \<and> tallied res res'"
    using assms(2) tally by (auto simp: dispatchCommit_def c split: sum.split_asm prod.split_asm option.split_asm if_split_asm)
  then show ?thesis using r resolve_now_run rtranclp_trans by metis
qed

lemma dispatchEntry_ok:
  assumes "rx_inv db" and "dispatchEntry route env ctx clk res db x entry = (res', db', x')"
  shows "rx_run db db' \<and> tallied (res\<lparr>Examined := Examined res + 1\<rparr>) res'"
proof -
  let ?r = "res\<lparr>Examined := Examined res + 1\<rparr>"
  have fail: ?thesis if "rx_run db d" "(failed ?r, d, x) = (res', db', x')" for d using that tally(1) by auto
  show ?thesis
  proof (cases "GetPlaybackProposal (playback_proposals db) (rp_rep entry)")
    case None
    then show ?thesis using assms(2) fail [of db] by (simp add: dispatchEntry_def)
  next
    case (Some p)
    note p = Some
    show ?thesis
    proof (cases "\<exists>item. getItem env (pr_item p) = Inr (Some item)")
      case False
      then have "dispatchEntry route env ctx clk res db x entry = (failed ?r, db, x)"
        using p by (cases "getItem env (pr_item p)") (auto simp: dispatchEntry_def Let_def split: option.split)
      then show ?thesis using assms(2) fail [of db] by simp
    next
      case True
      then obtain item where item: "getItem env (pr_item p) = Inr (Some item)" by blast
      show ?thesis
      proof (cases "it_identity item")
        case None
        then show ?thesis using assms(2) p item parkEntry_ok by (simp add: dispatchEntry_def)
      next
        case (Some i)
        obtain out db1 where route: "route db (Some i) (clk 6) = (out, db1)" by fastforce
        have r: "rx_run db db1" by (rule route_run [OF route])
        then have inv: "rx_inv db1" using run_inv assms(1) by blast
        show ?thesis
        proof (cases out)
          case (Inl e)
          then show ?thesis using assms(2) p item Some route r fail [of db1] by (simp add: dispatchEntry_def)
        next
          case (Inr rt)
          have "rx_run db1 db' \<and> tallied ?r res'"
          proof (cases "ArrName rt = '''' \<or> (\<not> Owned rt \<and> \<not> Declared rt)")
            case True
            then show ?thesis using assms(2) p item Some route Inr parkEntry_ok by (simp add: dispatchEntry_def)
          next
            case False
            then have "dispatchCommit env ctx clk ?r db1 x entry rt = (res', db', x')" using assms(2) p item Some route Inr by (auto simp: dispatchEntry_def Let_def)
            then show ?thesis by (rule dispatchCommit_ok [OF inv])
          qed
          then show ?thesis using r by auto
        qed
      qed
    qed
  qed
qed

lemma processLoop_ok:
  assumes "rx_inv db" and "processLoop route env ctx clk n res db x es = ((res', err), db', x')"
  shows "rx_run db db' \<and> Examined res' + Committed res + Parked res + Errors res = Examined res + Committed res' + Parked res' + Errors res' \<and>
    Examined res' \<le> Examined res + length es"
  using assms
proof (induction es arbitrary: n res db x)
  case (Cons e es)
  show ?case
  proof (cases "ctx n 0 = None \<and> rp_reason e = ''supervised_review''")
    case True
    obtain res1 db1 x1 where d: "dispatchEntry route env (\<lambda>k. ctx n (k + 1)) (clk n) res db x e = (res1, db1, x1)" by (metis prod.exhaust)
    note ok = dispatchEntry_ok [OF Cons.prems(1) d]
    then have "rx_inv db1" using run_inv Cons.prems(1) by blast
    from Cons.IH [OF this, of "Suc n" res1 x1] Cons.prems(2) True d ok show ?thesis by (auto simp: tallied_def)
  next
    case False
    then show ?thesis using Cons by (fastforce split: option.split_asm if_split_asm)
  qed
qed simp

end

lemma page_bounded: "nextPage db after = Inr es \<Longrightarrow> length es \<le> BatchSize"
  by (auto simp: nextPage_def ListReactivePending_def BatchSize_def split: sum.split_asm if_split_asm)

lemma Resolve_run: "Resolve eqFold ask r db i now = (out, db') \<Longrightarrow> rx_run db db'"
proof -
  assume h: "Resolve eqFold ask r db i now = (out, db')"
  have "db' = db \<or> (\<exists>a. PutReactiveAssignment db a now = Inr db')"
    using h unfolding Resolve_def Let_def by (auto split: option.split_asm sum.split_asm prod.split_asm if_split_asm)
  then show ?thesis using rx_step.assign by blast
qed

interpretation arrRouter: dispatch_router "\<lambda>db i now. Resolve eqFold ask r db i now" for eqFold ask r
  by unfold_locales (rule Resolve_run)

text \<open>C28: automatic dispatch accounts for what it does. One run of the dispatcher over the modelled router examines at most one page of
  the queue, and every entry it examines is counted once, as committed, parked or failed, whatever the router, the
  registrar and the items answer and wherever the context ends. The tables change only by steps of their relation and keep their invariant. When
  switched off it does nothing; under supervision it does not touch the commits or the outside world.\<close>

theorem dispatch_accounts:
  assumes inv: "rx_inv db"
    and run: "Process (\<lambda>db i now. Resolve eqFold ask r db i now) env mode ctx0 now ctx clk after db x = (((res, err), after'), db', x')"
  shows "rx_run db db' \<and> rx_inv db' \<and> Examined res = Committed res + Parked res + Errors res \<and> Examined res \<le> BatchSize \<and>
    (mode = ''off'' \<longrightarrow> db' = db \<and> x' = x) \<and> (mode = ''supervised'' \<longrightarrow> x' = x \<and> commits db' = commits db \<and> Examined res = 0)"
proof (cases "ctx0 = None \<and> mode \<noteq> ''off''")
  case False
  then have "db' = db" "x' = x" "res = noDispatch" using run by (auto simp: Process_def split: option.split_asm)
  then show ?thesis using inv by (simp add: noDispatch_def)
next
  case True
  show ?thesis
  proof (cases "SyncReactivePending db now")
    case (Inl e)
    then have "db' = db" "x' = x" "res = noDispatch" using run True by (auto simp: Process_def)
    then show ?thesis using inv by (simp add: noDispatch_def)
  next
    case (Inr db1)
    have r: "rx_run db db1" using rx_step.sync [OF Inr] by blast
    then have inv1: "rx_inv db1" using run_inv inv by blast
    show ?thesis
    proof (cases "mode = ''supervised'' \<or> isl (nextPage db1 after)")
      case skip: True
      then have "db' = db1" "x' = x" "res = noDispatch" using run True Inr by (auto simp: Process_def split: sum.split_asm if_split_asm)
      then show ?thesis using r inv1 True sync_frame(1) [OF Inr] by (simp add: noDispatch_def)
    next
      case False
      then obtain es where es: "nextPage db1 after = Inr es" by (cases "nextPage db1 after") auto
      have loop: "processLoop (\<lambda>db i now. Resolve eqFold ask r db i now) env ctx clk 0 noDispatch db1 x es = ((res, err), db', x')"
        using run True Inr False es by (auto simp: Process_def split: prod.split_asm)
      note ok = arrRouter.processLoop_ok [OF inv1 loop]
      then have "rx_run db db'" using r by auto
      moreover have "rx_inv db'" using calculation run_inv inv by blast
      ultimately show ?thesis using ok page_bounded [OF es] True False by (simp add: noDispatch_def)
    qed
  qed
qed

theorem dispatch_accounts_witness:
  "\<exists>res err after' db' x'. Process (\<lambda>db i now. Resolve (=) demo_arr \<lparr>targets_of = demo_targets, defaults = []\<rparr> db i now) demo_env ''auto'' None 5 (\<lambda>_ _. None) (\<lambda>_ _. 5) ''''
      demo_state 0 = (((res, err), after'), db', x') \<and> Examined res = Committed res + Parked res + Errors res \<and> rx_inv db'"
proof -
  obtain res err after' db' x' where p: "Process (\<lambda>db i now. Resolve (=) demo_arr \<lparr>targets_of = demo_targets, defaults = []\<rparr> db i now) demo_env ''auto'' None 5 (\<lambda>_ _. None)
      (\<lambda>_ _. 5) '''' demo_state 0 = (((res, err), after'), db', x')" by (metis prod.exhaust)
  from dispatch_accounts [OF demo_state_inv p] p show ?thesis by blast
qed

end
