(* ===== verification/YEnc.thy ===== *)
theory YEnc
  imports Outcome "HOL-Library.Word"
begin

unbundle bit_operations_syntax

section \<open>Decoding of yEnc articles\<close>

text \<open>
  \<open>nntp/yenc.go\<close>: the decoder of the bodies of Usenet articles, with the parts of \<open>bufio.Scanner\<close>, \<open>bytes.Fields\<close> and
  \<open>hash/crc32\<close> it uses. A body is the bytes a reader delivers and the error it ends with, if any; the readings of the context
  are a sequence, one per line. Pooled buffers and preallocated capacities have no effect on the
  result and are not modelled.

  Results: articles written by the encoding rule decode to the original bytes, the decoded bytes match size and checksum of the trailer, and
  two articles that differ in one byte never share a checksum.
\<close>

subsection \<open>The Go library\<close>

text \<open>The lines of \<open>bufio.ScanLines\<close>, before the carriage return is dropped.\<close>

fun splitLines :: "string \<Rightarrow> string \<Rightarrow> string list" where
  "splitLines cur [] = (if cur = [] then [] else [rev cur])"
| "splitLines cur (c # cs) = (if c = CHR 0x0A then rev cur # splitLines [] cs else splitLines (c # cur) cs)"

definition dropCR :: "string \<Rightarrow> string" where
  "dropCR l = (if l \<noteq> [] \<and> last l = CHR 0x0D then butlast l else l)"

text \<open>\<open>bytes.Fields\<close>; the first argument counts the bytes left of a separator.\<close>

fun fieldsLoop :: "nat \<Rightarrow> string \<Rightarrow> string \<Rightarrow> string list" where
  "fieldsLoop k cur [] = (if cur = [] then [] else [rev cur])"
| "fieldsLoop (Suc k) cur (c # cs) = fieldsLoop k cur cs"
| "fieldsLoop 0 cur (c # cs) =
     (case find (HasPrefix (c # cs)) space_codes of
        Some p \<Rightarrow> (if cur = [] then [] else [rev cur]) @ fieldsLoop (length p - 1) [] cs
      | None \<Rightarrow> fieldsLoop 0 (c # cur) cs)"

definition Fields :: "string \<Rightarrow> string list" where
  "Fields s = fieldsLoop 0 [] s"

text \<open>\<open>strings.Index\<close>.\<close>

fun Index :: "string \<Rightarrow> string \<Rightarrow> nat option" where
  "Index [] p = (if p = [] then Some 0 else None)"
| "Index (c # cs) p = (if HasPrefix (c # cs) p then Some 0 else map_option Suc (Index cs p))"

text \<open>\<open>strconv.ParseUint(s, 16, 32)\<close> of a text of eight bytes.\<close>

fun hexValue :: "string \<Rightarrow> nat \<Rightarrow> nat option" where
  "hexValue [] acc = Some acc"
| "hexValue (c # cs) acc = (case hex_val c of None \<Rightarrow> None | Some v \<Rightarrow> hexValue cs (16 * acc + v))"

text \<open>\<open>crc32.ChecksumIEEE\<close>.\<close>

definition crcPoly :: "32 word" where "crcPoly = 0xEDB88320"

definition crcBit :: "32 word \<Rightarrow> 32 word" where
  "crcBit w = (if bit w 0 then drop_bit 1 w XOR crcPoly else drop_bit 1 w)"

definition crcByte :: "32 word \<Rightarrow> char \<Rightarrow> 32 word" where
  "crcByte w c = (crcBit ^^ 8) (w XOR word_of_nat (of_char c))"

definition ChecksumIEEE :: "string \<Rightarrow> 32 word" where
  "ChecksumIEEE s = NOT (foldl crcByte (NOT 0) s)"

subsection \<open>The decoder\<close>

definition yEncMaxLineBytes :: int where "yEncMaxLineBytes = 2 ^ 20"
definition yEncMaxEncodedBytes :: int where "yEncMaxEncodedBytes = 80 * 2 ^ 20"
definition yEncMaxDecodedBytes :: int where "yEncMaxDecodedBytes = 64 * 2 ^ 20"

definition errYEncUndrained :: go_error where "errYEncUndrained = Plain ''nntp: yenc: response not fully drained''"

definition byteMod :: "int \<Rightarrow> char" where
  "byteMod n = char_of (nat (n mod 256))"

fun decodeYEncBytes :: "string \<Rightarrow> string" where
  "decodeYEncBytes [] = []"
| "decodeYEncBytes [b] = [byteMod (int (of_char b) - 42)]"
| "decodeYEncBytes (b # n # rest) =
     (if b = CHR ''='' then byteMod (int (of_char n) - 64 - 42) # decodeYEncBytes rest
      else byteMod (int (of_char b) - 42) # decodeYEncBytes (n # rest))"

definition yEncIntField :: "string \<Rightarrow> string \<Rightarrow> int option" where
  "yEncIntField line name =
     (case find (\<lambda>f. HasPrefix f (name @ ''='')) (Fields line) of
        None \<Rightarrow> None
      | Some f \<Rightarrow> (case ParseInt 64 (drop (length name + 1) f) of None \<Rightarrow> None | Some n \<Rightarrow> if n \<ge> 0 then Some n else None))"

definition crcField :: "string \<Rightarrow> string \<Rightarrow> nat option" where
  "crcField line prefix =
     (case Index line prefix of
        None \<Rightarrow> None
      | Some i \<Rightarrow>
          (let h = takeWhile (\<lambda>c. c \<notin> {CHR '' '', CHR 0x09, CHR 0x0D, CHR 0x0A}) (drop (i + length prefix) line)
           in if length h = 8 then hexValue h 0 else None))"

definition announcedCRC :: "string \<Rightarrow> nat option" where
  "announcedCRC line = (case crcField line '' pcrc32='' of Some v \<Rightarrow> Some v | None \<Rightarrow> crcField line '' crc32='')"

definition validateYEnd :: "string \<Rightarrow> string \<Rightarrow> go_error option" where
  "validateYEnd line decoded =
     (case announcedCRC line of
        None \<Rightarrow> None
      | Some v \<Rightarrow> if ChecksumIEEE decoded \<noteq> word_of_nat v then Some (Plain ''nntp: yenc crc32 mismatch'') else None)"

record yenc_state =
  y_result :: string
  seenBegin :: bool
  seenData :: bool
  seenEnd :: bool
  semanticErr :: "go_error option"
  yendLine :: string
  totalOut :: "int option"

definition yencStart :: yenc_state where
  "yencStart = \<lparr>y_result = '''', seenBegin = False, seenData = False, seenEnd = False, semanticErr = None, yendLine = '''', totalOut = None\<rparr>"

text \<open>One line. A new slice made for a begin or part line is empty, as the old one is then.\<close>

definition yencLine :: "yenc_state \<Rightarrow> string \<Rightarrow> yenc_state" where
  "yencLine st line =
     (let bad = (\<lambda>m. st\<lparr>semanticErr := Some (Plain m)\<rparr>) in
      if semanticErr st \<noteq> None then st
      else if line = [] then st
      else if HasPrefix line ''=ybegin'' then
        (if seenBegin st \<or> seenData st \<or> seenEnd st then bad ''nntp: yenc: contradictory begin line''
         else (let st1 = st\<lparr>seenBegin := True, totalOut := (case yEncIntField line ''size'' of Some n \<Rightarrow> Some n | None \<Rightarrow> totalOut st)\<rparr>
               in if yEncIntField line ''part'' = None \<and> (case yEncIntField line ''size'' of Some n \<Rightarrow> n \<le> yEncMaxDecodedBytes | None \<Rightarrow> False)
                    then st1\<lparr>y_result := ''''\<rparr> else st1))
      else if HasPrefix line ''=ypart'' then
        (if \<not> seenBegin st \<or> seenData st \<or> seenEnd st then bad ''nntp: yenc: misplaced part line''
         else (case (yEncIntField line ''begin'', yEncIntField line ''end'') of
                 (Some b, Some e) \<Rightarrow> if e \<ge> b \<and> e - b < yEncMaxDecodedBytes then st\<lparr>y_result := ''''\<rparr> else st
               | _ \<Rightarrow> st))
      else if HasPrefix line ''=yend'' then
        (if \<not> seenBegin st \<or> \<not> seenData st \<or> seenEnd st then bad ''nntp: yenc: misplaced end line''
         else st\<lparr>seenEnd := True, yendLine := line\<rparr>)
      else if \<not> seenBegin st \<or> seenEnd st then bad ''nntp: yenc: data outside framed body''
      else if last line = CHR ''='' then bad ''nntp: yenc: truncated escape''
      else if int (length (y_result st)) + int (length line) > yEncMaxDecodedBytes then bad ''nntp: yenc: decoded body exceeds bytes''
      else st\<lparr>y_result := y_result st @ decodeYEncBytes line, seenData := True\<rparr>)"

text \<open>The scan: a line that does not fit the buffer ends it, as does the context.\<close>

fun yencLoop :: "(nat \<Rightarrow> go_error option) \<Rightarrow> nat \<Rightarrow> yenc_state \<Rightarrow> string list \<Rightarrow> (go_error, yenc_state) result \<times> yenc_state" where
  "yencLoop ctx n st [] = (Inr st, st)"
| "yencLoop ctx n st (raw # rest) =
     (if int (length raw) \<ge> yEncMaxLineBytes then (Inl (Wrapped ''read body: token too long'' errYEncUndrained), st)
      else case ctx n of
        Some e \<Rightarrow> (Inl (Joined [errYEncUndrained, e]), st)
      | None \<Rightarrow> yencLoop ctx (Suc n) (yencLine st (dropCR raw)) rest)"

definition finishYEnc :: "bool \<Rightarrow> yenc_state \<Rightarrow> (go_error, string) result" where
  "finishYEnc verifyCRC st =
     (case semanticErr st of
        Some e \<Rightarrow> Inl e
      | None \<Rightarrow>
          if \<not> seenBegin st \<or> \<not> seenData st \<or> \<not> seenEnd st then Inl (Plain ''nntp: yenc: incomplete body'')
          else if Contains (yendLine st) ''size='' \<and> yEncIntField (yendLine st) ''size'' \<noteq> Some (int (length (y_result st)))
            then Inl (Plain ''nntp: yenc: contradictory decoded size'')
          else if verifyCRC then (case validateYEnd (yendLine st) (y_result st) of Some e \<Rightarrow> Inl e | None \<Rightarrow> Inr (y_result st))
          else Inr (y_result st))"

text \<open>The result, and the total of the begin line if one was read.\<close>

definition decodeYEncReaderWithTotal :: "(nat \<Rightarrow> go_error option) \<Rightarrow> string \<times> go_error option \<Rightarrow> bool \<Rightarrow> (go_error, string) result \<times> int option" where
  "decodeYEncReaderWithTotal ctx src verifyCRC =
     (let (body, readErr) = src;
          over = int (length body) \<ge> yEncMaxEncodedBytes + 1;
          seen = (if over then take (nat (yEncMaxEncodedBytes + 1)) body else body)
      in case yencLoop ctx 0 yencStart (splitLines [] seen) of
           (Inl e, st) \<Rightarrow> (Inl e, totalOut st)
         | (Inr st, _) \<Rightarrow>
             (if over then (Inl (Wrapped ''encoded body exceeds bytes'' errYEncUndrained), totalOut st)
              else case readErr of
                Some e \<Rightarrow> (Inl (Wrapped ''read body'' errYEncUndrained), totalOut st)
              | None \<Rightarrow> (finishYEnc verifyCRC st, totalOut st)))"

definition decodeYEncReader :: "(nat \<Rightarrow> go_error option) \<Rightarrow> string \<times> go_error option \<Rightarrow> bool \<Rightarrow> (go_error, string) result" where
  "decodeYEncReader ctx src verifyCRC = fst (decodeYEncReaderWithTotal ctx src verifyCRC)"

definition crlf :: string where "crlf = [CHR 0x0D, CHR 0x0A]"

definition decodeYEncLines :: "string list \<Rightarrow> bool \<Rightarrow> (go_error, string) result" where
  "decodeYEncLines ls verifyCRC = decodeYEncReader (\<lambda>_. None) (concat (map (\<lambda>l. l @ crlf) ls), None) verifyCRC"

definition DecodeYEncLines :: "string list \<Rightarrow> (go_error, string) result" where
  "DecodeYEncLines ls = decodeYEncLines ls True"

subsection \<open>The checksum sees every change of one byte\<close>

lemma crcBit_top: "bit (crcBit w) 31 = bit w 0"
  by (auto simp: crcBit_def crcPoly_def bit_simps dest: bit_imp_le_length)

lemma crcBit_inject: "crcBit v = crcBit w \<longleftrightarrow> v = w"
proof
  assume e: "crcBit v = crcBit w"
  then have low: "bit v 0 = bit w 0" by (metis crcBit_top)
  have shifted: "drop_bit 1 v = drop_bit 1 w"
    using e low by (simp add: crcBit_def split: if_splits) (metis (no_types) bit.xor_cancel_right xor.assoc xor_self_eq xor.right_neutral)
  show "v = w"
  proof (rule bit_word_eqI)
    fix n :: nat
    show "bit v n = bit w n"
      using low shifted by (cases n) (auto simp: bit_drop_bit_eq dest!: arg_cong [where f = "\<lambda>x. bit x (n - 1)"])
  qed
qed simp

lemma crcBits_inject: "(crcBit ^^ n) v = (crcBit ^^ n) w \<longleftrightarrow> v = w"
  by (induction n) (simp_all add: crcBit_inject)

lemma xor_cancel: "(x :: 32 word) XOR a = x XOR b \<longleftrightarrow> a = b"
  by (metis xor.assoc xor_self_eq xor.left_neutral)

lemma crcByte_inject: "crcByte v c = crcByte w c \<longleftrightarrow> v = w"
  by (simp add: crcByte_def crcBits_inject) (metis xor.commute xor_cancel)

lemma of_char_take_bit: "take_bit 32 (of_char c :: nat) = of_char c"
proof -
  have "(of_char c :: nat) < 256" by simp
  also have "(256 :: nat) < 2 ^ 32" by simp
  finally show ?thesis by (rule take_bit_nat_eq_self)
qed

lemma crcByte_char: "crcByte w c = crcByte w d \<longleftrightarrow> c = d"
proof -
  have "(word_of_nat (of_char c) :: 32 word) = word_of_nat (of_char d) \<longleftrightarrow> (of_char c :: nat) = of_char d"
    using of_char_take_bit by (simp add: word_of_nat_eq_iff)
  then show ?thesis by (simp add: crcByte_def crcBits_inject xor_cancel)
qed

lemma crc_fold_inject: "foldl crcByte v s = foldl crcByte w s \<longleftrightarrow> v = w"
  by (induction s arbitrary: v w) (simp_all add: crcByte_inject)

lemma checksum_single_byte:
  assumes "i < length s" and "c \<noteq> s ! i"
  shows "ChecksumIEEE (s[i := c]) \<noteq> ChecksumIEEE s"
proof -
  have "s = take i s @ s ! i # drop (Suc i) s" "s[i := c] = take i s @ c # drop (Suc i) s"
    using assms(1) by (simp_all add: id_take_nth_drop upd_conv_take_nth_drop)
  moreover have "ChecksumIEEE (a @ x # b) = ChecksumIEEE (a @ y # b) \<longleftrightarrow> x = y" for a b :: string and x y
    by (simp add: ChecksumIEEE_def crc_fold_inject crcByte_char)
  ultimately show ?thesis using assms(2) by metis
qed

subsection \<open>The encoding rule\<close>

text \<open>
  The rule the package comment states, with the four critical bytes escaped: the reference the decoder is measured against.
\<close>

definition encYEncByte :: "char \<Rightarrow> string" where
  "encYEncByte c =
     (let e = (of_char c + 42) mod 256 :: nat
      in if e \<in> {0, 10, 13, 61} then [CHR ''='', char_of (e + 64)] else [char_of e])"

definition encYEnc :: "string \<Rightarrow> string" where
  "encYEnc s = concat (map encYEncByte s)"

lemma byteMod_enc:
  "byteMod (int ((of_char c + 42) mod 256) - 42) = c" "byteMod (int ((of_char c + 42) mod 256 + 64) - 64 - 42) = c"
proof -
  have "nat ((int ((of_char c + 42) mod 256) - 42) mod 256) = of_char c"
    by (simp add: zmod_int mod_diff_left_eq)
  then show "byteMod (int ((of_char c + 42) mod 256) - 42) = c"
    and "byteMod (int ((of_char c + 42) mod 256 + 64) - 64 - 42) = c" by (simp_all add: byteMod_def)
qed

lemma decodeYEncBytes_plain: "b \<noteq> CHR ''='' \<Longrightarrow> decodeYEncBytes (b # rest) = byteMod (int (of_char b) - 42) # decodeYEncBytes rest"
  by (cases rest) simp_all

lemma char_of_escape: "char_of (61 :: nat) = CHR ''=''" "char_of (10 :: nat) = CHR 0x0A" "char_of (13 :: nat) = CHR 0x0D"
  "char_of (64 :: nat) = CHR ''@''" "char_of (74 :: nat) = CHR ''J''" "char_of (77 :: nat) = CHR ''M''" "char_of (125 :: nat) = CHR ''}''"
  by code_simp+

lemma char_of_plain:
  "e < 256 \<Longrightarrow> e \<notin> {0, 10, 13, 61 :: nat} \<Longrightarrow> char_of e \<notin> {CHR ''='', CHR 0x0A, CHR 0x0D}"
  by (simp flip: char_of_escape)

lemma encYEncByte_cases:
  obtains (plain) b where "encYEncByte c = [b]" "b \<notin> {CHR ''='', CHR 0x0A, CHR 0x0D}" "byteMod (int (of_char b) - 42) = c"
    | (escaped) b where "encYEncByte c = [CHR ''='', b]" "b \<in> {CHR ''@'', CHR ''J'', CHR ''M'', CHR ''}''}"
        "byteMod (int (of_char b) - 64 - 42) = c"
proof -
  define e :: nat where "e = (of_char c + 42) mod 256"
  have r: "byteMod (int e - 42) = c" "byteMod (int (e + 64) - 64 - 42) = c" using byteMod_enc [of c] by (simp_all add: e_def)
  have lt: "e < 256" by (simp add: e_def)
  show thesis
  proof (cases "e \<in> {0, 10, 13, 61}")
    case True
    then have "encYEncByte c = [CHR ''='', char_of (e + 64)]" by (simp add: encYEncByte_def Let_def flip: e_def)
    moreover have "char_of (e + 64) \<in> {CHR ''@'', CHR ''J'', CHR ''M'', CHR ''}''}" "of_char (char_of (e + 64) :: char) = e + 64"
      using True char_of_escape by auto
    ultimately show thesis using r(2) by (intro escaped [of "char_of (e + 64)"]) (assumption, assumption, simp only:)
  next
    case False
    then have "encYEncByte c = [char_of e]" by (simp add: encYEncByte_def Let_def flip: e_def)
    moreover have "of_char (char_of e :: char) = e" using lt by simp
    ultimately show thesis using r(1) char_of_plain [OF lt False] by (intro plain [of "char_of e"]) (assumption, assumption, simp only:)
  qed
qed

lemma decode_encYEncByte: "decodeYEncBytes (encYEncByte c @ rest) = c # decodeYEncBytes rest"
  by (cases c rule: encYEncByte_cases) (simp_all add: decodeYEncBytes_plain)

lemma decode_encYEnc: "decodeYEncBytes (encYEnc s) = s"
  by (induction s) (simp_all add: encYEnc_def decode_encYEncByte)

text \<open>An encoded line is free of line breaks, does not end in an escape and is never taken for a control line.\<close>

lemma encYEncByte_safe:
  "encYEncByte c \<noteq> []" "last (encYEncByte c) \<noteq> CHR ''=''" "CHR 0x0A \<notin> set (encYEncByte c)" "CHR 0x0D \<notin> set (encYEncByte c)"
  "\<not> HasPrefix (encYEncByte c @ rest) (CHR ''='' # CHR ''y'' # w)"
  by (cases c rule: encYEncByte_cases; force simp: HasPrefix_def)+

lemma encYEnc_nonempty: "encYEnc s = [] \<longleftrightarrow> s = []"
  by (cases s) (simp_all add: encYEnc_def encYEncByte_safe)

lemma encYEnc_safe:
  "CHR 0x0A \<notin> set (encYEnc s)" "\<not> HasPrefix (encYEnc s) (CHR ''='' # CHR ''y'' # w)"
proof -
  show "CHR 0x0A \<notin> set (encYEnc s)" by (simp add: encYEnc_def encYEncByte_safe)
  show "\<not> HasPrefix (encYEnc s) (CHR ''='' # CHR ''y'' # w)"
  proof (cases s)
    case Nil
    then show ?thesis by (simp add: encYEnc_def HasPrefix_def)
  next
    case (Cons c r)
    then show ?thesis using encYEncByte_safe(5) by (simp add: encYEnc_def)
  qed
qed

lemma encYEnc_last: "s \<noteq> [] \<Longrightarrow> last (encYEnc s) \<noteq> CHR ''=''"
  by (induction s rule: rev_induct) (simp_all add: encYEnc_def encYEncByte_safe)

lemma encYEnc_length: "length s \<le> length (encYEnc s)"
  by (induction s) (simp_all add: encYEnc_def encYEncByte_def Let_def)

subsection \<open>Scanning a framed article\<close>

lemma splitLines_line: "CHR 0x0A \<notin> set a \<Longrightarrow> splitLines cur (a @ CHR 0x0A # rest) = (rev cur @ a) # splitLines [] rest"
  by (induction a arbitrary: cur) auto

lemma splitLines_crlf:
  "\<forall>l \<in> set ls. CHR 0x0A \<notin> set l \<Longrightarrow>
    splitLines [] (concat (map (\<lambda>l. l @ crlf) ls)) = map (\<lambda>l. l @ [CHR 0x0D]) ls"
proof (induction ls)
  case (Cons l ls)
  then have "CHR 0x0A \<notin> set (l @ [CHR 0x0D])" by simp
  from splitLines_line [OF this, of "[]"] Cons show ?case by (simp add: crlf_def)
qed simp

lemma yencLoop_crlf:
  "\<forall>l \<in> set ls. int (length l) + 1 < yEncMaxLineBytes \<Longrightarrow>
    yencLoop (\<lambda>_. None) n st (map (\<lambda>l. l @ [CHR 0x0D]) ls) = (Inr (foldl yencLine st ls), foldl yencLine st ls)"
  by (induction ls arbitrary: n st) (auto simp: dropCR_def)

lemma decodeYEncLines_scan:
  assumes "\<forall>l \<in> set ls. CHR 0x0A \<notin> set l \<and> int (length l) + 1 < yEncMaxLineBytes"
    and "int (length (concat (map (\<lambda>l. l @ crlf) ls))) \<le> yEncMaxEncodedBytes"
  shows "decodeYEncLines ls v = finishYEnc v (foldl yencLine yencStart ls)"
proof -
  let ?body = "concat (map (\<lambda>l. l @ crlf) ls)"
  have "splitLines [] ?body = map (\<lambda>l. l @ [CHR 0x0D]) ls" using assms(1) by (intro splitLines_crlf) blast
  moreover have "yencLoop (\<lambda>_. None) 0 yencStart (map (\<lambda>l. l @ [CHR 0x0D]) ls) = (Inr (foldl yencLine yencStart ls), foldl yencLine yencStart ls)"
    using assms(1) by (intro yencLoop_crlf) blast
  moreover have "(yEncMaxEncodedBytes + 1 \<le> int (length ?body)) = False" using assms(2) by (subst eq_False) linarith
  ultimately show ?thesis
    by (simp only: decodeYEncLines_def decodeYEncReader_def decodeYEncReaderWithTotal_def Let_def prod.case sum.case option.case if_False fst_conv)
qed

text \<open>The state between the begin line and the end line.\<close>

definition openBody :: "bool \<Rightarrow> string \<Rightarrow> yenc_state \<Rightarrow> bool" where
  "openBody d out st \<longleftrightarrow> semanticErr st = None \<and> seenBegin st \<and> seenData st = d \<and> \<not> seenEnd st \<and> y_result st = out"

lemma HasPrefix_clash: "HasPrefix l p \<Longrightarrow> HasPrefix l q \<Longrightarrow> take (min (length p) (length q)) p = take (min (length p) (length q)) q"
proof -
  assume "HasPrefix l p" "HasPrefix l q"
  then have "p = take (length p) l" "q = take (length q) l" by (simp_all add: HasPrefix_def)
  moreover have "take (min a b) (take a l) = take (min a b) (take b l)" for a b :: nat by (simp add: min.commute)
  ultimately show ?thesis by metis
qed

lemma HasPrefix_nonempty: "HasPrefix l p \<Longrightarrow> p \<noteq> [] \<Longrightarrow> l \<noteq> []"
  by (auto simp: HasPrefix_def)

lemma yencLine_begin:
  assumes "HasPrefix b ''=ybegin''"
  shows "openBody False [] (yencLine yencStart b)"
  using assms HasPrefix_nonempty [OF assms] unfolding yencLine_def Let_def openBody_def yencStart_def by simp

lemma yencLine_part:
  assumes "openBody False [] st" and "HasPrefix p ''=ypart''"
  shows "openBody False [] (yencLine st p)"
proof -
  have "\<not> HasPrefix p ''=ybegin''" using HasPrefix_clash [OF assms(2), of "''=ybegin''"] by auto
  with assms HasPrefix_nonempty [OF assms(2)] show ?thesis
    unfolding yencLine_def Let_def openBody_def by (simp split: option.split)
qed

lemma yencLine_end:
  assumes "openBody True d st" and "HasPrefix t ''=yend''"
  shows "finishYEnc v (yencLine st t) =
    finishYEnc v (yencStart\<lparr>y_result := d, seenBegin := True, seenData := True, seenEnd := True, yendLine := t\<rparr>)"
proof -
  have "\<not> HasPrefix t ''=ybegin''" "\<not> HasPrefix t ''=ypart''"
    using HasPrefix_clash [OF assms(2), of "''=ybegin''"] HasPrefix_clash [OF assms(2), of "''=ypart''"] by auto
  with assms HasPrefix_nonempty [OF assms(2)] show ?thesis
    unfolding yencLine_def Let_def openBody_def finishYEnc_def yencStart_def by (simp split: option.split)
qed

lemma yencLine_data:
  assumes "openBody b d st" and "c \<noteq> []" and "int (length d) + int (length (encYEnc c)) \<le> yEncMaxDecodedBytes"
  shows "openBody True (d @ c) (yencLine st (encYEnc c))"
  using assms encYEnc_last [OF assms(2)]
  unfolding yencLine_def Let_def openBody_def by (simp add: encYEnc_safe encYEnc_nonempty decode_encYEnc)

lemma yenc_parts:
  "openBody False [] st \<Longrightarrow> \<forall>p \<in> set ps. HasPrefix p ''=ypart'' \<Longrightarrow> openBody False [] (foldl yencLine st ps)"
  by (induction ps arbitrary: st) (simp_all add: yencLine_part)

lemma yenc_chunks:
  "openBody b d st \<Longrightarrow> \<forall>c \<in> set cs. c \<noteq> [] \<Longrightarrow> int (length d) + int (length (concat (map encYEnc cs))) \<le> yEncMaxDecodedBytes \<Longrightarrow>
    openBody (b \<or> cs \<noteq> []) (d @ concat cs) (foldl yencLine st (map encYEnc cs))"
proof (induction cs arbitrary: st b d)
  case (Cons c cs)
  have "openBody True (d @ c) (yencLine st (encYEnc c))" using Cons.prems by (intro yencLine_data) auto
  moreover have "int (length (d @ c)) + int (length (concat (map encYEnc cs))) \<le> yEncMaxDecodedBytes"
    using Cons.prems(3) encYEnc_length [of c] by simp
  ultimately show ?case using Cons.IH [of True "d @ c"] Cons.prems(2) by simp
qed simp

text \<open>An article of a begin line, part lines, encoded chunks and a trailer, within the bounds of the decoder.\<close>

definition yencArticle :: "string \<Rightarrow> string list \<Rightarrow> string list \<Rightarrow> string \<Rightarrow> string list" where
  "yencArticle b ps chunks t = b # ps @ map encYEnc chunks @ [t]"

definition yencWellFramed :: "string \<Rightarrow> string list \<Rightarrow> string list \<Rightarrow> string \<Rightarrow> bool" where
  "yencWellFramed b ps chunks t \<longleftrightarrow>
     HasPrefix b ''=ybegin'' \<and> list_all (\<lambda>p. HasPrefix p ''=ypart'') ps \<and> chunks \<noteq> [] \<and> [] \<notin> set chunks \<and>
     list_all (\<lambda>l. CHR 0x0A \<notin> set l) (b # ps) \<and>
     list_all (\<lambda>l. int (length l) + 1 < yEncMaxLineBytes) (yencArticle b ps chunks t) \<and>
     int (length (concat (map encYEnc chunks))) \<le> yEncMaxDecodedBytes \<and>
     int (length (concat (map (\<lambda>l. l @ crlf) (yencArticle b ps chunks t)))) \<le> yEncMaxEncodedBytes"

lemma decode_framed:
  assumes "yencWellFramed b ps chunks t" and "HasPrefix t ''=yend''" and "CHR 0x0A \<notin> set t"
  shows "decodeYEncLines (yencArticle b ps chunks t) v =
    finishYEnc v (yencStart\<lparr>y_result := concat chunks, seenBegin := True, seenData := True, seenEnd := True, yendLine := t\<rparr>)"
proof -
  let ?st = "foldl yencLine (foldl yencLine (yencLine yencStart b) ps) (map encYEnc chunks)"
  note w = assms(1) [unfolded yencWellFramed_def list_all_iff]
  have "openBody False [] (foldl yencLine (yencLine yencStart b) ps)" using w yencLine_begin by (intro yenc_parts) auto
  then have "openBody True (concat chunks) ?st" using w yenc_chunks [of False "[]" _ chunks] by fastforce
  moreover have "decodeYEncLines (yencArticle b ps chunks t) v = finishYEnc v (foldl yencLine yencStart (yencArticle b ps chunks t))"
    using w assms(3) encYEnc_safe(1) by (intro decodeYEncLines_scan) (auto simp: yencArticle_def)
  ultimately show ?thesis using yencLine_end [OF _ assms(2)] by (simp add: yencArticle_def)
qed

subsection \<open>The trailer\<close>

fun hexDigits :: "nat \<Rightarrow> nat \<Rightarrow> string" where
  "hexDigits 0 n = []"
| "hexDigits (Suc k) n = hexDigits k (n div 16) @ [hex_chr (n mod 16)]"

definition yencTrailer :: "string \<Rightarrow> string" where
  "yencTrailer d = ''=yend size='' @ dec (length d) @ '' crc32='' @ hexDigits 8 (unat (ChecksumIEEE d))"

lemma hexValue_append: "hexValue (a @ b) acc = Option.bind (hexValue a acc) (hexValue b)"
  by (induction a arbitrary: acc) (simp_all split: option.split)

lemma hexValue_digits: "hexValue (hexDigits k n) 0 = Some (n mod 16 ^ k)"
proof (induction k arbitrary: n)
  case (Suc k)
  have "n mod 16 ^ Suc k = 16 * (n div 16 mod 16 ^ k) + n mod 16" by (simp add: mod_mult2_eq)
  with Suc show ?case by (simp add: hexValue_append hex_val_chr)
qed simp

lemma length_hexDigits [simp]: "length (hexDigits k n) = k"
  by (induction k arbitrary: n) simp_all

definition visible :: "char \<Rightarrow> bool" where
  "visible c \<longleftrightarrow> 33 \<le> (of_char c :: nat) \<and> (of_char c :: nat) < 128"

lemma hex_chr_visible: "d < 16 \<Longrightarrow> visible (hex_chr d) \<and> hex_chr d \<noteq> CHR ''p''"
proof -
  assume "d < 16"
  then have "(of_char (hex_chr d) :: nat) = (if d < 10 then 48 + d else 87 + d)" by (simp add: hex_chr_def)
  moreover have "(of_char (CHR ''p'') :: nat) = 112" by simp
  ultimately have "(of_char (hex_chr d) :: nat) \<noteq> of_char (CHR ''p'')" "visible (hex_chr d)"
    using \<open>d < 16\<close> by (simp_all add: visible_def split: if_splits)
  then show ?thesis by metis
qed

lemma hexDigits_visible: "c \<in> set (hexDigits k n) \<Longrightarrow> visible c \<and> c \<noteq> CHR ''p''"
  by (induction k arbitrary: n) (auto simp: hex_chr_visible)

lemma dec_visible: "c \<in> set (dec n) \<Longrightarrow> visible c \<and> c \<noteq> CHR ''p''"
  using dec_digits [of c n] by (auto simp: visible_def is_digit_def)

lemma trailer_absent:
  "CHR ''p'' \<notin> set (dec n)" "CHR 0x0A \<notin> set (dec n)" "CHR '' '' \<notin> set (dec n)"
  "CHR ''p'' \<notin> set (hexDigits k m)" "CHR 0x0A \<notin> set (hexDigits k m)"
  by (auto dest!: dec_visible hexDigits_visible simp: visible_def)

lemma visible_not_lead: "visible c \<Longrightarrow> \<not> is_space_lead c"
  by (auto simp: visible_def is_space_lead_def space_codes_def)

lemma no_space_prefix: "\<not> is_space_lead c \<Longrightarrow> find (HasPrefix (c # cs)) space_codes = None"
proof (rule ccontr)
  assume c: "\<not> is_space_lead c" and "find (HasPrefix (c # cs)) space_codes \<noteq> None"
  then obtain p where p: "p \<in> set space_codes" "HasPrefix (c # cs) p" by (auto simp: find_None_iff)
  with space_codes_nonempty obtain q where "p = c # q" by (cases p) (auto simp: HasPrefix_def)
  with p(1) c show False by (force simp: is_space_lead_def)
qed

lemma fieldsLoop_word: "\<forall>c \<in> set w. visible c \<Longrightarrow> fieldsLoop 0 cur (w @ rest) = fieldsLoop 0 (rev w @ cur) rest"
  by (induction w arbitrary: cur) (simp_all add: no_space_prefix visible_not_lead)

lemma fieldsLoop_space: "fieldsLoop 0 cur (CHR '' '' # cs) = (if cur = [] then [] else [rev cur]) @ fieldsLoop 0 [] cs"
proof -
  have space: "CHR '' '' = char_of (32 :: nat)" by code_simp
  have "find (HasPrefix (CHR '' '' # cs)) space_codes = Some '' ''" unfolding space by (simp add: space_codes_def HasPrefix_def)
  then show ?thesis by simp
qed

lemma Fields_cons: "w \<noteq> [] \<Longrightarrow> \<forall>c \<in> set w. visible c \<Longrightarrow> Fields (w @ CHR '' '' # rest) = w # Fields rest"
  by (simp add: Fields_def fieldsLoop_word fieldsLoop_space del: fieldsLoop.simps)

lemma Fields_single: "w \<noteq> [] \<Longrightarrow> \<forall>c \<in> set w. visible c \<Longrightarrow> Fields w = [w]"
  using fieldsLoop_word [of w "[]" "[]"] by (simp add: Fields_def)

lemma Index_skip: "c \<notin> set a \<Longrightarrow> Index (a @ s) (c # p) = map_option (\<lambda>i. length a + i) (Index s (c # p))"
  by (induction a) (cases "Index s (c # p)"; auto simp: HasPrefix_def)+

lemma Index_absent: "c \<in> set p \<Longrightarrow> c \<notin> set s \<Longrightarrow> Index s p = None"
proof (induction s)
  case (Cons a s)
  then have "\<not> HasPrefix (a # s) p" by (metis HasPrefix_def in_set_takeD)
  with Cons show ?case by simp
qed auto

lemma Contains_append: "Contains s p \<Longrightarrow> Contains (a @ s) p"
  by (induction a) simp_all

lemma trailer_words:
  "\<forall>c \<in> set (''size='' @ dec n). visible c" "\<forall>c \<in> set (''crc32='' @ hexDigits k m). visible c" "\<forall>c \<in> set ''=yend''. visible c"
  using dec_visible hexDigits_visible by (auto simp: visible_def)

lemma trailer_size:
  assumes "int (length d) \<le> yEncMaxDecodedBytes"
  shows "Contains (yencTrailer d) ''size=''" "yEncIntField (yencTrailer d) ''size'' = Some (int (length d))"
proof -
  let ?w = "''size='' @ dec (length d)" and ?c = "''crc32='' @ hexDigits 8 (unat (ChecksumIEEE d))"
  have t: "yencTrailer d = ''=yend'' @ CHR '' '' # ?w @ CHR '' '' # ?c" by (simp add: yencTrailer_def)
  have "Contains (?w @ CHR '' '' # ?c) ''size=''" by (simp add: HasPrefix_def)
  then show "Contains (yencTrailer d) ''size=''"
    using Contains_append [of _ "''size=''" "''=yend ''"] by (simp add: t)
  have "Fields (yencTrailer d) = [''=yend'', ?w, ?c]"
    unfolding t
    by (subst Fields_cons [OF _ trailer_words(3)], simp) (subst Fields_cons [OF _ trailer_words(1)], simp, simp add: Fields_single [OF _ trailer_words(2)] del: append.simps)
  moreover have "int (length d) < 2 ^ (64 - 1)" using assms by (simp add: yEncMaxDecodedBytes_def)
  ultimately show "yEncIntField (yencTrailer d) ''size'' = Some (int (length d))"
    by (simp add: yEncIntField_def HasPrefix_def ParseInt_dec)
qed

lemma trailer_crc: "announcedCRC (yencTrailer d) = Some (unat (ChecksumIEEE d))"
proof -
  let ?n = "dec (length d)" and ?h = "hexDigits 8 (unat (ChecksumIEEE d))"
  have "CHR ''p'' \<notin> set (yencTrailer d)" by (simp add: yencTrailer_def trailer_absent)
  then have "Index (yencTrailer d) '' pcrc32='' = None" by (rule Index_absent [rotated]) simp
  moreover have i: "Index (yencTrailer d) '' crc32='' = Some (11 + length ?n)"
  proof -
    have "CHR '' '' \<notin> set ''=yend''" "CHR '' '' \<notin> set (''size='' @ ?n)" by (simp_all add: trailer_absent)
    moreover have "Index ('' crc32='' @ ?h) '' crc32='' = Some 0" by (simp add: HasPrefix_def)
    moreover have "\<not> HasPrefix (CHR '' '' # ''size='' @ ?n @ '' crc32='' @ ?h) '' crc32=''" by (simp add: HasPrefix_def)
    ultimately show ?thesis
      using Index_skip [of "CHR '' ''" "''=yend''" "CHR '' '' # ''size='' @ ?n @ '' crc32='' @ ?h" "''crc32=''"]
        Index_skip [of "CHR '' ''" "''size='' @ ?n" "'' crc32='' @ ?h" "''crc32=''"] by (simp add: yencTrailer_def)
  qed
  have "takeWhile (\<lambda>c. c \<notin> {CHR '' '', CHR 0x09, CHR 0x0D, CHR 0x0A}) ?h = ?h"
    using hexDigits_visible by (fastforce simp: takeWhile_eq_all_conv visible_def)
  moreover have "drop (11 + length ?n + length '' crc32='') (yencTrailer d) = ?h"
  proof -
    let ?a = "''=yend size='' @ ?n @ '' crc32=''"
    have "yencTrailer d = ?a @ ?h" "11 + length ?n + length '' crc32='' = length ?a" by (simp_all add: yencTrailer_def)
    then show ?thesis by (metis append_eq_conv_conj)
  qed
  moreover have "unat (ChecksumIEEE d) mod 16 ^ 8 = unat (ChecksumIEEE d)"
    using unsigned_less [of "ChecksumIEEE d", where ?'a = nat] by simp
  ultimately show ?thesis using hexValue_digits [of 8] i
    by (simp only: announcedCRC_def crcField_def Let_def option.case length_hexDigits if_True simp_thms)
qed

subsection \<open>Round trip and detection\<close>

lemma yencTrailer_line: "HasPrefix (yencTrailer d) ''=yend''" "CHR 0x0A \<notin> set (yencTrailer d)"
  by (simp_all add: yencTrailer_def HasPrefix_def trailer_absent)

text \<open>C29: An article written by the encoding rule (a begin line, part lines, non-empty encoded chunks and a trailer with the size and
  the checksum of the data) that keeps to the bounds of the decoder decodes to exactly the bytes that were encoded.\<close>

theorem yenc_roundtrip:
  assumes "yencWellFramed b ps chunks (yencTrailer (concat chunks))"
  shows "DecodeYEncLines (yencArticle b ps chunks (yencTrailer (concat chunks))) = Inr (concat chunks)"
proof -
  have "length (concat chunks) \<le> length (concat (map encYEnc chunks))"
    by (induction chunks) (auto intro: add_mono encYEnc_length)
  then have "int (length (concat chunks)) \<le> yEncMaxDecodedBytes" using assms by (simp add: yencWellFramed_def)
  from trailer_size [OF this] trailer_crc [of "concat chunks"] show ?thesis
    unfolding DecodeYEncLines_def decode_framed [OF assms yencTrailer_line]
    by (simp add: finishYEnc_def yencStart_def validateYEnd_def)
qed

theorem yenc_roundtrip_witness:
  "DecodeYEncLines (yencArticle ''=ybegin line=128 size=4 name=a'' [''=ypart begin=1 end=4''] [[CHR 0x13, CHR 0x00], ''ab'']
     (yencTrailer (concat [[CHR 0x13, CHR 0x00], ''ab'']))) = Inr [CHR 0x13, CHR 0x00, CHR ''a'', CHR ''b'']"
proof -
  let ?b = "''=ybegin line=128 size=4 name=a''" and ?ps = "[''=ypart begin=1 end=4'']" and ?cs = "[[CHR 0x13, CHR 0x00], ''ab'']"
  have d: "dec (Suc (Suc (Suc (Suc 0)))) = ''4''" by code_simp
  have "yencWellFramed ?b ?ps ?cs (yencTrailer (concat ?cs))"
    by (simp add: yencWellFramed_def yencArticle_def yencTrailer_def d encYEnc_def encYEncByte_def Let_def crlf_def HasPrefix_def
        yEncMaxLineBytes_def yEncMaxEncodedBytes_def yEncMaxDecodedBytes_def)
  from yenc_roundtrip [OF this] show ?thesis by simp
qed

text \<open>C30: An article whose payload differs in one byte from the data its trailer was written for is refused with the checksum error: the
  decoder never returns bytes with a single corrupted byte.\<close>

theorem yenc_corruption_detected:
  assumes "yencWellFramed b ps chunks (yencTrailer d)"
    and "concat chunks = d[i := c]" and "i < length d" and "c \<noteq> d ! i"
  shows "DecodeYEncLines (yencArticle b ps chunks (yencTrailer d)) = Inl (Plain ''nntp: yenc crc32 mismatch'')"
proof -
  have "length (concat chunks) \<le> length (concat (map encYEnc chunks))"
    by (induction chunks) (auto intro: add_mono encYEnc_length)
  then have "int (length d) \<le> yEncMaxDecodedBytes" using assms(1,2) by (simp add: yencWellFramed_def)
  from trailer_size [OF this] trailer_crc [of d] checksum_single_byte [OF assms(3,4)] show ?thesis
    unfolding DecodeYEncLines_def decode_framed [OF assms(1) yencTrailer_line]
    by (simp add: finishYEnc_def yencStart_def validateYEnd_def assms(2))
qed

theorem yenc_corruption_detected_witness:
  "DecodeYEncLines (yencArticle ''=ybegin line=128 size=2 name=a'' [] [''ab''] (yencTrailer ''aB'')) = Inl (Plain ''nntp: yenc crc32 mismatch'')"
proof -
  let ?b = "''=ybegin line=128 size=2 name=a''"
  have d: "dec (Suc (Suc 0)) = ''2''" by code_simp
  have "yencWellFramed ?b [] [''ab''] (yencTrailer ''aB'')"
    by (simp add: yencWellFramed_def yencArticle_def yencTrailer_def d encYEnc_def encYEncByte_def Let_def crlf_def HasPrefix_def
        yEncMaxLineBytes_def yEncMaxEncodedBytes_def yEncMaxDecodedBytes_def)
  from yenc_corruption_detected [OF this, of 1 "CHR ''b''"] show ?thesis by simp
qed

end
