(* ===== verification/Spec2Isabelle.thy ===== *)
theory Spec2Isabelle
  imports AccountGov PAR2Solver Ladder SearchBudget NntpHealth CrossLane TorrentProof ReactiveService YEnc
begin

text \<open>
  A verification development for DarkHarrbor, a Go service that presents torrent, Usenet and HTTP
  sources to media managers as one download client and streams them on demand. All paths below are
  under \<open>src/src/internal/\<close>.

  \<^bold>\<open>The program and its core.\<close> Requests for bytes arrive over HTTP and are served from three lanes:
  cached torrents of debrid providers, Usenet articles and direct HTTP sources. What the
  lanes share is a core of components without I/O of their own, and that core is what this
  development models:

  \<^item> \<open>accountgov\<close> bounds the concurrent use of provider accounts by leases with priorities, and adapts
    the number of connections to rejections;
  \<^item> \<open>outcome\<close> is the vocabulary of failures that cross lanes, with the rate limiter of their log lines;
  \<^item> \<open>ladder\<close> walks recovery steps in order, under leases of the governor, by the class of each failure;
  \<^item> \<open>searchbudget\<close> stops searches that keep finding nothing, keyed by \<open>mediaidentity\<close>;
  \<^item> \<open>nntp\<close> decodes yEnc articles, keeps a negative article cache and the health of Usenet providers;
  \<^item> \<open>archive/gf16.go\<close> repairs missing PAR2 blocks over the field with \<open>2 ^ 16\<close> elements;
  \<^item> \<open>bytesource\<close> is the interface to random-access bytes, with sources in memory and over chunks;
  \<^item> \<open>playbackcoverage\<close> keeps the ranges of bytes and playing time that clients received, and proposes a
    title for acquisition once enough of it was delivered; \<open>reactivecommit\<close>, \<open>reactivequeue\<close> and \<open>reactivedispatch\<close> commit
    such a title to a media manager, automatically or by an operator's decision, and undo it;
  \<^item> \<open>torrentmeta\<close> decodes torrent files, verifies windows of bytes against piece hashes and turns piece
    hashes into proofs;
  \<^item> \<open>contentproof\<close> is a graph of digests that decides whether two representations carry the same bytes,
    \<open>store\<close> holds its tables, and \<open>crosslane\<close> uses it to take a block from any lane that can prove it.

  \<^bold>\<open>Theories.\<close> Each theory models the files it names, in the order of the code, and keeps the
  names of functions and types where possible (a prefix or suffix resolves a clash).

  \<^item> \<open>DH_Prelude\<close>: the parts of the Go library the code uses: \<open>int64\<close> wrap-around, truncating division, decimal and
    hexadecimal text, \<open>strings\<close> functions on bytes, times as nanoseconds and the order of their
    RFC 3339 text; \<open>StableSort\<close>: stable sorting by a \<open>less\<close> function.
  \<^item> \<open>AccountGov\<close> (\<open>accountgov/accountgov.go\<close>): every critical section is a function on the governor's
    state, concurrent callers are the step relation \<open>gov_step\<close>. No oversubscription and work conservation
    in every reachable state, the choice of the best waiter, no grant lost by a cancellation;
    bounds and recovery of the connection ceiling.
  \<^item> \<open>GF16\<close>, \<open>PAR2Solver\<close> (\<open>archive/gf16.go\<close>): the log tables, the arithmetic and the solver. The table product is the carry-less
    product modulo the polynomial and the words form a field; the inversion inverts; a repair that
    got its slices before its surviving blocks and succeeds returns the lost blocks.
  \<^item> \<open>Outcome\<close> (\<open>outcome/outcome.go\<close>, \<open>outcome/limiter.go\<close>, parts of \<open>httpstream/errors.go\<close> and \<open>provider/types.go\<close>):
    classification is stable under wrapping, cooldowns are bounded, the limiter accounts for every occurrence.
  \<^item> \<open>Ladder\<close> (\<open>ladder/ladder.go\<close>): the contract of the walk and the return of every lease, the latter for a
    ladder that is one caller of the modelled governor, while others acquire, wait, cancel and release around its own calls.
  \<^item> \<open>MediaIdentity\<close>, \<open>SearchBudget\<close> (\<open>mediaidentity/identity.go\<close>, \<open>searchbudget/searchbudget.go\<close>,
    \<open>store/search_budgets.go\<close>): admission is serialised per identity, the budget over its table implements the
    abstract rule on the history of searches, keys are injective.
  \<^item> \<open>NntpHealth\<close> (\<open>nntp/negcache.go\<close>, \<open>nntp/health.go\<close>): soundness and bound of the cache, the backoff schedule from the second failure on, the order of
    candidates. The health of each candidate is asked on its own, so \<open>orderCandidates\<close> takes one view of the provider states and the clock per question; the
    comparisons inside its sorts see a single view.
  \<^item> \<open>ByteSources\<close> (\<open>bytesource/bytesource.go\<close>): the contract of \<open>io.ReaderAt\<close> as the locale \<open>reader_at\<close>, interpreted for both
    sources; chunked reads refine reads of the concatenation.
  \<^item> \<open>Bencode\<close>, \<open>TorrentMeta\<close>, \<open>TorrentVerify\<close>, \<open>TorrentProof\<close> (the four files of \<open>torrentmeta/\<close>): the decoder inverts the encoder
    and spans are exact; parsed metadata is well-formed (with exact extents as long as the sizes add up to an \<open>int64\<close>) and its info hashes cover the info dictionary
    exactly; window verdicts are right; piece hashes are Merkle roots; native proofs are the right ones.
  \<^item> \<open>ContentProof\<close>, \<open>ProofStore\<close>, \<open>Convergence\<close>, \<open>ProofLanes\<close> (the five files of \<open>contentproof/\<close> and
    \<open>store/content_proofs.go\<close>, \<open>store/content_continuity.go\<close>, \<open>store/representation_convergence.go\<close>): the graph
    against an interface of its repository, the locale \<open>proof_repo\<close>, interpreted for the tables. Verification, and comparison
    of representations that are not yet converged, are decided by the authoritative evidence, revocation forgets, retention is
    bounded, convergence implements the union of equivalence classes, the ledger and the HTTP
    mapping record only what the evidence supports.
  \<^item> \<open>CrossLane\<close> (\<open>crosslane/coordinator.go\<close>): a recovered block is proven; it composes the ladder, the graph, the
    byte sources and the converger.
  \<^item> \<open>PlaybackCoverage\<close> (\<open>playbackcoverage/coverage.go\<close>, \<open>store/playback_coverage.go\<close>, \<open>store/playback_media_coverage.go\<close>,
    \<open>store/playback_proposals.go\<close>): merging a span implements the union of sets of positions and the delivered
    count is the size of that set; both tables are instances of one interface, the locale \<open>interval_repo\<close>.
  \<^item> \<open>ReactiveStore\<close> (\<open>store/reactive_commits.go\<close>, \<open>store/reactive_pending.go\<close>, \<open>store/reactive_promotions.go\<close>, \<open>store/reactive_metrics.go\<close>):
    statements as the step relation \<open>rx_step\<close>, with the triggers of the schema; the invariant of the tables and the life cycle of a
    commit hold under every interleaving.
  \<^item> \<open>ReactiveRouting\<close> (\<open>reactivequeue/router.go\<close>, \<open>reactivequeue/targets.go\<close>): what a route means.
  \<^item> \<open>YEnc\<close> (\<open>nntp/yenc.go\<close>): articles written by the encoding rule decode to their data, and a payload with one byte
    changed is refused by its checksum. The bounds on lines, encoded and decoded bytes are those of the code.
  \<^item> \<open>ReactiveService\<close> (\<open>reactivecommit/reactivecommit.go\<close>, \<open>reactivequeue/reactivequeue.go\<close>, \<open>reactivedispatch/dispatcher.go\<close>): commits are
    justified by the evidence of the proof graph, and atomic except for a record in progress that stays when the context ends while the record is
    read back or the clean-up runs out of time; the dispatcher, over the locale \<open>dispatch_router\<close> interpreted for the
    modelled router, accounts for every entry.

  \<^bold>\<open>Conventions.\<close> Bytes and Go strings are \<open>string\<close>; errors are values of sum or option types, one constructor or
  message per branch of the code. Machine integers are words where the code computes on bits (GF16), and
  integers with \<open>wrap64\<close> written out where an \<open>int64\<close> can overflow; a length of a slice is a natural
  number. Mutexes become atomic functions on the state; what happens between critical sections of
  concurrent callers is a step of a relation. A context or clock that is read several times in a
  call is a sequence of readings, so it may end or move at any point.

  \<^bold>\<open>Loops and fuel.\<close> All loops are total functions: by structure, or with a termination measure
  (\<open>writeChunks\<close>, \<open>searchLoop\<close>, \<open>merkleRootContext\<close>, \<open>leavesLoop\<close>, \<open>walkFileTreeLeaves\<close>). Only the decoder's container loops use fuel, the
  number of bytes that are left: each element consumes at least one byte, and it is proved that no
  input makes them run out.

  \<^bold>\<open>Parameters.\<close> Hash functions, the Unicode tables behind \<open>unicode.IsLetter\<close> and case folding, the operations of
  \<open>float64\<close> in the lag averages and playback thresholds, the governor and attempts of a ladder, the fetch of a chunk, and the media managers, items and
  identity check a reactive commit consults are arguments.
  Nothing is assumed of them unless a theorem says so.

  \<^bold>\<open>Not modelled.\<close> The HTTP handlers (\<open>api\<close>), the program's entry points and setup dialogues (\<open>cmd\<close>, \<open>wizard\<close>,
  \<open>config\<close>, \<open>doctor\<close>, the installers and Docker helpers) are mostly I/O, text and wiring; the provider clients (\<open>torbox\<close>, \<open>realdebrid\<close>,
  \<open>premiumize\<close>, \<open>alldebrid\<close>, \<open>prowlarr\<close>) and the HTTP backends translate remote APIs; the wire protocol and pools of \<open>nntp\<close>
  and the archive readers work on sockets and streams; the rest of \<open>store\<close> is SQL. Failures of the database itself
  are not modelled, and neither are the regular expressions that scrub error texts.
\<close>

end
